(* ===== verification/Prelude.thy ===== *)
theory Prelude
  imports Main "HOL-Library.Word" "HOL-Library.Product_Lexorder"
begin

text \<open>
  Shared vocabulary of the development: machine integers, the results of fallible and of
  polled operations, panics, and the generic lemmas the components use.

  Rust's \<open>usize\<close> is a 64-bit word, so that the reactor's ticker and the timer identifiers
  wrap around as \<open>fetch_add\<close> and \<open>wrapping_add\<close> do. Slab keys are indices into a vector
  that fits in memory, so they are natural numbers.
\<close>

section \<open>Machine integers and handles\<close>

type_synonym usize = "64 word"
type_synonym slab_key = nat

text \<open>A waker is an opaque handle; only its identity and \<open>will_wake\<close> are observable.\<close>

type_synonym waker = nat

section \<open>Errors, panics and polling\<close>

text \<open>
  The code looks only at the kind of an \<open>io::Error\<close>, and only at two of them. Every other
  error is carried through unchanged.
\<close>

datatype io_error = WouldBlock | Interrupted | Os_Error nat

text \<open>A panic unwinds the operation. One constructor per panicking call of the source.\<close>

datatype panic =
    Slab_Invalid_Key      \<comment> \<open>\<open>Slab::remove\<close> or indexing with a vacant key\<close>
  | Instant_Overflow      \<comment> \<open>\<open>Instant + Duration\<close> out of range\<close>
  | Notify_Failed         \<comment> \<open>\<open>expect\<close> on \<open>Poller::notify\<close>\<close>
  | Queue_Unbounded       \<comment> \<open>\<open>unwrap\<close> on \<open>ConcurrentQueue::capacity\<close>\<close>
  | Unwrap_None           \<comment> \<open>\<open>unwrap\<close> on an \<open>Option\<close>\<close>
  | Lock_Poisoned         \<comment> \<open>\<open>unwrap\<close> on the result of \<open>Mutex::lock\<close>\<close>
  | Unreachable_Code      \<comment> \<open>\<open>unreachable!()\<close>\<close>
  | Expect_Failed string  \<comment> \<open>another \<open>expect\<close>, with its message\<close>

type_synonym 'a io_result = "io_error + 'a"

datatype 'a poll = Poll_Pending | Poll_Ready 'a

section \<open>Theorem collections\<close>

named_theorems result_simps \<open>sequencing of computations that may fail\<close>
named_theorems view_simps \<open>what the operations do to the abstract views\<close>

section \<open>Sequencing computations that may fail\<close>

text \<open>The question mark operator and the propagation of a panic.\<close>

fun rbind :: "'e + 'a \<Rightarrow> ('a \<Rightarrow> 'e + 'b) \<Rightarrow> 'e + 'b" where
  "rbind (Inl e) f = Inl e"
| "rbind (Inr x) f = f x"

lemma rbind_eq_Inr_iff [result_simps]:
  "rbind m f = Inr y \<longleftrightarrow> (\<exists>x. m = Inr x \<and> f x = Inr y)"
  by (cases m) auto

lemma rbind_eq_Inl_iff [result_simps]:
  "rbind m f = Inl e \<longleftrightarrow> m = Inl e \<or> (\<exists>x. m = Inr x \<and> f x = Inl e)"
  by (cases m) auto

lemma rbind_assoc [result_simps]: "rbind (rbind m f) g = rbind m (\<lambda>x. rbind (f x) g)"
  by (cases m) auto

text \<open>
  The same for a computation that may also not return (\<open>None\<close>): the calls that push timer
  operations loop until the queue takes them.
\<close>

fun obind :: "('e + 'a) option \<Rightarrow> ('a \<Rightarrow> ('e + 'b) option) \<Rightarrow> ('e + 'b) option" where
  "obind None f = None"
| "obind (Some (Inl e)) f = Some (Inl e)"
| "obind (Some (Inr x)) f = f x"

lemma obind_eq_Some_Inr [result_simps]:
  "obind m f = Some (Inr y) \<longleftrightarrow> (\<exists>x. m = Some (Inr x) \<and> f x = Some (Inr y))"
  by (cases "(m, f)" rule: obind.cases) auto

text \<open>\<open>Option::unwrap\<close> and its kin: the value, or the panic.\<close>

definition or_panic :: "panic \<Rightarrow> 'a option \<Rightarrow> panic + 'a" where
  "or_panic p x = (case x of None \<Rightarrow> Inl p | Some y \<Rightarrow> Inr y)"

lemma or_panic_simps [simp]:
  "or_panic p None = Inl p"
  "or_panic p (Some y) = Inr y"
  by (simp_all add: or_panic_def)

lemma or_panic_eq_Inr [simp]: "or_panic p x = Inr y \<longleftrightarrow> x = Some y"
  by (cases x) auto

section \<open>Options in lists\<close>

text \<open>The values of the occupied entries, in order.\<close>

definition somes :: "'a option list \<Rightarrow> 'a list" where
  "somes xs = concat (map (\<lambda>x. case x of None \<Rightarrow> [] | Some y \<Rightarrow> [y]) xs)"

lemma somes_simps [simp]:
  "somes [] = []"
  "somes (None # xs) = somes xs"
  "somes (Some y # xs) = y # somes xs"
  by (simp_all add: somes_def)

lemma set_somes [simp]: "y \<in> set (somes xs) \<longleftrightarrow> Some y \<in> set xs"
  by (induction xs) (auto simp: somes_def split: option.splits)

lemma somes_eq_Nil_iff: "somes xs = [] \<longleftrightarrow> (\<forall>x \<in> set xs. x = None)"
  by (induction xs) (auto simp: somes_def split: option.splits)

definition option_list :: "'a option \<Rightarrow> 'a list" where
  "option_list x = (case x of None \<Rightarrow> [] | Some y \<Rightarrow> [y])"

lemma option_list_simps [simp]: "option_list None = []" "option_list (Some y) = [y]"
  by (simp_all add: option_list_def)

lemma set_option_list [simp]: "y \<in> set (option_list x) \<longleftrightarrow> x = Some y"
  by (cases x) auto

section \<open>Wrap-around counters\<close>

text \<open>
  A counter that starts at a value and is bumped \<open>n\<close> times reads \<open>of_nat\<close> of the count.
  Two readings differ as long as fewer than \<open>2 ^ 64\<close> bumps lie between them.
\<close>

lemma of_nat_usize_eq_iff:
  assumes "m \<le> n" "n - m < 2 ^ 64"
  shows "(of_nat m :: usize) = of_nat n \<longleftrightarrow> m = n"
proof
  assume eq: "(of_nat m :: usize) = of_nat n"
  have "(of_nat (n - m) :: usize) = of_nat n - of_nat m"
    using assms(1) by (rule of_nat_diff)
  also have "\<dots> = 0" using eq by simp
  finally have "(of_nat (n - m) :: usize) = 0" .
  then have "2 ^ 64 dvd n - m"
    by (simp add: word_of_nat_eq_0_iff)
  with assms show "m = n" by (auto dest!: dvd_imp_le simp: not_less [symmetric])
qed simp

end
