(* ===== verification/Std_Time.thy ===== *)
theory Std_Time
  imports Prelude
begin

text \<open>
  \<open>std::time\<close> as the code uses it, in nanoseconds. A \<open>Duration\<close> is a 64-bit count of
  seconds and a nanosecond part below one second; an \<open>Instant\<close> (on Unix) is a signed 64-bit
  count of seconds and a nanosecond part, so \<open>checked_add\<close> fails beyond the largest one.
\<close>

type_synonym duration = nat
type_synonym instant = int

definition nanos_per_sec :: nat where
  "nanos_per_sec = 1000000000"

definition duration_max :: duration where
  "duration_max = 2 ^ 64 * nanos_per_sec - 1"

definition instant_min :: instant where
  "instant_min = - (2 ^ 63) * int nanos_per_sec"

definition instant_max :: instant where
  "instant_max = 2 ^ 63 * int nanos_per_sec - 1"

definition valid_instant :: "instant \<Rightarrow> bool" where
  "valid_instant t \<longleftrightarrow> instant_min \<le> t \<and> t \<le> instant_max"

definition valid_duration :: "duration \<Rightarrow> bool" where
  "valid_duration d \<longleftrightarrow> d \<le> duration_max"

text \<open>\<open>Instant::checked_add\<close>, and \<open>+\<close>, which panics where it fails.\<close>

definition checked_add :: "instant \<Rightarrow> duration \<Rightarrow> instant option" where
  "checked_add t d = (if t + int d \<le> instant_max then Some (t + int d) else None)"

definition instant_add :: "instant \<Rightarrow> duration \<Rightarrow> panic + instant" where
  "instant_add t d = or_panic Instant_Overflow (checked_add t d)"

definition saturating_duration_since :: "instant \<Rightarrow> instant \<Rightarrow> duration" where
  "saturating_duration_since t earlier = nat (t - earlier)"

lemma checked_add_Some_iff:
  "checked_add t d = Some u \<longleftrightarrow> u = t + int d \<and> u \<le> instant_max"
  by (auto simp: checked_add_def)

lemma checked_add_None_iff: "checked_add t d = None \<longleftrightarrow> instant_max < t + int d"
  by (simp add: checked_add_def not_le)

lemma instant_add_nanosecond:
  "instant_add t (Suc 0) = (if t < instant_max then Inr (t + 1) else Inl Instant_Overflow)"
  by (simp add: instant_add_def checked_add_def)

lemma checked_add_duration_max:
  assumes "instant_min + int nanos_per_sec \<le> t"
  shows "checked_add t duration_max = None"
  using assms
  by (simp add: checked_add_None_iff duration_max_def instant_min_def instant_max_def
      nanos_per_sec_def)

end
