(* ===== verification/Std_BTreeMap.thy ===== *)
theory Std_BTreeMap
  imports Prelude
begin

text \<open>
  \<open>std::collections::BTreeMap\<close> as a strictly sorted association list, with the operations the
  reactor's timer map uses: \<open>insert\<close>, \<open>remove\<close>, \<open>split_off\<close> and \<open>keys().next()\<close>.
\<close>

type_synonym ('k, 'v) btree_map = "('k \<times> 'v) list"

definition btree_ok :: "('k::linorder, 'v) btree_map \<Rightarrow> bool" where
  "btree_ok m \<longleftrightarrow> sorted_wrt (<) (map fst m)"

fun btree_insert :: "'k::linorder \<Rightarrow> 'v \<Rightarrow> ('k, 'v) btree_map \<Rightarrow> ('k, 'v) btree_map" where
  "btree_insert k v [] = [(k, v)]"
| "btree_insert k v ((k', v') # m) =
     (if k < k' then (k, v) # (k', v') # m
      else if k = k' then (k, v) # m
      else (k', v') # btree_insert k v m)"

definition btree_remove :: "'k::linorder \<Rightarrow> ('k, 'v) btree_map \<Rightarrow> ('k, 'v) btree_map" where
  "btree_remove k m = filter (\<lambda>(k', _). k' \<noteq> k) m"

text \<open>\<open>split_off\<close> keeps the keys below the given one and returns the rest.\<close>

definition btree_split_off ::
    "'k::linorder \<Rightarrow> ('k, 'v) btree_map \<Rightarrow> ('k, 'v) btree_map \<times> ('k, 'v) btree_map" where
  "btree_split_off k m = (filter (\<lambda>(k', _). k' < k) m, filter (\<lambda>(k', _). \<not> k' < k) m)"

definition btree_first_key :: "('k, 'v) btree_map \<Rightarrow> 'k option" where
  "btree_first_key m = (case m of [] \<Rightarrow> None | (k, _) # _ \<Rightarrow> Some k)"

section \<open>The order is kept\<close>

lemma btree_ok_Nil [simp, intro]: "btree_ok []"
  by (simp add: btree_ok_def)

lemma btree_ok_Cons:
  "btree_ok ((k, v) # m) \<longleftrightarrow> (\<forall>k' \<in> fst ` set m. k < k') \<and> btree_ok m"
  by (auto simp: btree_ok_def)

lemma fst_set_btree_insert: "fst ` set (btree_insert k v m) = insert k (fst ` set m)"
  by (induction k v m rule: btree_insert.induct) auto

lemma btree_ok_insert [intro]: "btree_ok m \<Longrightarrow> btree_ok (btree_insert k v m)"
  by (induction k v m rule: btree_insert.induct)
    (auto simp: btree_ok_Cons fst_set_btree_insert intro: less_trans)

lemma btree_ok_filter [intro]: "btree_ok m \<Longrightarrow> btree_ok (filter P m)"
  unfolding btree_ok_def by (simp add: sorted_wrt_map sorted_wrt_filter)

lemma btree_ok_remove [intro]: "btree_ok m \<Longrightarrow> btree_ok (btree_remove k m)"
  by (auto simp: btree_remove_def)

lemma btree_ok_distinct: "btree_ok m \<Longrightarrow> distinct (map fst m)"
  by (simp add: btree_ok_def strict_sorted_iff)

section \<open>The map the list stands for\<close>

lemma map_of_btree_insert [view_simps]:
  "map_of (btree_insert k v m) = (map_of m)(k \<mapsto> v)"
  by (induction k v m rule: btree_insert.induct) auto

lemma map_of_filter_key:
  "map_of (filter (\<lambda>(k, _). P k) m) = (\<lambda>k. if P k then map_of m k else None)"
  by (induction m) auto

lemma map_of_btree_remove [view_simps]: "map_of (btree_remove k m) = (map_of m)(k := None)"
  by (auto simp: btree_remove_def map_of_filter_key)

lemma btree_first_key_least:
  assumes "btree_ok m" "btree_first_key m = Some k"
  shows "map_of m k \<noteq> None" "map_of m k' \<noteq> None \<Longrightarrow> k \<le> k'"
proof -
  from assms(2) obtain v m' where m: "m = (k, v) # m'"
    by (auto simp: btree_first_key_def split: list.splits)
  then show "map_of m k \<noteq> None" by simp
  assume "map_of m k' \<noteq> None"
  then have "k' \<in> fst ` set m" by (simp add: map_of_eq_None_iff)
  with m assms(1) show "k \<le> k'" by (auto simp: btree_ok_Cons less_imp_le)
qed

lemma btree_first_key_None: "btree_first_key m = None \<longleftrightarrow> m = []"
  by (auto simp: btree_first_key_def split: list.splits)

end
