(* ===== verification/Crates.thy ===== *)
theory Crates
  imports Std_Time Std_BTreeMap
begin

text \<open>
  The third-party crates the code calls are parameters of the model. Each crate is a record of
  the operations the code uses, over a state of its own type, and a contract: the documented
  behaviour the code relies on, stated as a predicate of the record. The definitions take the
  records as arguments; the theorems name the contracts as hypotheses.
\<close>

section \<open>\<open>slab\<close>: storage with reusable keys\<close>

record ('v, 's) slab_ops =
  sl_new :: 's
  sl_vacant_key :: "'s \<Rightarrow> slab_key"
  sl_insert :: "'v \<Rightarrow> 's \<Rightarrow> slab_key \<times> 's"
  sl_remove :: "slab_key \<Rightarrow> 's \<Rightarrow> ('v \<times> 's) option"
  sl_get :: "slab_key \<Rightarrow> 's \<Rightarrow> 'v option"
  sl_contains :: "slab_key \<Rightarrow> 's \<Rightarrow> bool"
  sl_put :: "slab_key \<Rightarrow> 'v \<Rightarrow> 's \<Rightarrow> 's option"
  sl_iter :: "'s \<Rightarrow> (slab_key \<times> 'v) list"
  sl_update_all :: "('v \<Rightarrow> 'v) \<Rightarrow> 's \<Rightarrow> 's"

text \<open>
  \<open>sl_remove\<close> and \<open>sl_put\<close> (assignment through \<open>IndexMut\<close>) are \<open>None\<close> where the crate
  panics; \<open>sl_update_all\<close> is a walk with \<open>iter_mut\<close> that writes every entry.
\<close>

definition slab_get_ok :: "('v, 's) slab_ops \<Rightarrow> bool" where
  "slab_get_ok S \<longleftrightarrow>
     (\<forall>k. sl_get S k (sl_new S) = None) \<and>
     (\<forall>k s. sl_contains S k s = (sl_get S k s \<noteq> None))"

definition slab_insert_ok :: "('v, 's) slab_ops \<Rightarrow> bool" where
  "slab_insert_ok S \<longleftrightarrow>
     (\<forall>s. sl_get S (sl_vacant_key S s) s = None) \<and>
     (\<forall>v s. fst (sl_insert S v s) = sl_vacant_key S s \<and>
        (\<forall>k. sl_get S k (snd (sl_insert S v s)) =
           (if k = sl_vacant_key S s then Some v else sl_get S k s)))"

definition slab_remove_ok :: "('v, 's) slab_ops \<Rightarrow> bool" where
  "slab_remove_ok S \<longleftrightarrow>
     (\<forall>k s. case sl_get S k s of
        None \<Rightarrow> sl_remove S k s = None
      | Some v \<Rightarrow> \<exists>s'. sl_remove S k s = Some (v, s') \<and>
          (\<forall>j. sl_get S j s' = (if j = k then None else sl_get S j s)))"

definition slab_put_ok :: "('v, 's) slab_ops \<Rightarrow> bool" where
  "slab_put_ok S \<longleftrightarrow>
     (\<forall>k v s. case sl_get S k s of
        None \<Rightarrow> sl_put S k v s = None
      | Some _ \<Rightarrow> \<exists>s'. sl_put S k v s = Some s' \<and>
          (\<forall>j. sl_get S j s' = (if j = k then Some v else sl_get S j s)))"

definition slab_iter_ok :: "('v, 's) slab_ops \<Rightarrow> bool" where
  "slab_iter_ok S \<longleftrightarrow>
     (\<forall>s k v. (k, v) \<in> set (sl_iter S s) \<longleftrightarrow> sl_get S k s = Some v) \<and>
     (\<forall>f s k. sl_get S k (sl_update_all S f s) = map_option f (sl_get S k s))"

definition slab_ok :: "('v, 's) slab_ops \<Rightarrow> bool" where
  "slab_ok S \<longleftrightarrow>
     slab_get_ok S \<and> slab_insert_ok S \<and> slab_remove_ok S \<and> slab_put_ok S \<and> slab_iter_ok S"

lemma slab_get_new [simp]: "slab_ok S \<Longrightarrow> sl_get S k (sl_new S) = None"
  by (simp add: slab_ok_def slab_get_ok_def)

lemma slab_contains [simp]: "slab_ok S \<Longrightarrow> sl_contains S k s \<longleftrightarrow> sl_get S k s \<noteq> None"
  by (simp add: slab_ok_def slab_get_ok_def)

lemma slab_get_vacant [simp]: "slab_ok S \<Longrightarrow> sl_get S (sl_vacant_key S s) s = None"
  by (simp add: slab_ok_def slab_insert_ok_def)

lemma slab_insertD:
  assumes "slab_ok S" "sl_insert S v s = (k, s')"
  shows "k = sl_vacant_key S s" "sl_get S j s' = (if j = k then Some v else sl_get S j s)"
proof -
  have "slab_insert_ok S" using assms(1) by (simp add: slab_ok_def)
  then have "fst (sl_insert S v s) = sl_vacant_key S s"
    "sl_get S j (snd (sl_insert S v s)) =
      (if j = sl_vacant_key S s then Some v else sl_get S j s)"
    unfolding slab_insert_ok_def by blast+
  with assms(2) show "k = sl_vacant_key S s"
    "sl_get S j s' = (if j = k then Some v else sl_get S j s)" by simp_all
qed

lemma slab_remove_cases:
  assumes "slab_ok S"
  obtains (vacant) "sl_get S k s = None" "sl_remove S k s = None"
  | (occupied) v s' where "sl_get S k s = Some v" "sl_remove S k s = Some (v, s')"
      "\<forall>j. sl_get S j s' = (if j = k then None else sl_get S j s)"
proof -
  have spec: "case sl_get S k s of
        None \<Rightarrow> sl_remove S k s = None
      | Some v \<Rightarrow> \<exists>s'. sl_remove S k s = Some (v, s') \<and>
          (\<forall>j. sl_get S j s' = (if j = k then None else sl_get S j s))"
    using assms unfolding slab_ok_def slab_remove_ok_def by blast
  show thesis
  proof (cases "sl_get S k s")
    case None
    with spec vacant show thesis by simp
  next
    case (Some v)
    with spec obtain s' where "sl_remove S k s = Some (v, s')"
        "\<forall>j. sl_get S j s' = (if j = k then None else sl_get S j s)"
      unfolding Some option.case by blast
    with Some show thesis by (rule occupied)
  qed
qed

lemma slab_remove_None:
  assumes "slab_ok S"
  shows "sl_remove S k s = None \<longleftrightarrow> sl_get S k s = None"
  using assms by (cases rule: slab_remove_cases [where k = k and s = s]) simp_all

lemma slab_removeD:
  assumes "slab_ok S" "sl_remove S k s = Some (v, s')"
  shows "sl_get S k s = Some v \<and> (\<forall>j. sl_get S j s' = (if j = k then None else sl_get S j s))"
  using assms(1) by (cases rule: slab_remove_cases [where k = k and s = s]) (use assms(2) in simp_all)

lemma slab_put_cases:
  assumes "slab_ok S"
  obtains (vacant) "sl_get S k s = None" "sl_put S k v s = None"
  | (occupied) w s' where "sl_get S k s = Some w" "sl_put S k v s = Some s'"
      "\<forall>j. sl_get S j s' = (if j = k then Some v else sl_get S j s)"
proof -
  have spec: "case sl_get S k s of
        None \<Rightarrow> sl_put S k v s = None
      | Some _ \<Rightarrow> \<exists>s'. sl_put S k v s = Some s' \<and>
          (\<forall>j. sl_get S j s' = (if j = k then Some v else sl_get S j s))"
    using assms unfolding slab_ok_def slab_put_ok_def by blast
  show thesis
  proof (cases "sl_get S k s")
    case None
    with spec vacant show thesis by simp
  next
    case (Some w)
    with spec obtain s' where "sl_put S k v s = Some s'"
        "\<forall>j. sl_get S j s' = (if j = k then Some v else sl_get S j s)"
      unfolding Some option.case by blast
    with Some show thesis by (rule occupied)
  qed
qed

lemma slab_put_None:
  assumes "slab_ok S"
  shows "sl_put S k v s = None \<longleftrightarrow> sl_get S k s = None"
  using assms by (cases rule: slab_put_cases [where k = k and s = s and v = v]) simp_all

lemma slab_putD:
  assumes "slab_ok S" "sl_put S k v s = Some s'"
  shows "sl_get S j s' = (if j = k then Some v else sl_get S j s)"
  using assms(1)
  by (cases rule: slab_put_cases [where k = k and s = s and v = v]) (use assms(2) in simp_all)

lemma slab_iter_iff [simp]:
  "slab_ok S \<Longrightarrow> (k, v) \<in> set (sl_iter S s) \<longleftrightarrow> sl_get S k s = Some v"
  by (simp add: slab_ok_def slab_iter_ok_def)

lemma slab_get_update_all [simp]:
  "slab_ok S \<Longrightarrow> sl_get S k (sl_update_all S f s) = map_option f (sl_get S k s)"
  by (simp add: slab_ok_def slab_iter_ok_def)

lemma slab_iter_values:
  assumes "slab_ok S"
  shows "v \<in> snd ` set (sl_iter S s) \<longleftrightarrow> (\<exists>k. sl_get S k s = Some v)"
proof
  assume "v \<in> snd ` set (sl_iter S s)"
  then obtain k where "(k, v) \<in> set (sl_iter S s)" by auto
  with assms show "\<exists>k. sl_get S k s = Some v" by auto
next
  assume "\<exists>k. sl_get S k s = Some v"
  then obtain k where "(k, v) \<in> set (sl_iter S s)" using assms by auto
  then show "v \<in> snd ` set (sl_iter S s)" by force
qed

section \<open>\<open>concurrent-queue\<close>: a bounded first-in first-out queue\<close>

record ('a, 'q) queue_ops =
  cq_bounded :: "nat \<Rightarrow> 'q"
  cq_push :: "'a \<Rightarrow> 'q \<Rightarrow> bool \<times> 'q"   \<comment> \<open>\<open>push(x).is_ok()\<close>\<close>
  cq_pop :: "'q \<Rightarrow> 'a option \<times> 'q"    \<comment> \<open>one step of \<open>try_iter\<close>\<close>
  cq_capacity :: "'q \<Rightarrow> nat option"

text \<open>
  The contract speaks of the items in the queue, oldest first, through an abstraction function.
  A bounded queue refuses a push exactly when it is full.
\<close>

definition queue_ok :: "('a, 'q) queue_ops \<Rightarrow> ('q \<Rightarrow> 'a list) \<Rightarrow> nat \<Rightarrow> bool" where
  "queue_ok Q items cap \<longleftrightarrow>
     0 < cap \<and>
     items (cq_bounded Q cap) = [] \<and>
     (\<forall>q. cq_capacity Q q = Some cap) \<and>
     (\<forall>x q. length (items q) < cap \<longrightarrow>
        fst (cq_push Q x q) \<and> items (snd (cq_push Q x q)) = items q @ [x]) \<and>
     (\<forall>x q. cap \<le> length (items q) \<longrightarrow>
        \<not> fst (cq_push Q x q) \<and> items (snd (cq_push Q x q)) = items q) \<and>
     (\<forall>q. fst (cq_pop Q q) = (case items q of [] \<Rightarrow> None | x # _ \<Rightarrow> Some x)) \<and>
     (\<forall>q. items (snd (cq_pop Q q)) = tl (items q))"

lemma queue_capacity [simp]: "queue_ok Q items cap \<Longrightarrow> cq_capacity Q q = Some cap"
  by (simp add: queue_ok_def)

lemma queue_new [simp]: "queue_ok Q items cap \<Longrightarrow> items (cq_bounded Q cap) = []"
  unfolding queue_ok_def by blast

lemma queue_pushD:
  assumes "queue_ok Q items cap" "cq_push Q x q = (b, q')"
  shows "b \<longleftrightarrow> length (items q) < cap"
    and "items q' = (if length (items q) < cap then items q @ [x] else items q)"
proof -
  have "(length (items q) < cap \<longrightarrow> b \<and> items q' = items q @ [x]) \<and>
      (cap \<le> length (items q) \<longrightarrow> \<not> b \<and> items q' = items q)"
    using assms unfolding queue_ok_def by (metis fst_conv snd_conv)
  then show "b \<longleftrightarrow> length (items q) < cap"
    and "items q' = (if length (items q) < cap then items q @ [x] else items q)"
    by (auto simp: not_less [symmetric])
qed

lemma queue_popD:
  assumes "queue_ok Q items cap" "cq_pop Q q = (r, q')"
  shows "r = (case items q of [] \<Rightarrow> None | x # _ \<Rightarrow> Some x)" "items q' = tl (items q)"
  using assms unfolding queue_ok_def by (metis fst_conv snd_conv)+

section \<open>\<open>polling\<close>: events, interest and the poller\<close>

record event =
  ev_key :: slab_key
  ev_readable :: bool
  ev_writable :: bool

definition event_none :: "slab_key \<Rightarrow> event" where
  "event_none k = \<lparr>ev_key = k, ev_readable = False, ev_writable = False\<rparr>"

text \<open>
  The poller's own state stands for the operating system as well: the results of its calls
  depend on it, so a theorem about every poller is a theorem about every outcome. The wait call
  appends the new events to the buffer it is given and returns their number.
\<close>

record 'p poller_ops =
  po_notify :: "'p \<Rightarrow> unit io_result \<times> 'p"
  po_wait :: "event list \<Rightarrow> duration option \<Rightarrow> 'p \<Rightarrow> nat io_result \<times> event list \<times> 'p"

definition poller_ok :: "'p poller_ops \<Rightarrow> bool" where
  "poller_ok P \<longleftrightarrow>
     (\<forall>p. fst (po_notify P p) = Inr ()) \<and>
     (\<forall>evs timeout p n evs' p'. po_wait P evs timeout p = (Inr n, evs', p') \<longrightarrow>
        (\<exists>new. evs' = evs @ new \<and> length new = n))"

lemma poller_notify [simp]: "poller_ok P \<Longrightarrow> fst (po_notify P p) = Inr ()"
  by (simp add: poller_ok_def)

lemma poller_waitD:
  "poller_ok P \<Longrightarrow> po_wait P evs timeout p = (Inr n, evs', p') \<Longrightarrow>
     \<exists>new. evs' = evs @ new \<and> length new = n"
  unfolding poller_ok_def by blast

end
