(* ===== verification/Registration.thy ===== *)
theory Registration
  imports Crates
begin

text \<open>
  The raw registrations of \<open>src/src/reactor/unix.rs\<close>, \<open>kqueue.rs\<close> and \<open>windows.rs\<close>. Each
  platform has a type of registrations and the three operations \<open>add\<close>, \<open>modify\<close> and
  \<open>delete\<close>, which dispatch to the calls of the \<open>polling\<close> crate. The reactor is compiled
  against one of the three; the locale \<open>registration_backend\<close> is the contract it relies on,
  and each platform is an interpretation.
\<close>

section \<open>The interface\<close>

record ('reg, 'p) registration_ops =
  reg_add :: "'reg \<Rightarrow> slab_key \<Rightarrow> 'p \<Rightarrow> unit io_result \<times> 'p"
  reg_modify :: "'reg \<Rightarrow> event \<Rightarrow> 'p \<Rightarrow> unit io_result \<times> 'p"
  reg_delete :: "'reg \<Rightarrow> 'p \<Rightarrow> unit io_result \<times> 'p"

text \<open>
  \<open>table p\<close> is what the poller watches: the interest (with its key) of every registered
  object. \<open>duplex\<close> holds of the registrations that report writability too (a signal or a
  process only ever becomes readable).
\<close>

locale registration_backend =
  fixes R :: "('reg, 'p) registration_ops"
    and table :: "'p \<Rightarrow> 'reg \<Rightarrow> event option"
    and duplex :: "'reg \<Rightarrow> bool"
    and ok :: "'p \<Rightarrow> bool"
  assumes add_ok: "ok p \<Longrightarrow> reg_add R g k p = (Inr (), p') \<Longrightarrow>
      ok p' \<and> (\<exists>e. table p' = (table p)(g \<mapsto> e) \<and> ev_key e = k)"
    and add_err: "ok p \<Longrightarrow> reg_add R g k p = (Inl err, p') \<Longrightarrow> ok p' \<and> table p' = table p"
    and modify_ok: "ok p \<Longrightarrow> reg_modify R g e p = (Inr (), p') \<Longrightarrow>
      ok p' \<and> (\<exists>e'. table p' = (table p)(g \<mapsto> e') \<and> ev_key e' = ev_key e \<and>
        (ev_readable e \<longrightarrow> ev_readable e') \<and> (duplex g \<longrightarrow> ev_writable e \<longrightarrow> ev_writable e'))"
    and modify_err: "ok p \<Longrightarrow> reg_modify R g e p = (Inl err, p') \<Longrightarrow> ok p' \<and> table p' = table p"
    and delete_ok: "ok p \<Longrightarrow> reg_delete R g p = (Inr (), p') \<Longrightarrow>
      ok p' \<and> table p' = (table p)(g := None)"
    and delete_err: "ok p \<Longrightarrow> reg_delete R g p = (Inl err, p') \<Longrightarrow> ok p' \<and> table p' = table p"
begin

text \<open>An operation on one registration leaves the others alone.\<close>

lemma add_frame:
  assumes "ok p" "reg_add R g k p = (res, p')" "g' \<noteq> g"
  shows "table p' g' = table p g'"
  using assms add_ok [of p g k p'] add_err [of p g k _ p'] by (cases res) auto

lemma modify_frame:
  assumes "ok p" "reg_modify R g e p = (res, p')" "g' \<noteq> g"
  shows "table p' g' = table p g'"
  using assms modify_ok [of p g e p'] modify_err [of p g e _ p'] by (cases res) auto

lemma delete_frame:
  assumes "ok p" "reg_delete R g p = (res, p')" "g' \<noteq> g"
  shows "table p' g' = table p g'"
  using assms delete_ok [of p g p'] delete_err [of p g _ p'] by (cases res) auto

text \<open>Deregistering what was registered restores the poller's table.\<close>

lemma add_delete:
  assumes "ok p" "table p g = None" "reg_add R g k p = (Inr (), p')"
    and "reg_delete R g p' = (Inr (), p'')"
  shows "table p'' = table p"
proof -
  obtain e where "ok p'" "table p' = (table p)(g \<mapsto> e)"
    using add_ok [OF assms(1,3)] by blast
  with delete_ok [of p' g p''] assms(2,4) show ?thesis by auto
qed

text \<open>Re-registering arms what was asked for, under the same key.\<close>

lemma modify_arms:
  assumes "ok p" "reg_modify R g e p = (Inr (), p')"
  obtains e' where "table p' g = Some e'" "ev_key e' = ev_key e"
    "ev_readable e \<Longrightarrow> ev_readable e'" "duplex g \<Longrightarrow> ev_writable e \<Longrightarrow> ev_writable e'"
  using modify_ok [OF assms] by auto

end

section \<open>Unix: file descriptors\<close>

type_synonym raw_fd = "32 word"

record registration_unix =
  raw :: raw_fd

text \<open>The calls of \<open>Poller\<close> on a file descriptor, or on a socket on Windows.\<close>

record ('fd, 'p) poller_fd_ops =
  po_add :: "'fd \<Rightarrow> event \<Rightarrow> 'p \<Rightarrow> unit io_result \<times> 'p"
  po_modify :: "'fd \<Rightarrow> event \<Rightarrow> 'p \<Rightarrow> unit io_result \<times> 'p"
  po_delete :: "'fd \<Rightarrow> 'p \<Rightarrow> unit io_result \<times> 'p"

definition unix_new :: "raw_fd \<Rightarrow> registration_unix" where
  "unix_new f = \<lparr>raw = f\<rparr>"

definition unix_add ::
    "(raw_fd, 'p) poller_fd_ops \<Rightarrow> registration_unix \<Rightarrow> slab_key \<Rightarrow> 'p \<Rightarrow> unit io_result \<times> 'p" where
  "unix_add P g token p = po_add P (raw g) (event_none token) p"

definition unix_modify ::
    "(raw_fd, 'p) poller_fd_ops \<Rightarrow> registration_unix \<Rightarrow> event \<Rightarrow> 'p \<Rightarrow> unit io_result \<times> 'p" where
  "unix_modify P g interest p = po_modify P (raw g) interest p"

definition unix_delete ::
    "(raw_fd, 'p) poller_fd_ops \<Rightarrow> registration_unix \<Rightarrow> 'p \<Rightarrow> unit io_result \<times> 'p" where
  "unix_delete P g p = po_delete P (raw g) p"

definition unix_registration ::
    "(raw_fd, 'p) poller_fd_ops \<Rightarrow> (registration_unix, 'p) registration_ops" where
  "unix_registration P =
     \<lparr>reg_add = unix_add P, reg_modify = unix_modify P, reg_delete = unix_delete P\<rparr>"

text \<open>
  What \<open>polling\<close> documents of \<open>add\<close>, \<open>modify\<close> and \<open>delete\<close>: a call that succeeds sets
  or clears the descriptor's interest, a call that fails changes nothing.
\<close>

definition call_sets :: "('p \<Rightarrow> 'o \<Rightarrow> event option) \<Rightarrow> 'o \<Rightarrow> event option \<Rightarrow>
    'p \<Rightarrow> unit io_result \<times> 'p \<Rightarrow> bool" where
  "call_sets watched x e p out \<longleftrightarrow>
     (case fst out of
        Inr _ \<Rightarrow> watched (snd out) = (watched p)(x := e)
      | Inl _ \<Rightarrow> watched (snd out) = watched p)"

definition fd_calls_ok ::
    "('fd, 'p) poller_fd_ops \<Rightarrow> ('p \<Rightarrow> 'fd \<Rightarrow> event option) \<Rightarrow> bool" where
  "fd_calls_ok P watched \<longleftrightarrow>
     (\<forall>fd e p. call_sets watched fd (Some e) p (po_add P fd e p)) \<and>
     (\<forall>fd e p. call_sets watched fd (Some e) p (po_modify P fd e p)) \<and>
     (\<forall>fd p. call_sets watched fd None p (po_delete P fd p))"

lemma fd_call_okD:
  assumes "fd_calls_ok P watched"
  shows "call_sets watched fd (Some e) p (po_add P fd e p)"
    and "call_sets watched fd (Some e) p (po_modify P fd e p)"
    and "call_sets watched fd None p (po_delete P fd p)"
  using assms unfolding fd_calls_ok_def by blast+

lemma call_sets_pair [simp]:
  "call_sets watched x e p (Inr u, p') \<longleftrightarrow> watched p' = (watched p)(x := e)"
  "call_sets watched x e p (Inl err, p') \<longleftrightarrow> watched p' = watched p"
  by (simp_all add: call_sets_def)

definition unix_table ::
    "('p \<Rightarrow> raw_fd \<Rightarrow> event option) \<Rightarrow> 'p \<Rightarrow> registration_unix \<Rightarrow> event option" where
  "unix_table watched p g = watched p (raw g)"

lemma unix_table_upd:
  "watched p' = (watched p)(raw g := e) \<Longrightarrow>
     unix_table watched p' = (unix_table watched p)(g := e)"
  by (auto simp: unix_table_def fun_eq_iff)

lemmas unix_registration_defs = unix_registration_def unix_add_def unix_modify_def unix_delete_def

interpretation unix_backend: registration_backend "unix_registration P" "unix_table watched"
    "\<lambda>_. True" "\<lambda>_. fd_calls_ok P watched" for P watched
proof (unfold_locales, goal_cases)
  case (1 p g k p')
  with fd_call_okD(1) [of P watched "raw g" "event_none k" p] show ?case
    by (auto simp: unix_registration_defs event_none_def dest: unix_table_upd)
next
  case (2 p g k err p')
  with fd_call_okD(1) [of P watched "raw g" "event_none k" p] show ?case
    by (auto simp: unix_registration_defs unix_table_def)
next
  case (3 p g e p')
  with fd_call_okD(2) [of P watched "raw g" e p] show ?case
    by (auto simp: unix_registration_defs dest: unix_table_upd)
next
  case (4 p g e err p')
  with fd_call_okD(2) [of P watched "raw g" e p] show ?case
    by (auto simp: unix_registration_defs unix_table_def)
next
  case (5 p g p')
  with fd_call_okD(3) [of P watched "raw g" p] show ?case
    by (auto simp: unix_registration_defs dest: unix_table_upd)
next
  case (6 p g err p')
  with fd_call_okD(3) [of P watched "raw g" p] show ?case
    by (auto simp: unix_registration_defs unix_table_def)
qed

end
