(* ===== verification/Registration_Kqueue.thy ===== *)
theory Registration_Kqueue
  imports Registration
begin

text \<open>
  The registrations of \<open>src/src/reactor/kqueue.rs\<close>: file descriptors, signals and process
  exits. Signals and processes are one-shot filters of the kernel queue, armed by every
  \<open>add\<close> and \<open>modify\<close> whatever the requested interest.
\<close>

type_synonym i32 = "32 word"

datatype signal = Signal i32
datatype process_ops = Exit_Op

datatype registration_kqueue =
    Reg_Fd raw_fd
  | Reg_Signal signal
  | Reg_Process i32

datatype poll_mode = Mode_Oneshot | Mode_Level | Mode_Edge | Mode_Edge_Oneshot

text \<open>\<open>PollSignal\<close> and \<open>Process::from_pid\<close> of \<open>polling::os::kqueue\<close>.\<close>

datatype poll_filter =
    Poll_Signal i32
  | Poll_Process i32 process_ops

record 'p poller_filter_ops =
  po_add_filter :: "poll_filter \<Rightarrow> slab_key \<Rightarrow> poll_mode \<Rightarrow> 'p \<Rightarrow> unit io_result \<times> 'p"
  po_modify_filter :: "poll_filter \<Rightarrow> slab_key \<Rightarrow> poll_mode \<Rightarrow> 'p \<Rightarrow> unit io_result \<times> 'p"
  po_delete_filter :: "poll_filter \<Rightarrow> 'p \<Rightarrow> unit io_result \<times> 'p"

definition kqueue_new :: "raw_fd \<Rightarrow> registration_kqueue" where
  "kqueue_new f = Reg_Fd f"

fun signal_number :: "signal \<Rightarrow> i32" where
  "signal_number (Signal n) = n"

definition kqueue_add :: "(raw_fd, 'p) poller_fd_ops \<Rightarrow> 'p poller_filter_ops \<Rightarrow>
    registration_kqueue \<Rightarrow> slab_key \<Rightarrow> 'p \<Rightarrow> unit io_result \<times> 'p" where
  "kqueue_add P F g token p = (case g of
       Reg_Fd fd \<Rightarrow> po_add P fd (event_none token) p
     | Reg_Signal sig \<Rightarrow> po_add_filter F (Poll_Signal (signal_number sig)) token Mode_Oneshot p
     | Reg_Process pid \<Rightarrow> po_add_filter F (Poll_Process pid Exit_Op) token Mode_Oneshot p)"

definition kqueue_modify :: "(raw_fd, 'p) poller_fd_ops \<Rightarrow> 'p poller_filter_ops \<Rightarrow>
    registration_kqueue \<Rightarrow> event \<Rightarrow> 'p \<Rightarrow> unit io_result \<times> 'p" where
  "kqueue_modify P F g interest p = (case g of
       Reg_Fd fd \<Rightarrow> po_modify P fd interest p
     | Reg_Signal sig \<Rightarrow>
         po_modify_filter F (Poll_Signal (signal_number sig)) (ev_key interest) Mode_Oneshot p
     | Reg_Process pid \<Rightarrow>
         po_modify_filter F (Poll_Process pid Exit_Op) (ev_key interest) Mode_Oneshot p)"

definition kqueue_delete :: "(raw_fd, 'p) poller_fd_ops \<Rightarrow> 'p poller_filter_ops \<Rightarrow>
    registration_kqueue \<Rightarrow> 'p \<Rightarrow> unit io_result \<times> 'p" where
  "kqueue_delete P F g p = (case g of
       Reg_Fd fd \<Rightarrow> po_delete P fd p
     | Reg_Signal sig \<Rightarrow> po_delete_filter F (Poll_Signal (signal_number sig)) p
     | Reg_Process pid \<Rightarrow> po_delete_filter F (Poll_Process pid Exit_Op) p)"

definition kqueue_registration :: "(raw_fd, 'p) poller_fd_ops \<Rightarrow> 'p poller_filter_ops \<Rightarrow>
    (registration_kqueue, 'p) registration_ops" where
  "kqueue_registration P F =
     \<lparr>reg_add = kqueue_add P F, reg_modify = kqueue_modify P F, reg_delete = kqueue_delete P F\<rparr>"

section \<open>The contract of the kernel queue\<close>

datatype kqueue_object = Obj_Fd raw_fd | Obj_Filter poll_filter

text \<open>A filter has a key and is always armed for readiness, which shows as readability.\<close>

definition filter_event :: "slab_key \<Rightarrow> event" where
  "filter_event k = \<lparr>ev_key = k, ev_readable = True, ev_writable = False\<rparr>"

definition kqueue_calls_ok :: "(raw_fd, 'p) poller_fd_ops \<Rightarrow> 'p poller_filter_ops \<Rightarrow>
    ('p \<Rightarrow> kqueue_object \<Rightarrow> event option) \<Rightarrow> bool" where
  "kqueue_calls_ok P F watched \<longleftrightarrow>
     (\<forall>fd e p. call_sets watched (Obj_Fd fd) (Some e) p (po_add P fd e p)) \<and>
     (\<forall>fd e p. call_sets watched (Obj_Fd fd) (Some e) p (po_modify P fd e p)) \<and>
     (\<forall>fd p. call_sets watched (Obj_Fd fd) None p (po_delete P fd p)) \<and>
     (\<forall>f k m p. call_sets watched (Obj_Filter f) (Some (filter_event k)) p
        (po_add_filter F f k m p)) \<and>
     (\<forall>f k m p. call_sets watched (Obj_Filter f) (Some (filter_event k)) p
        (po_modify_filter F f k m p)) \<and>
     (\<forall>f p. call_sets watched (Obj_Filter f) None p (po_delete_filter F f p))"

fun watched_object :: "registration_kqueue \<Rightarrow> kqueue_object" where
  "watched_object (Reg_Fd fd) = Obj_Fd fd"
| "watched_object (Reg_Signal sig) = Obj_Filter (Poll_Signal (signal_number sig))"
| "watched_object (Reg_Process pid) = Obj_Filter (Poll_Process pid Exit_Op)"

lemma watched_object_inj: "watched_object g = watched_object g' \<longleftrightarrow> g = g'"
proof -
  have "signal_number s = signal_number s' \<longleftrightarrow> s = s'" for s s'
    by (cases s; cases s') simp
  then show ?thesis by (cases g; cases g') auto
qed

definition kqueue_table :: "('p \<Rightarrow> kqueue_object \<Rightarrow> event option) \<Rightarrow>
    'p \<Rightarrow> registration_kqueue \<Rightarrow> event option" where
  "kqueue_table watched p g = watched p (watched_object g)"

lemma kqueue_table_upd:
  "watched p' = (watched p)(watched_object g := e) \<Longrightarrow>
     kqueue_table watched p' = (kqueue_table watched p)(g := e)"
  by (auto simp: kqueue_table_def fun_eq_iff watched_object_inj)

lemma kqueue_table_same:
  "watched p' = watched p \<Longrightarrow> kqueue_table watched p' = kqueue_table watched p"
  by (simp add: kqueue_table_def fun_eq_iff)

text \<open>The event a registration is armed with by \<open>add\<close> and \<open>modify\<close>.\<close>

definition kqueue_armed :: "registration_kqueue \<Rightarrow> event \<Rightarrow> event" where
  "kqueue_armed g e = (case g of Reg_Fd _ \<Rightarrow> e | _ \<Rightarrow> filter_event (ev_key e))"

lemma kqueue_calls:
  assumes "kqueue_calls_ok P F watched"
  shows "call_sets watched (watched_object g) (Some (kqueue_armed g (event_none k))) p
      (kqueue_add P F g k p)"
    and "call_sets watched (watched_object g) (Some (kqueue_armed g e)) p (kqueue_modify P F g e p)"
    and "call_sets watched (watched_object g) None p (kqueue_delete P F g p)"
  using assms unfolding kqueue_calls_ok_def
  by (cases g; simp add: kqueue_add_def kqueue_modify_def kqueue_delete_def kqueue_armed_def
      event_none_def)+

lemma kqueue_armed_simps:
  "ev_key (kqueue_armed g e) = ev_key e"
  "ev_readable e \<Longrightarrow> ev_readable (kqueue_armed g e)"
  "\<exists>fd. g = Reg_Fd fd \<Longrightarrow> ev_writable e \<Longrightarrow> ev_writable (kqueue_armed g e)"
  by (cases g; auto simp: kqueue_armed_def filter_event_def)+

fun is_fd :: "registration_kqueue \<Rightarrow> bool" where
  "is_fd (Reg_Fd _) = True"
| "is_fd _ = False"

lemma is_fd_iff: "is_fd g \<longleftrightarrow> (\<exists>fd. g = Reg_Fd fd)"
  by (cases g) auto

interpretation kqueue_backend: registration_backend "kqueue_registration P F"
    "kqueue_table watched" is_fd "\<lambda>_. kqueue_calls_ok P F watched" for P F watched
proof (unfold_locales, goal_cases)
  case (1 p g k p')
  with kqueue_calls(1) [of P F watched g k p] show ?case
    by (auto simp: kqueue_registration_def event_none_def kqueue_armed_simps
        dest!: kqueue_table_upd)
next
  case (2 p g k err p')
  with kqueue_calls(1) [of P F watched g k p] show ?case
    by (auto simp: kqueue_registration_def dest: kqueue_table_same)
next
  case (3 p g e p')
  with kqueue_calls(2) [of P F watched g e p]
  have "kqueue_table watched p' = (kqueue_table watched p)(g \<mapsto> kqueue_armed g e)"
    by (auto simp: kqueue_registration_def dest!: kqueue_table_upd)
  with 3 show ?case by (auto simp: is_fd_iff kqueue_armed_simps intro!: exI [of _ "kqueue_armed g e"])
next
  case (4 p g e err p')
  with kqueue_calls(2) [of P F watched g e p] show ?case
    by (auto simp: kqueue_registration_def dest: kqueue_table_same)
next
  case (5 p g p')
  with kqueue_calls(3) [of P F watched g p] show ?case
    by (auto simp: kqueue_registration_def dest!: kqueue_table_upd)
next
  case (6 p g err p')
  with kqueue_calls(3) [of P F watched g p] show ?case
    by (auto simp: kqueue_registration_def dest: kqueue_table_same)
qed

end
