(* ===== verification/Registration_Windows.thy ===== *)
theory Registration_Windows
  imports Registration_Kqueue
begin

text \<open>
  The registrations of \<open>src/src/reactor/windows.rs\<close>: sockets and waitable handles.
\<close>

type_synonym raw_socket = "64 word"
type_synonym raw_handle = "64 word"

datatype registration_windows =
    Reg_Socket raw_socket
  | Reg_Handle raw_handle

record 'p poller_waitable_ops =
  po_add_waitable :: "raw_handle \<Rightarrow> event \<Rightarrow> poll_mode \<Rightarrow> 'p \<Rightarrow> unit io_result \<times> 'p"
  po_modify_waitable :: "raw_handle \<Rightarrow> event \<Rightarrow> poll_mode \<Rightarrow> 'p \<Rightarrow> unit io_result \<times> 'p"
  po_remove_waitable :: "raw_handle \<Rightarrow> 'p \<Rightarrow> unit io_result \<times> 'p"

definition windows_new :: "raw_socket \<Rightarrow> registration_windows" where
  "windows_new f = Reg_Socket f"

definition windows_new_waitable :: "raw_handle \<Rightarrow> registration_windows" where
  "windows_new_waitable f = Reg_Handle f"

definition windows_add :: "(raw_socket, 'p) poller_fd_ops \<Rightarrow> 'p poller_waitable_ops \<Rightarrow>
    registration_windows \<Rightarrow> slab_key \<Rightarrow> 'p \<Rightarrow> unit io_result \<times> 'p" where
  "windows_add P W g token p = (case g of
       Reg_Socket sock \<Rightarrow> po_add P sock (event_none token) p
     | Reg_Handle handle \<Rightarrow> po_add_waitable W handle (event_none token) Mode_Oneshot p)"

definition windows_modify :: "(raw_socket, 'p) poller_fd_ops \<Rightarrow> 'p poller_waitable_ops \<Rightarrow>
    registration_windows \<Rightarrow> event \<Rightarrow> 'p \<Rightarrow> unit io_result \<times> 'p" where
  "windows_modify P W g interest p = (case g of
       Reg_Socket sock \<Rightarrow> po_modify P sock interest p
     | Reg_Handle handle \<Rightarrow> po_modify_waitable W handle interest Mode_Oneshot p)"

definition windows_delete :: "(raw_socket, 'p) poller_fd_ops \<Rightarrow> 'p poller_waitable_ops \<Rightarrow>
    registration_windows \<Rightarrow> 'p \<Rightarrow> unit io_result \<times> 'p" where
  "windows_delete P W g p = (case g of
       Reg_Socket sock \<Rightarrow> po_delete P sock p
     | Reg_Handle handle \<Rightarrow> po_remove_waitable W handle p)"

definition windows_registration :: "(raw_socket, 'p) poller_fd_ops \<Rightarrow> 'p poller_waitable_ops \<Rightarrow>
    (registration_windows, 'p) registration_ops" where
  "windows_registration P W =
     \<lparr>reg_add = windows_add P W, reg_modify = windows_modify P W, reg_delete = windows_delete P W\<rparr>"

section \<open>The contract of the completion port\<close>

definition windows_calls_ok :: "(raw_socket, 'p) poller_fd_ops \<Rightarrow> 'p poller_waitable_ops \<Rightarrow>
    ('p \<Rightarrow> registration_windows \<Rightarrow> event option) \<Rightarrow> bool" where
  "windows_calls_ok P W watched \<longleftrightarrow>
     (\<forall>s e p. call_sets watched (Reg_Socket s) (Some e) p (po_add P s e p)) \<and>
     (\<forall>s e p. call_sets watched (Reg_Socket s) (Some e) p (po_modify P s e p)) \<and>
     (\<forall>s p. call_sets watched (Reg_Socket s) None p (po_delete P s p)) \<and>
     (\<forall>h e m p. call_sets watched (Reg_Handle h) (Some e) p (po_add_waitable W h e m p)) \<and>
     (\<forall>h e m p. call_sets watched (Reg_Handle h) (Some e) p (po_modify_waitable W h e m p)) \<and>
     (\<forall>h p. call_sets watched (Reg_Handle h) None p (po_remove_waitable W h p))"

lemma windows_calls:
  assumes "windows_calls_ok P W watched"
  shows "call_sets watched g (Some (event_none k)) p (windows_add P W g k p)"
    and "call_sets watched g (Some e) p (windows_modify P W g e p)"
    and "call_sets watched g None p (windows_delete P W g p)"
  using assms unfolding windows_calls_ok_def
  by (cases g; simp add: windows_add_def windows_modify_def windows_delete_def)+

interpretation windows_backend: registration_backend "windows_registration P W" watched
    "\<lambda>_. True" "\<lambda>_. windows_calls_ok P W watched" for P W watched
proof (unfold_locales, goal_cases)
  case (1 p g k p')
  with windows_calls(1) [of P W watched g k p] show ?case
    by (auto simp: windows_registration_def event_none_def)
next
  case (2 p g k err p')
  with windows_calls(1) [of P W watched g k p] show ?case
    by (auto simp: windows_registration_def)
next
  case (3 p g e p')
  with windows_calls(2) [of P W watched g e p] show ?case
    by (auto simp: windows_registration_def)
next
  case (4 p g e err p')
  with windows_calls(2) [of P W watched g e p] show ?case
    by (auto simp: windows_registration_def)
next
  case (5 p g p')
  with windows_calls(3) [of P W watched g p] show ?case
    by (auto simp: windows_registration_def)
next
  case (6 p g err p')
  with windows_calls(3) [of P W watched g p] show ?case
    by (auto simp: windows_registration_def)
qed

end
