(* ===== verification/Reactor_State.thy ===== *)
theory Reactor_State
  imports Registration_Windows
begin

text \<open>
  The data of \<open>src/src/reactor.rs\<close>: directions, sources, timer operations and the reactor, and
  the record of the crates they are built on.

  The reactor holds its sources in a slab of \<open>Arc\<close> pointers that the \<open>Async\<close> handles share, so
  sources live in an explicit store (\<open>heap\<close>) and the slab holds addresses. \<open>woken\<close> is the
  history of the calls to \<open>Waker::wake\<close>, oldest first: it is what the rest of the program sees.
\<close>

section \<open>Directions and sources\<close>

text \<open>The constants \<open>READ = 0\<close> and \<open>WRITE = 1\<close> index a two-element array.\<close>

datatype dir = READ | WRITE

instantiation dir :: linorder
begin

definition less_eq_dir :: "dir \<Rightarrow> dir \<Rightarrow> bool" where
  "less_eq_dir d d' \<longleftrightarrow> d = READ \<or> d' = WRITE"

definition less_dir :: "dir \<Rightarrow> dir \<Rightarrow> bool" where
  "less_dir d d' \<longleftrightarrow> d = READ \<and> d' = WRITE"

instance
proof
  fix x y z :: dir
  show "(x < y) = (x \<le> y \<and> \<not> y \<le> x)"
    by (cases x; cases y) (auto simp: less_eq_dir_def less_dir_def)
  show "x \<le> x" by (cases x) (auto simp: less_eq_dir_def)
  show "x \<le> y \<Longrightarrow> y \<le> z \<Longrightarrow> x \<le> z"
    by (cases x; cases y; cases z) (auto simp: less_eq_dir_def)
  show "x \<le> y \<Longrightarrow> y \<le> x \<Longrightarrow> x = y"
    by (cases x; cases y) (auto simp: less_eq_dir_def)
  show "x \<le> y \<or> y \<le> x" by (cases x; cases y) (auto simp: less_eq_dir_def)
qed

end

instantiation dir :: enum
begin

definition enum_dir :: "dir list" where
  "enum_dir = [READ, WRITE]"

definition enum_all_dir :: "(dir \<Rightarrow> bool) \<Rightarrow> bool" where
  "enum_all_dir P \<longleftrightarrow> P READ \<and> P WRITE"

definition enum_ex_dir :: "(dir \<Rightarrow> bool) \<Rightarrow> bool" where
  "enum_ex_dir P \<longleftrightarrow> P READ \<or> P WRITE"

instance
proof
  have all: "P d" if "P READ" "P WRITE" for P and d :: dir
    using that by (cases d) simp_all
  show "(UNIV :: dir set) = set enum_class.enum"
    by (auto simp: enum_dir_def intro: dir.exhaust)
  show "distinct (enum_class.enum :: dir list)" by (simp add: enum_dir_def)
  show "enum_class.enum_all P \<longleftrightarrow> Ball UNIV P" for P :: "dir \<Rightarrow> bool"
    by (auto simp: enum_all_dir_def intro: all)
  show "enum_class.enum_ex P \<longleftrightarrow> Bex UNIV P" for P :: "dir \<Rightarrow> bool"
    by (auto simp: enum_ex_dir_def) (metis dir.exhaust)
qed

end

lemma all_dir: "(\<forall>d. P d) \<longleftrightarrow> P READ \<and> P WRITE"
  by (metis dir.exhaust)

fun other_dir :: "dir \<Rightarrow> dir" where
  "other_dir READ = WRITE"
| "other_dir WRITE = READ"

lemma other_dir_neq [simp]: "other_dir d \<noteq> d"
  by (cases d) simp_all

text \<open>A read or write direction of a source.\<close>

record 'sw direction =
  tick :: usize
  ticks :: "(usize \<times> usize) option"
  dwaker :: "waker option"
  wakers :: 'sw

record ('sw, 'reg) source =
  registration :: 'reg
  src_key :: slab_key
  src_state :: "dir \<Rightarrow> 'sw direction"

section \<open>The reactor\<close>

datatype timer_op =
    Timer_Insert instant usize waker
  | Timer_Remove instant usize

type_synonym timer_key = "instant \<times> usize"
type_synonym timer_map = "(timer_key, waker) btree_map"
type_synonym addr = nat

record ('p, 'sw, 'ss, 'q, 'reg) reactor =
  poller :: 'p
  ticker :: usize
  sources :: 'ss
  events :: "event list"
  timers :: timer_map
  timer_ops :: 'q
  id_generator :: usize
  heap :: "addr \<Rightarrow> ('sw, 'reg) source option"
  next_addr :: addr
  woken :: "waker list"

text \<open>The capacity of the timer queue, by whether the target is ESP-IDF.\<close>

definition timer_queue_size :: "bool \<Rightarrow> nat" where
  "timer_queue_size espidf = (if espidf then 100 else 1000)"

section \<open>The crates\<close>

record ('p, 'sw, 'ss, 'q, 'reg) crates =
  will_wake :: "waker \<Rightarrow> waker \<Rightarrow> bool"
  wslab :: "(waker option, 'sw) slab_ops"
  sslab :: "(addr, 'ss) slab_ops"
  queue :: "(timer_op, 'q) queue_ops"
  poll_calls :: "'p poller_ops"
  reg_calls :: "('reg, 'p) registration_ops"
  on_espidf :: bool    \<comment> \<open>the target the crate is compiled for, which is not one of the crates\<close>

text \<open>
  The contracts of all crates together. \<open>items\<close> reads the contents of the timer queue.
\<close>

definition crates_ok ::
    "('p, 'sw, 'ss, 'q, 'reg) crates \<Rightarrow> ('q \<Rightarrow> timer_op list) \<Rightarrow> bool" where
  "crates_ok E items \<longleftrightarrow>
     slab_ok (wslab E) \<and> slab_ok (sslab E) \<and>
     queue_ok (queue E) items (timer_queue_size (on_espidf E)) \<and> poller_ok (poll_calls E)"

lemma crates_okD [dest]:
  assumes "crates_ok E items"
  shows "slab_ok (wslab E)" "slab_ok (sslab E)"
    "queue_ok (queue E) items (timer_queue_size (on_espidf E))" "poller_ok (poll_calls E)"
  using assms by (simp_all add: crates_ok_def)

section \<open>Creation\<close>

text \<open>\<open>Direction::default()\<close>, and the state of a new source.\<close>

definition direction_default :: "('p, 'sw, 'ss, 'q, 'reg) crates \<Rightarrow> 'sw direction" where
  "direction_default E =
     \<lparr>tick = 0, ticks = None, dwaker = None, wakers = sl_new (wslab E)\<rparr>"

text \<open>
  The reactor built by \<open>Reactor::get\<close> around a new poller. The identifiers start at one.
\<close>

definition reactor_new ::
    "('p, 'sw, 'ss, 'q, 'reg) crates \<Rightarrow> 'p \<Rightarrow> ('p, 'sw, 'ss, 'q, 'reg) reactor" where
  "reactor_new E p =
     \<lparr>poller = p, ticker = 0, sources = sl_new (sslab E), events = [], timers = [],
      timer_ops = cq_bounded (queue E) (timer_queue_size (on_espidf E)), id_generator = 1,
      heap = Map.empty, next_addr = 0, woken = []\<rparr>"

text \<open>\<open>Reactor::ticker\<close> and \<open>Reactor::notify\<close>.\<close>

definition reactor_ticker :: "('p, 'sw, 'ss, 'q, 'reg) reactor \<Rightarrow> usize" where
  "reactor_ticker r = ticker r"

definition reactor_notify :: "('p, 'sw, 'ss, 'q, 'reg) crates \<Rightarrow>
    ('p, 'sw, 'ss, 'q, 'reg) reactor \<Rightarrow> panic + ('p, 'sw, 'ss, 'q, 'reg) reactor" where
  "reactor_notify E r = (case po_notify (poll_calls E) (poller r) of
       (Inl _, _) \<Rightarrow> Inl Notify_Failed
     | (Inr _, p) \<Rightarrow> Inr (r\<lparr>poller := p\<rparr>))"

lemma reactor_notify_ok:
  assumes "poller_ok (poll_calls E)"
  obtains p where "reactor_notify E r = Inr (r\<lparr>poller := p\<rparr>)"
proof -
  obtain res p where "po_notify (poll_calls E) (poller r) = (res, p)" by force
  with poller_notify [OF assms, of "poller r"] that show thesis
    by (auto simp: reactor_notify_def)
qed

end
