(* ===== verification/Reactor_Timers.thy ===== *)
theory Reactor_Timers
  imports Reactor_State
begin

text \<open>
  The timer half of \<open>src/src/reactor.rs\<close>: \<open>insert_timer\<close>, \<open>remove_timer\<close>,
  \<open>process_timer_ops\<close> and \<open>process_timers\<close>.

  Timer operations are queued and applied later. The abstraction \<open>timer_view\<close> is the map the
  timers would be in with every queued operation applied; the operations refine plain updates
  of that map, whatever the queue holds.
\<close>

section \<open>The operations\<close>

fun apply_timer_op :: "timer_op \<Rightarrow> timer_map \<Rightarrow> timer_map" where
  "apply_timer_op (Timer_Insert t i w) m = btree_insert (t, i) w m"
| "apply_timer_op (Timer_Remove t i) m = btree_remove (t, i) m"

text \<open>\<open>try_iter().take(n).for_each(..)\<close>: at most \<open>n\<close> pops, stopping at the first that fails.\<close>

fun drain_timer_ops ::
    "(timer_op, 'q) queue_ops \<Rightarrow> nat \<Rightarrow> 'q \<Rightarrow> timer_map \<Rightarrow> 'q \<times> timer_map" where
  "drain_timer_ops Q 0 q m = (q, m)"
| "drain_timer_ops Q (Suc n) q m = (case cq_pop Q q of
      (None, q') \<Rightarrow> (q', m)
    | (Some op, q') \<Rightarrow> drain_timer_ops Q n q' (apply_timer_op op m))"

definition process_timer_ops :: "('p, 'sw, 'ss, 'q, 'reg) crates \<Rightarrow>
    ('p, 'sw, 'ss, 'q, 'reg) reactor \<Rightarrow> panic + ('p, 'sw, 'ss, 'q, 'reg) reactor" where
  "process_timer_ops E r =
     rbind (or_panic Queue_Unbounded (cq_capacity (queue E) (timer_ops r)))
       (\<lambda>cap. let (q, m) = drain_timer_ops (queue E) cap (timer_ops r) (timers r)
              in Inr (r\<lparr>timer_ops := q, timers := m\<rparr>))"

text \<open>
  The loop that pushes an operation, draining the queue whenever it is full. \<open>None\<close> stands for
  a loop that does not return.
\<close>

partial_function (option) push_timer_op :: "('p, 'sw, 'ss, 'q, 'reg) crates \<Rightarrow> timer_op \<Rightarrow>
    ('p, 'sw, 'ss, 'q, 'reg) reactor \<Rightarrow> (panic + ('p, 'sw, 'ss, 'q, 'reg) reactor) option" where
  "push_timer_op E op r = (case cq_push (queue E) op (timer_ops r) of (pushed, q) \<Rightarrow>
     (if pushed then Some (Inr (r\<lparr>timer_ops := q\<rparr>))
      else case process_timer_ops E (r\<lparr>timer_ops := q\<rparr>) of
          Inl p \<Rightarrow> Some (Inl p)
        | Inr r' \<Rightarrow> push_timer_op E op r'))"

definition insert_timer :: "('p, 'sw, 'ss, 'q, 'reg) crates \<Rightarrow> instant \<Rightarrow> waker \<Rightarrow>
    ('p, 'sw, 'ss, 'q, 'reg) reactor \<Rightarrow>
    (panic + usize \<times> ('p, 'sw, 'ss, 'q, 'reg) reactor) option" where
  "insert_timer E t w r =
     (let i = id_generator r in
      case push_timer_op E (Timer_Insert t i w) (r\<lparr>id_generator := i + 1\<rparr>) of
        None \<Rightarrow> None
      | Some res \<Rightarrow> Some (rbind res (\<lambda>r'. rbind (reactor_notify E r') (\<lambda>r''. Inr (i, r'')))))"

definition remove_timer :: "('p, 'sw, 'ss, 'q, 'reg) crates \<Rightarrow> instant \<Rightarrow> usize \<Rightarrow>
    ('p, 'sw, 'ss, 'q, 'reg) reactor \<Rightarrow>
    (panic + ('p, 'sw, 'ss, 'q, 'reg) reactor) option" where
  "remove_timer E t i r = push_timer_op E (Timer_Remove t i) r"

text \<open>
  \<open>process_timers\<close>: apply the queued operations, split the timers just after \<open>now\<close>, and add
  the wakers of those that are due. \<open>now\<close> is the reading of the clock.
\<close>

definition process_timers :: "('p, 'sw, 'ss, 'q, 'reg) crates \<Rightarrow> instant \<Rightarrow> waker list \<Rightarrow>
    ('p, 'sw, 'ss, 'q, 'reg) reactor \<Rightarrow>
    panic + duration option \<times> waker list \<times> ('p, 'sw, 'ss, 'q, 'reg) reactor" where
  "process_timers E now ws r =
     rbind (process_timer_ops E r) (\<lambda>r.
     rbind (instant_add now 1) (\<lambda>limit.
     let (ready, pending) = btree_split_off (limit, 0) (timers r);
         dur = (if ready = []
                then map_option (\<lambda>(t, _). saturating_duration_since t now) (btree_first_key pending)
                else Some 0)
     in Inr (dur, ws @ map snd ready, r\<lparr>timers := pending\<rparr>)))"

section \<open>The ordered map interface\<close>

text \<open>
  What the timer operations need of the map they work on: lookups after an insertion and a
  removal, and an invariant that both keep.
\<close>

locale ordered_map =
  fixes ins :: "'k \<Rightarrow> 'v \<Rightarrow> 'm \<Rightarrow> 'm"
    and rem :: "'k \<Rightarrow> 'm \<Rightarrow> 'm"
    and lookup :: "'m \<Rightarrow> 'k \<Rightarrow> 'v option"
    and inv :: "'m \<Rightarrow> bool"
  assumes lookup_ins: "inv m \<Longrightarrow> lookup (ins k v m) = (lookup m)(k \<mapsto> v)"
    and lookup_rem: "inv m \<Longrightarrow> lookup (rem k m) = (lookup m)(k := None)"
    and inv_ins: "inv m \<Longrightarrow> inv (ins k v m)"
    and inv_rem: "inv m \<Longrightarrow> inv (rem k m)"
begin

text \<open>A batch of updates, \<open>None\<close> for a removal, acts on the map as on its lookups.\<close>

lemma lookup_batch:
  assumes "inv m"
  shows "lookup (fold (\<lambda>(k, v). case v of None \<Rightarrow> rem k | Some x \<Rightarrow> ins k x) us m) =
      fold (\<lambda>(k, v) f. f(k := v)) us (lookup m)
    \<and> inv (fold (\<lambda>(k, v). case v of None \<Rightarrow> rem k | Some x \<Rightarrow> ins k x) us m)"
  using assms
proof (induction us arbitrary: m)
  case Nil
  then show ?case by simp
next
  case (Cons u us)
  obtain k v where u: "u = (k, v)" by force
  show ?case
  proof (cases v)
    case None
    with u Cons.IH [OF inv_rem [OF Cons.prems], of k] Cons.prems
    show ?thesis by (simp add: lookup_rem)
  next
    case (Some x)
    with u Cons.IH [OF inv_ins [OF Cons.prems], of k x] Cons.prems
    show ?thesis by (simp add: lookup_ins)
  qed
qed

lemma rem_absent: "inv m \<Longrightarrow> lookup m k = None \<Longrightarrow> lookup (rem k m) = lookup m"
  by (auto simp: lookup_rem)

lemma ins_rem: "inv m \<Longrightarrow> lookup m k = None \<Longrightarrow> lookup (rem k (ins k v m)) = lookup m"
  by (auto simp: lookup_rem lookup_ins inv_ins)

end

interpretation bt: ordered_map btree_insert btree_remove map_of btree_ok
  by unfold_locales (auto simp: view_simps)

section \<open>The view of the timers\<close>

fun timer_update :: "timer_op \<Rightarrow> timer_key \<times> waker option" where
  "timer_update (Timer_Insert t i w) = ((t, i), Some w)"
| "timer_update (Timer_Remove t i) = ((t, i), None)"

definition updates :: "timer_op list \<Rightarrow> (timer_key \<Rightarrow> waker option) \<Rightarrow> timer_key \<Rightarrow> waker option" where
  "updates ops = fold (\<lambda>(k, v) f. f(k := v)) (map timer_update ops)"

definition timer_view :: "('q \<Rightarrow> timer_op list) \<Rightarrow> ('p, 'sw, 'ss, 'q, 'reg) reactor \<Rightarrow>
    timer_key \<Rightarrow> waker option" where
  "timer_view items r = updates (items (timer_ops r)) (map_of (timers r))"

definition timers_ok :: "('p, 'sw, 'ss, 'q, 'reg) crates \<Rightarrow> ('q \<Rightarrow> timer_op list) \<Rightarrow>
    ('p, 'sw, 'ss, 'q, 'reg) reactor \<Rightarrow> bool" where
  "timers_ok E items r \<longleftrightarrow>
     crates_ok E items \<and> btree_ok (timers r) \<and> length (items (timer_ops r)) \<le> (timer_queue_size (on_espidf E))"

lemma updates_simps [simp]:
  "updates [] f = f"
  "updates (op # ops) f = updates ops (f(fst (timer_update op) := snd (timer_update op)))"
  "updates (ops @ [op]) f = (updates ops f)(fst (timer_update op) := snd (timer_update op))"
  by (simp_all add: updates_def case_prod_beta)

lemma apply_timer_op_eq:
  "apply_timer_op = (\<lambda>op. case timer_update op of (k, v) \<Rightarrow>
     (case v of None \<Rightarrow> btree_remove k | Some x \<Rightarrow> btree_insert k x))"
proof
  show "apply_timer_op op = (case timer_update op of (k, v) \<Rightarrow>
     (case v of None \<Rightarrow> btree_remove k | Some x \<Rightarrow> btree_insert k x))" for op
    by (cases op) (auto simp: fun_eq_iff)
qed

lemma fold_apply_timer_op:
  assumes "btree_ok m"
  shows "map_of (fold apply_timer_op ops m) = updates ops (map_of m)"
    and "btree_ok (fold apply_timer_op ops m)"
  using bt.lookup_batch [OF assms, of "map timer_update ops"]
  by (simp_all add: updates_def fold_map comp_def apply_timer_op_eq)

lemma drain_timer_ops_eq:
  assumes "queue_ok Q items cap" "drain_timer_ops Q n q m = (q', m')"
  shows "items q' = drop n (items q)" "m' = fold apply_timer_op (take n (items q)) m"
proof -
  have "items q' = drop n (items q) \<and> m' = fold apply_timer_op (take n (items q)) m"
    using assms(2)
  proof (induction n arbitrary: q m)
    case 0
    then show ?case by simp
  next
    case (Suc n)
    obtain x q1 where pop: "cq_pop Q q = (x, q1)" by force
    note popped = queue_popD [OF assms(1) pop]
    show ?case
    proof (cases "items q")
      case Nil
      with popped pop Suc.prems show ?thesis by simp
    next
      case (Cons op ops)
      with popped pop Suc.prems Suc.IH [of q1 "apply_timer_op op m"] show ?thesis by simp
    qed
  qed
  then show "items q' = drop n (items q)" "m' = fold apply_timer_op (take n (items q)) m"
    by simp_all
qed

text \<open>\<open>process_timer_ops\<close> empties the queue into the map and changes nothing in the view.\<close>

lemma process_timer_ops_ok:
  assumes "timers_ok E items r"
  obtains q m where "process_timer_ops E r = Inr (r\<lparr>timer_ops := q, timers := m\<rparr>)"
    "items q = []" "btree_ok m" "map_of m = timer_view items r"
proof -
  from assms have Q: "queue_ok (queue E) items (timer_queue_size (on_espidf E))" and m: "btree_ok (timers r)"
    and len: "length (items (timer_ops r)) \<le> (timer_queue_size (on_espidf E))"
    by (auto simp: timers_ok_def)
  obtain q' m' where
    drain: "drain_timer_ops (queue E) (timer_queue_size (on_espidf E)) (timer_ops r) (timers r) = (q', m')"
    by force
  note D = drain_timer_ops_eq [OF Q drain]
  show thesis
  proof (rule that)
    show "process_timer_ops E r = Inr (r\<lparr>timer_ops := q', timers := m'\<rparr>)"
      using Q drain by (simp add: process_timer_ops_def)
    show "items q' = []" using D(1) len by simp
    have "m' = fold apply_timer_op (items (timer_ops r)) (timers r)"
      using D(2) len by simp
    then show "btree_ok m'" "map_of m' = timer_view items r"
      using fold_apply_timer_op [OF m] by (simp_all add: timer_view_def)
  qed
qed

text \<open>
  The push loop returns, after draining the queue at most once, and appends the operation.
\<close>

lemma push_timer_op_ok:
  assumes "timers_ok E items r"
  obtains q m where "push_timer_op E op r = Some (Inr (r\<lparr>timer_ops := q, timers := m\<rparr>))"
    "timers_ok E items (r\<lparr>timer_ops := q, timers := m\<rparr>)"
    "updates (items q) (map_of m) =
       (timer_view items r)(fst (timer_update op) := snd (timer_update op))"
proof -
  from assms have Q: "queue_ok (queue E) items (timer_queue_size (on_espidf E))"
    and m: "btree_ok (timers r)" and E: "crates_ok E items"
    by (auto simp: timers_ok_def)
  obtain b q where push: "cq_push (queue E) op (timer_ops r) = (b, q)" by force
  note P = queue_pushD [OF Q push]
  show thesis
  proof (cases b)
    case True
    show thesis
    proof (rule that)
      show "push_timer_op E op r = Some (Inr (r\<lparr>timer_ops := q, timers := timers r\<rparr>))"
        using True push by (simp add: push_timer_op.simps)
      show "timers_ok E items (r\<lparr>timer_ops := q, timers := timers r\<rparr>)"
        using assms P True by (simp add: timers_ok_def)
      show "updates (items q) (map_of (timers r)) =
          (timer_view items r)(fst (timer_update op) := snd (timer_update op))"
        using P True by (simp add: timer_view_def)
    qed
  next
    case False
    let ?r = "r\<lparr>timer_ops := q\<rparr>"
    from False P have same: "items q = items (timer_ops r)" by auto
    with assms have "timers_ok E items ?r" by (simp add: timers_ok_def)
    then obtain q1 m1 where proc: "process_timer_ops E ?r = Inr (?r\<lparr>timer_ops := q1, timers := m1\<rparr>)"
      and drained: "items q1 = []" "btree_ok m1" "map_of m1 = timer_view items ?r"
      by (rule process_timer_ops_ok)
    obtain b2 q2 where push2: "cq_push (queue E) op q1 = (b2, q2)" by force
    note P2 = queue_pushD [OF Q push2]
    have cap: "0 < (timer_queue_size (on_espidf E))" by (simp add: timer_queue_size_def)
    with P2 drained have b2: "b2" and q2: "items q2 = [op]" by simp_all
    have view: "map_of m1 = timer_view items r"
      using drained(3) same by (simp add: timer_view_def)
    show thesis
    proof (rule that)
      show "push_timer_op E op r = Some (Inr (r\<lparr>timer_ops := q2, timers := m1\<rparr>))"
        using False push proc push2 b2
        by (subst push_timer_op.simps) (simp add: push_timer_op.simps)
      show "timers_ok E items (r\<lparr>timer_ops := q2, timers := m1\<rparr>)"
        using E drained(2) q2 cap by (simp add: timers_ok_def)
      show "updates (items q2) (map_of m1) =
          (timer_view items r)(fst (timer_update op) := snd (timer_update op))"
        using q2 view by (cases op) simp_all
    qed
  qed
qed


section \<open>Inserting and removing timers\<close>

text \<open>Timer operations leave the I/O half of the reactor and the history of wakes alone.\<close>

definition same_io :: "('p, 'sw, 'ss, 'q, 'reg) reactor \<Rightarrow>
    ('p, 'sw, 'ss, 'q, 'reg) reactor \<Rightarrow> bool" where
  "same_io r r' \<longleftrightarrow> ticker r' = ticker r \<and> sources r' = sources r \<and> events r' = events r \<and>
     heap r' = heap r \<and> next_addr r' = next_addr r \<and> woken r' = woken r"

lemma same_io_refl [simp, intro]: "same_io r r"
  by (simp add: same_io_def)

lemma same_io_trans [trans]: "same_io r r' \<Longrightarrow> same_io r' r'' \<Longrightarrow> same_io r r''"
  by (simp add: same_io_def)

lemma insert_timer_ok:
  assumes "timers_ok E items r"
  obtains r' where "insert_timer E t w r = Some (Inr (id_generator r, r'))"
    "timers_ok E items r'" "timer_view items r' = (timer_view items r)((t, id_generator r) \<mapsto> w)"
    "id_generator r' = id_generator r + 1" "same_io r r'"
proof -
  let ?r = "r\<lparr>id_generator := id_generator r + 1\<rparr>"
  from assms have ok: "timers_ok E items ?r" and P: "poller_ok (poll_calls E)"
    by (auto simp: timers_ok_def)
  obtain q m where push: "push_timer_op E (Timer_Insert t (id_generator r) w) ?r =
        Some (Inr (?r\<lparr>timer_ops := q, timers := m\<rparr>))"
    and pushed: "timers_ok E items (?r\<lparr>timer_ops := q, timers := m\<rparr>)"
      "updates (items q) (map_of m) =
        (timer_view items ?r)((t, id_generator r) := Some w)"
    by (rule push_timer_op_ok [OF ok, where op = "Timer_Insert t (id_generator r) w",
          unfolded timer_update.simps fst_conv snd_conv])
  obtain p where notified: "reactor_notify E (?r\<lparr>timer_ops := q, timers := m\<rparr>) =
      Inr (?r\<lparr>timer_ops := q, timers := m, poller := p\<rparr>)"
    using reactor_notify_ok [OF P, of "?r\<lparr>timer_ops := q, timers := m\<rparr>"] by auto
  show thesis
  proof (rule that)
    show "insert_timer E t w r =
        Some (Inr (id_generator r, ?r\<lparr>timer_ops := q, timers := m, poller := p\<rparr>))"
      using push notified by (simp add: insert_timer_def Let_def)
    show "timers_ok E items (?r\<lparr>timer_ops := q, timers := m, poller := p\<rparr>)"
      using pushed(1) by (simp add: timers_ok_def)
    show "timer_view items (?r\<lparr>timer_ops := q, timers := m, poller := p\<rparr>) =
        (timer_view items r)((t, id_generator r) \<mapsto> w)"
      using pushed(2) by (simp add: timer_view_def)
  qed (simp_all add: same_io_def)
qed

lemma remove_timer_ok:
  assumes "timers_ok E items r"
  obtains r' where "remove_timer E t i r = Some (Inr r')"
    "timers_ok E items r'" "timer_view items r' = (timer_view items r)((t, i) := None)"
    "id_generator r' = id_generator r" "same_io r r'"
proof -
  obtain q m where "push_timer_op E (Timer_Remove t i) r =
        Some (Inr (r\<lparr>timer_ops := q, timers := m\<rparr>))"
    and "timers_ok E items (r\<lparr>timer_ops := q, timers := m\<rparr>)"
      "updates (items q) (map_of m) = (timer_view items r)((t, i) := None)"
    by (rule push_timer_op_ok [OF assms, where op = "Timer_Remove t i",
          unfolded timer_update.simps fst_conv snd_conv])
  then show thesis
    by (intro that [of "r\<lparr>timer_ops := q, timers := m\<rparr>"])
      (simp_all add: remove_timer_def timer_view_def same_io_def)
qed

text \<open>An insertion notifies the poller once, a removal does not touch it.\<close>

lemma insert_timer_poller:
  assumes "timers_ok E items r" "insert_timer E t w r = Some (Inr (i, r'))"
  shows "poller r' = snd (po_notify (poll_calls E) (poller r))"
proof -
  let ?r = "r\<lparr>id_generator := id_generator r + 1\<rparr>"
  from assms(1) have ok: "timers_ok E items ?r" by (simp add: timers_ok_def)
  obtain q m where "push_timer_op E (Timer_Insert t (id_generator r) w) ?r =
      Some (Inr (?r\<lparr>timer_ops := q, timers := m\<rparr>))"
    by (rule push_timer_op_ok [OF ok])
  with assms(2) show ?thesis
    by (auto simp: insert_timer_def Let_def reactor_notify_def rbind_eq_Inr_iff
        split: prod.splits sum.splits)
qed

lemma remove_timer_poller:
  assumes "timers_ok E items r" "remove_timer E t i r = Some (Inr r')"
  shows "poller r' = poller r"
proof -
  obtain q m where "push_timer_op E (Timer_Remove t i) r =
      Some (Inr (r\<lparr>timer_ops := q, timers := m\<rparr>))"
    by (rule push_timer_op_ok [OF assms(1)])
  with assms(2) show ?thesis by (auto simp: remove_timer_def)
qed

section \<open>Firing timers\<close>

text \<open>The timers that are due at an instant, and those that are not.\<close>

definition due :: "instant \<Rightarrow> (timer_key \<Rightarrow> waker option) \<Rightarrow> timer_key \<Rightarrow> waker option" where
  "due now f = (\<lambda>(t, i). if t \<le> now then f (t, i) else None)"

definition not_due :: "instant \<Rightarrow> (timer_key \<Rightarrow> waker option) \<Rightarrow> timer_key \<Rightarrow> waker option" where
  "not_due now f = (\<lambda>(t, i). if t \<le> now then None else f (t, i))"

text \<open>
  \<open>shortest_wait now f d\<close>: \<open>d\<close> is the time left until the earliest of the timers, \<open>None\<close>
  without a timer and zero when one is already due.
\<close>

definition shortest_wait ::
    "instant \<Rightarrow> (timer_key \<Rightarrow> waker option) \<Rightarrow> duration option \<Rightarrow> bool" where
  "shortest_wait now f d \<longleftrightarrow> (case d of
       None \<Rightarrow> f = Map.empty
     | Some n \<Rightarrow> (\<exists>t i. f (t, i) \<noteq> None \<and> n = nat (t - now)) \<and>
         (\<forall>t i. f (t, i) \<noteq> None \<longrightarrow> n \<le> nat (t - now)))"

lemma key_before_limit: "(t, i) < (now + 1, 0 :: usize) \<longleftrightarrow> t \<le> (now :: instant)"
  by (auto simp: less_prod_def)

lemma split_at_limit:
  assumes "btree_split_off (now + 1, 0 :: usize) m = (ready, pending)"
  shows "map_of ready = due now (map_of m)" "map_of pending = not_due now (map_of m)"
    and "btree_ok m \<Longrightarrow> btree_ok ready" "btree_ok m \<Longrightarrow> btree_ok pending"
proof -
  from assms have R: "ready = filter (\<lambda>(k, _). k < (now + 1, 0)) m"
    and P: "pending = filter (\<lambda>(k, _). \<not> k < (now + 1, 0)) m"
    by (auto simp: btree_split_off_def)
  show "map_of ready = due now (map_of m)" "map_of pending = not_due now (map_of m)"
    unfolding R P by (auto simp: map_of_filter_key due_def not_due_def key_before_limit fun_eq_iff)
  show "btree_ok m \<Longrightarrow> btree_ok ready" "btree_ok m \<Longrightarrow> btree_ok pending"
    unfolding R P by auto
qed

lemma not_due_all:
  assumes "\<And>t i. f (t, i) \<noteq> None \<Longrightarrow> now < t"
  shows "not_due now f = f"
proof
  fix k :: timer_key
  obtain t i where "k = (t, i)" by force
  then show "not_due now f k = f k"
    using assms [of t i] by (cases "f (t, i)") (auto simp: not_due_def)
qed

lemma shortest_wait_ready:
  assumes "due now f k \<noteq> None"
  shows "shortest_wait now f (Some 0)"
  using assms by (cases k) (force simp: shortest_wait_def due_def split: if_splits)

lemma shortest_wait_pending:
  assumes ok: "btree_ok m" and m: "map_of m = f" and none: "\<And>t i. f (t, i) \<noteq> None \<Longrightarrow> now < t"
  shows "shortest_wait now f
    (map_option (\<lambda>(t, _). saturating_duration_since t now) (btree_first_key m))"
proof (cases "btree_first_key m")
  case None
  then have "m = []" by (simp add: btree_first_key_None)
  with m None show ?thesis by (auto simp: shortest_wait_def)
next
  case (Some k)
  obtain t i where k: "k = (t, i)" by force
  note least = btree_first_key_least [OF ok Some, unfolded m]
  have "nat (t - now) \<le> nat (u - now)" if "f (u, j) \<noteq> None" for u j
    using least(2) [of "(u, j)"] that k by (auto simp: less_eq_prod_def)
  with least(1) k Some show ?thesis
    by (auto simp: shortest_wait_def saturating_duration_since_def)
qed

text \<open>
  One round of \<open>process_timers\<close>: the due timers leave the map, their wakers are appended in the
  order they fire, and the result is the time left until the earliest timer.
\<close>

lemma process_timers_ok:
  assumes "timers_ok E items r" "now < instant_max"
  obtains dur ready r' where
    "process_timers E now ws r = Inr (dur, ws @ map snd ready, r')"
    "btree_ok ready" "map_of ready = due now (timer_view items r)"
    "timer_view items r' = not_due now (timer_view items r)"
    "shortest_wait now (timer_view items r) dur"
    "timers_ok E items r'" "same_io r r'" "id_generator r' = id_generator r"
    "poller r' = poller r"
proof -
  obtain q m where proc: "process_timer_ops E r = Inr (r\<lparr>timer_ops := q, timers := m\<rparr>)"
    and q: "items q = []" and m: "btree_ok m" "map_of m = timer_view items r"
    using assms(1) by (rule process_timer_ops_ok)
  obtain ready pending where
    split: "btree_split_off (now + 1, 0 :: usize) m = (ready, pending)" by force
  note S = split_at_limit [OF split]
  let ?r = "r\<lparr>timer_ops := q, timers := pending\<rparr>"
  let ?dur = "if ready = []
      then map_option (\<lambda>(t, _). saturating_duration_since t now) (btree_first_key pending)
      else Some 0"
  have wait: "shortest_wait now (timer_view items r) ?dur"
  proof (cases ready)
    case Nil
    with S(1) m(2) have none: "due now (timer_view items r) = Map.empty" by simp
    have late: "now < t" if "timer_view items r (t, i) \<noteq> None" for t i
    proof (rule ccontr)
      assume "\<not> now < t"
      then have "due now (timer_view items r) (t, i) = timer_view items r (t, i)"
        by (simp add: due_def)
      with none that show False by simp
    qed
    have "map_of pending = timer_view items r"
      unfolding S(2) m(2) using late by (rule not_due_all)
    with Nil shortest_wait_pending [OF S(4) [OF m(1)]] late show ?thesis by auto
  next
    case (Cons kv kvs)
    then have "map_of ready (fst kv) \<noteq> None" by (cases kv) simp
    with Cons show ?thesis unfolding S(1) m(2) by (auto intro: shortest_wait_ready)
  qed
  show thesis
  proof (rule that)
    show "process_timers E now ws r = Inr (?dur, ws @ map snd ready, ?r)"
      using proc split assms(2)
      by (simp add: process_timers_def instant_add_nanosecond)
    show "btree_ok ready" "map_of ready = due now (timer_view items r)"
      using S m by simp_all
    show "timer_view items ?r = not_due now (timer_view items r)"
      using S m q by (simp add: timer_view_def)
    show "timers_ok E items ?r"
      using assms(1) S m q by (simp add: timers_ok_def)
  qed (use wait in \<open>simp_all add: same_io_def\<close>)
qed

text \<open>The one panic: the clock at the largest instant.\<close>

lemma process_timers_overflow:
  assumes "timers_ok E items r" "instant_max \<le> now"
  shows "process_timers E now ws r = Inl Instant_Overflow"
proof -
  obtain q m where "process_timer_ops E r = Inr (r\<lparr>timer_ops := q, timers := m\<rparr>)"
    using assms(1) by (rule process_timer_ops_ok)
  then show ?thesis using assms(2) by (simp add: process_timers_def instant_add_nanosecond)
qed


section \<open>The service the timers use\<close>

text \<open>
  What a \<open>Timer\<close> relies on: inserting under a fresh identifier, removing, and the clock's round
  that fires what is due. The laws speak of the view, so a client never sees the queue.
\<close>

locale timer_service =
  fixes insert_op :: "instant \<Rightarrow> waker \<Rightarrow> 'r \<Rightarrow> (panic + usize \<times> 'r) option"
    and remove_op :: "instant \<Rightarrow> usize \<Rightarrow> 'r \<Rightarrow> (panic + 'r) option"
    and view :: "'r \<Rightarrow> timer_key \<Rightarrow> waker option"
    and next_id :: "'r \<Rightarrow> usize"
    and frame :: "'r \<Rightarrow> 'r \<Rightarrow> bool"
    and inv :: "'r \<Rightarrow> bool"
  assumes insert_law: "inv r \<Longrightarrow> \<exists>r'. insert_op t w r = Some (Inr (next_id r, r')) \<and> inv r' \<and>
      view r' = (view r)((t, next_id r) \<mapsto> w) \<and> next_id r' = next_id r + 1 \<and> frame r r'"
    and remove_law: "inv r \<Longrightarrow> \<exists>r'. remove_op t i r = Some (Inr r') \<and> inv r' \<and>
      view r' = (view r)((t, i) := None) \<and> next_id r' = next_id r \<and> frame r r'"
    and frame_refl: "frame r r"
    and frame_trans: "frame r r' \<Longrightarrow> frame r' r'' \<Longrightarrow> frame r r''"
begin

text \<open>Neither call panics or fails to return.\<close>

lemma insert_cases:
  assumes "inv r"
  obtains r' where "insert_op t w r = Some (Inr (next_id r, r'))" "inv r'"
    "view r' = (view r)((t, next_id r) \<mapsto> w)" "next_id r' = next_id r + 1" "frame r r'"
  using insert_law [OF assms, of t w] by blast

lemma remove_cases:
  assumes "inv r"
  obtains r' where "remove_op t i r = Some (Inr r')" "inv r'"
    "view r' = (view r)((t, i) := None)" "next_id r' = next_id r" "frame r r'"
  using remove_law [OF assms, of t i] by blast

text \<open>Removing what was inserted restores the view.\<close>

lemma insert_remove:
  assumes "inv r" "view r (t, next_id r) = None"
    and "insert_op t w r = Some (Inr (i, r'))" "remove_op t i r' = Some (Inr r'')"
  shows "view r'' = view r"
proof -
  obtain r1 where r1: "insert_op t w r = Some (Inr (next_id r, r1))" "inv r1"
    "view r1 = (view r)((t, next_id r) \<mapsto> w)"
    using assms(1) by (rule insert_cases)
  then obtain r2 where "remove_op t (next_id r) r1 = Some (Inr r2)"
    "view r2 = (view r1)((t, next_id r) := None)"
    by (blast elim: remove_cases)
  with r1 assms show ?thesis by auto
qed

text \<open>Replacing a registration by a new one, as a timer does when its waker changes.\<close>

lemma replace:
  assumes "inv r"
  obtains r1 r2 where "remove_op t i r = Some (Inr r1)"
    "insert_op u w r1 = Some (Inr (next_id r, r2))" "inv r2" "frame r r2"
    "view r2 = (view r)((t, i) := None, (u, next_id r) \<mapsto> w)" "next_id r2 = next_id r + 1"
proof -
  obtain r1 where r1: "remove_op t i r = Some (Inr r1)" "inv r1"
    "view r1 = (view r)((t, i) := None)" "next_id r1 = next_id r" "frame r r1"
    using assms by (rule remove_cases)
  obtain r2 where r2: "insert_op u w r1 = Some (Inr (next_id r1, r2))" "inv r2"
    "view r2 = (view r1)((u, next_id r1) \<mapsto> w)" "next_id r2 = next_id r1 + 1" "frame r1 r2"
    using r1(2) by (rule insert_cases)
  show thesis
    using r1 r2 frame_trans [of r r1 r2] by (intro that [of r1 r2]) simp_all
qed

end

interpretation ts: timer_service "insert_timer E" "remove_timer E" "timer_view items"
    id_generator same_io "timers_ok E items" for E items
proof (unfold_locales, goal_cases)
  case (1 r t w)
  then show ?case using insert_timer_ok [of E items r t w] by metis
next
  case (2 r t i)
  then show ?case using remove_timer_ok [of E items r t i] by metis
next
  case (3 r)
  show ?case by simp
next
  case (4 r r' r'')
  then show ?case by (rule same_io_trans)
qed

end
