(* ===== verification/Source.thy ===== *)
theory Source
  imports Reactor_Timers
begin

text \<open>
  The I/O sources of \<open>src/src/reactor.rs\<close>: \<open>Direction\<close>, \<open>Source::poll_ready\<close> and the
  \<open>Ready\<close> future with the four futures built on it.

  A task waits on a direction by leaving a waker there, together with the pair of ticks it has
  seen: the reactor's and the direction's. An event counts for it only when it carries a third
  tick. Both ways of waiting obey one contract, the locale \<open>readiness_poll\<close>, from which the
  wake-up and completion facts follow once.
\<close>

section \<open>Directions\<close>

definition dir_is_empty ::
    "('p, 'sw, 'ss, 'q, 'reg) crates \<Rightarrow> 'sw direction \<Rightarrow> bool" where
  "dir_is_empty E d \<longleftrightarrow>
     dwaker d = None \<and> list_all (\<lambda>(_, opt). opt = None) (sl_iter (wslab E) (wakers d))"

definition drain_into :: "('p, 'sw, 'ss, 'q, 'reg) crates \<Rightarrow> 'sw direction \<Rightarrow> waker list \<Rightarrow>
    'sw direction \<times> waker list" where
  "drain_into E d dst =
     (d\<lparr>dwaker := None, wakers := sl_update_all (wslab E) (\<lambda>_. None) (wakers d)\<rparr>,
      dst @ option_list (dwaker d) @ somes (map snd (sl_iter (wslab E) (wakers d))))"

text \<open>The wakers a direction holds.\<close>

definition waiting :: "('p, 'sw, 'ss, 'q, 'reg) crates \<Rightarrow> 'sw direction \<Rightarrow> waker set" where
  "waiting E d = {w. dwaker d = Some w \<or> (\<exists>k. sl_get (wslab E) k (wakers d) = Some (Some w))}"

lemma dir_is_empty_iff [simp]:
  assumes "slab_ok (wslab E)"
  shows "dir_is_empty E d \<longleftrightarrow> waiting E d = {}"
proof -
  have "list_all (\<lambda>(_, opt). opt = None) (sl_iter (wslab E) (wakers d)) \<longleftrightarrow>
      (\<forall>k opt. (k, opt) \<in> set (sl_iter (wslab E) (wakers d)) \<longrightarrow> opt = None)"
    unfolding list_all_iff by fast
  also have "\<dots> \<longleftrightarrow> (\<forall>k w. sl_get (wslab E) k (wakers d) \<noteq> Some (Some w))"
    unfolding slab_iter_iff [OF assms] by (simp add: split_option_all)
  finally show ?thesis
    by (cases "dwaker d") (auto simp: dir_is_empty_def waiting_def)
qed

lemma drain_into_spec:
  assumes "slab_ok (wslab E)" "drain_into E d dst = (d', dst')"
  shows "waiting E d' = {}" "set dst' = set dst \<union> waiting E d"
    and "tick d' = tick d" "ticks d' = ticks d" "dwaker d' = None"
    and "sl_get (wslab E) k (wakers d') = map_option (\<lambda>_. None) (sl_get (wslab E) k (wakers d))"
proof -
  have d': "d' = d\<lparr>dwaker := None, wakers := sl_update_all (wslab E) (\<lambda>_. None) (wakers d)\<rparr>"
    and dst': "dst' = dst @ option_list (dwaker d) @ somes (map snd (sl_iter (wslab E) (wakers d)))"
    using assms(2) by (auto simp: drain_into_def)
  show "tick d' = tick d" "ticks d' = ticks d" "dwaker d' = None" by (simp_all add: d')
  show get: "sl_get (wslab E) k (wakers d') =
      map_option (\<lambda>_. None) (sl_get (wslab E) k (wakers d))" for k
    using assms(1) by (simp add: d')
  then show "waiting E d' = {}" by (auto simp: waiting_def d')
  have "Some w \<in> snd ` set (sl_iter (wslab E) (wakers d)) \<longleftrightarrow>
      (\<exists>k. sl_get (wslab E) k (wakers d) = Some (Some w))" for w
    using assms(1) by (rule slab_iter_values)
  then show "set dst' = set dst \<union> waiting E d"
    by (auto simp: dst' waiting_def)
qed

section \<open>Sources\<close>

definition set_dir :: "dir \<Rightarrow> 'sw direction \<Rightarrow> ('sw, 'reg) source \<Rightarrow> ('sw, 'reg) source" where
  "set_dir d st s = s\<lparr>src_state := (src_state s)(d := st)\<rparr>"

lemma set_dir_simps [simp]:
  "src_state (set_dir d st s) d' = (if d' = d then st else src_state s d')"
  "registration (set_dir d st s) = registration s"
  "src_key (set_dir d st s) = src_key s"
  by (simp_all add: set_dir_def)

text \<open>The event a source is interested in, built wherever interest is registered.\<close>

definition interest_event ::
    "('p, 'sw, 'ss, 'q, 'reg) crates \<Rightarrow> ('sw, 'reg) source \<Rightarrow> event" where
  "interest_event E s = (event_none (src_key s))
     \<lparr>ev_readable := \<not> dir_is_empty E (src_state s READ),
      ev_writable := \<not> dir_is_empty E (src_state s WRITE)\<rparr>"

lemma interest_event_simps [simp]:
  "ev_key (interest_event E s) = src_key s"
  "ev_readable (interest_event E s) \<longleftrightarrow> \<not> dir_is_empty E (src_state s READ)"
  "ev_writable (interest_event E s) \<longleftrightarrow> \<not> dir_is_empty E (src_state s WRITE)"
  by (simp_all add: interest_event_def event_none_def)

text \<open>
  The reactor has delivered an event that is newer than both remembered ticks.
\<close>

fun fresh_event :: "(usize \<times> usize) option \<Rightarrow> usize \<Rightarrow> bool" where
  "fresh_event None _ = False"
| "fresh_event (Some (a, b)) t = (t \<noteq> a \<and> t \<noteq> b)"

text \<open>The last step of both ways of waiting: register interest if there was none.\<close>

definition update_interest :: "('p, 'sw, 'ss, 'q, 'reg) crates \<Rightarrow> bool \<Rightarrow> ('sw, 'reg) source \<Rightarrow>
    ('p, 'sw, 'ss, 'q, 'reg) reactor \<Rightarrow>
    unit io_result poll \<times> ('p, 'sw, 'ss, 'q, 'reg) reactor" where
  "update_interest E was_empty s r =
     (if was_empty
      then case reg_modify (reg_calls E) (registration s) (interest_event E s) (poller r) of
          (Inl e, p) \<Rightarrow> (Poll_Ready (Inl e), r\<lparr>poller := p\<rparr>)
        | (Inr _, p) \<Rightarrow> (Poll_Pending, r\<lparr>poller := p\<rparr>)
      else (Poll_Pending, r))"

definition poll_ready :: "('p, 'sw, 'ss, 'q, 'reg) crates \<Rightarrow> dir \<Rightarrow> waker \<Rightarrow>
    ('sw, 'reg) source \<Rightarrow> ('p, 'sw, 'ss, 'q, 'reg) reactor \<Rightarrow>
    unit io_result poll \<times> ('sw, 'reg) source \<times> ('p, 'sw, 'ss, 'q, 'reg) reactor" where
  "poll_ready E d cx s r =
     (let st = src_state s d in
      if fresh_event (ticks st) (tick st)
      then (Poll_Ready (Inr ()), set_dir d (st\<lparr>ticks := None\<rparr>) s, r)
      else
        let was_empty = dir_is_empty E st;
            s' = set_dir d (st\<lparr>dwaker := Some cx,
                   ticks := Some (reactor_ticker r, tick st)\<rparr>) s
        in case dwaker st of
            Some w \<Rightarrow>
              if will_wake E w cx then (Poll_Pending, s, r)
              else (case update_interest E was_empty s' (r\<lparr>woken := woken r @ [w]\<rparr>) of
                  (res, r') \<Rightarrow> (res, s', r'))
          | None \<Rightarrow> (case update_interest E was_empty s' r of (res, r') \<Rightarrow> (res, s', r')))"

definition poll_readable :: "('p, 'sw, 'ss, 'q, 'reg) crates \<Rightarrow> waker \<Rightarrow>
    ('sw, 'reg) source \<Rightarrow> ('p, 'sw, 'ss, 'q, 'reg) reactor \<Rightarrow>
    unit io_result poll \<times> ('sw, 'reg) source \<times> ('p, 'sw, 'ss, 'q, 'reg) reactor" where
  "poll_readable E cx s r = poll_ready E READ cx s r"

definition poll_writable :: "('p, 'sw, 'ss, 'q, 'reg) crates \<Rightarrow> waker \<Rightarrow>
    ('sw, 'reg) source \<Rightarrow> ('p, 'sw, 'ss, 'q, 'reg) reactor \<Rightarrow>
    unit io_result poll \<times> ('sw, 'reg) source \<times> ('p, 'sw, 'ss, 'q, 'reg) reactor" where
  "poll_writable E cx s r = poll_ready E WRITE cx s r"

section \<open>The \<open>Ready\<close> future\<close>

text \<open>The handle of the future is the source it is polled with.\<close>

record ready_future =
  rf_dir :: dir
  rf_ticks :: "(usize \<times> usize) option"
  rf_index :: "slab_key option"

definition source_ready :: "dir \<Rightarrow> ready_future" where
  "source_ready d = \<lparr>rf_dir = d, rf_ticks = None, rf_index = None\<rparr>"

definition ready_poll :: "('p, 'sw, 'ss, 'q, 'reg) crates \<Rightarrow> ready_future \<Rightarrow> waker \<Rightarrow>
    ('sw, 'reg) source \<Rightarrow> ('p, 'sw, 'ss, 'q, 'reg) reactor \<Rightarrow>
    panic + unit io_result poll \<times> ready_future \<times> ('sw, 'reg) source \<times>
      ('p, 'sw, 'ss, 'q, 'reg) reactor" where
  "ready_poll E f cx s r =
     (let d = rf_dir f; st = src_state s d in
      if fresh_event (rf_ticks f) (tick st) then Inr (Poll_Ready (Inr ()), f, s, r)
      else
        let was_empty = dir_is_empty E st;
            (i, f', sl) = (case rf_index f of
                Some i \<Rightarrow> (i, f, wakers st)
              | None \<Rightarrow> (case sl_insert (wslab E) None (wakers st) of (i, sl) \<Rightarrow>
                  (i, f\<lparr>rf_index := Some i, rf_ticks := Some (reactor_ticker r, tick st)\<rparr>, sl)))
        in rbind (or_panic Slab_Invalid_Key (sl_put (wslab E) i (Some cx) sl)) (\<lambda>sl'.
             let s' = set_dir d (st\<lparr>wakers := sl'\<rparr>) s
             in case update_interest E was_empty s' r of (res, r') \<Rightarrow> Inr (res, f', s', r')))"

definition ready_drop :: "('p, 'sw, 'ss, 'q, 'reg) crates \<Rightarrow> ready_future \<Rightarrow>
    ('sw, 'reg) source \<Rightarrow> panic + ('sw, 'reg) source" where
  "ready_drop E f s = (case rf_index f of
       None \<Rightarrow> Inr s
     | Some k \<Rightarrow>
         let st = src_state s (rf_dir f)
         in if sl_contains (wslab E) k (wakers st)
            then rbind (or_panic Slab_Invalid_Key (sl_remove (wslab E) k (wakers st)))
                   (\<lambda>(_, sl). Inr (set_dir (rf_dir f) (st\<lparr>wakers := sl\<rparr>) s))
            else Inr s)"

text \<open>
  The futures \<open>Readable\<close>, \<open>ReadableOwned\<close>, \<open>Writable\<close> and \<open>WritableOwned\<close> wrap it; they
  differ in the handle they own and in the direction.
\<close>

definition source_readable :: ready_future where "source_readable = source_ready READ"

definition source_readable_owned :: ready_future where "source_readable_owned = source_ready READ"

definition source_writable :: ready_future where "source_writable = source_ready WRITE"

definition source_writable_owned :: ready_future where "source_writable_owned = source_ready WRITE"

definition wrap_poll :: "unit io_result poll \<times> 'b \<Rightarrow> panic + unit io_result poll \<times> 'b" where
  "wrap_poll out = (case out of
       (Poll_Pending, b) \<Rightarrow> Inr (Poll_Pending, b)
     | (Poll_Ready (Inl e), b) \<Rightarrow> Inr (Poll_Ready (Inl e), b)
     | (Poll_Ready (Inr _), b) \<Rightarrow> Inr (Poll_Ready (Inr ()), b))"

definition readable_poll :: "('p, 'sw, 'ss, 'q, 'reg) crates \<Rightarrow> ready_future \<Rightarrow> waker \<Rightarrow>
    ('sw, 'reg) source \<Rightarrow> ('p, 'sw, 'ss, 'q, 'reg) reactor \<Rightarrow>
    panic + unit io_result poll \<times> ready_future \<times> ('sw, 'reg) source \<times>
      ('p, 'sw, 'ss, 'q, 'reg) reactor" where
  "readable_poll E f cx s r = rbind (ready_poll E f cx s r) wrap_poll"

definition readable_owned_poll :: "('p, 'sw, 'ss, 'q, 'reg) crates \<Rightarrow> ready_future \<Rightarrow> waker \<Rightarrow>
    ('sw, 'reg) source \<Rightarrow> ('p, 'sw, 'ss, 'q, 'reg) reactor \<Rightarrow>
    panic + unit io_result poll \<times> ready_future \<times> ('sw, 'reg) source \<times>
      ('p, 'sw, 'ss, 'q, 'reg) reactor" where
  "readable_owned_poll E f cx s r = rbind (ready_poll E f cx s r) wrap_poll"

definition writable_poll :: "('p, 'sw, 'ss, 'q, 'reg) crates \<Rightarrow> ready_future \<Rightarrow> waker \<Rightarrow>
    ('sw, 'reg) source \<Rightarrow> ('p, 'sw, 'ss, 'q, 'reg) reactor \<Rightarrow>
    panic + unit io_result poll \<times> ready_future \<times> ('sw, 'reg) source \<times>
      ('p, 'sw, 'ss, 'q, 'reg) reactor" where
  "writable_poll E f cx s r = rbind (ready_poll E f cx s r) wrap_poll"

definition writable_owned_poll :: "('p, 'sw, 'ss, 'q, 'reg) crates \<Rightarrow> ready_future \<Rightarrow> waker \<Rightarrow>
    ('sw, 'reg) source \<Rightarrow> ('p, 'sw, 'ss, 'q, 'reg) reactor \<Rightarrow>
    panic + unit io_result poll \<times> ready_future \<times> ('sw, 'reg) source \<times>
      ('p, 'sw, 'ss, 'q, 'reg) reactor" where
  "writable_owned_poll E f cx s r = rbind (ready_poll E f cx s r) wrap_poll"

lemma wrap_poll_eq [simp]: "wrap_poll out = Inr out"
  by (auto simp: wrap_poll_def split: prod.splits poll.splits sum.splits)

lemma rbind_wrap_poll [simp]: "rbind m wrap_poll = m"
  by (cases m) simp_all

lemma future_polls:
  "readable_poll E f cx s r = ready_poll E f cx s r"
  "readable_owned_poll E f cx s r = ready_poll E f cx s r"
  "writable_poll E f cx s r = ready_poll E f cx s r"
  "writable_owned_poll E f cx s r = ready_poll E f cx s r"
  by (simp_all add: readable_poll_def readable_owned_poll_def writable_poll_def
      writable_owned_poll_def)


section \<open>Delivering an event to a direction\<close>

text \<open>What \<open>react\<close> does for one emitted direction of an event of round \<open>tk\<close>.\<close>

definition deliver_dir :: "('p, 'sw, 'ss, 'q, 'reg) crates \<Rightarrow> usize \<Rightarrow> dir \<Rightarrow>
    ('sw, 'reg) source \<times> waker list \<Rightarrow> ('sw, 'reg) source \<times> waker list" where
  "deliver_dir E tk d sw = (case sw of (s, ws) \<Rightarrow>
     (case drain_into E ((src_state s d)\<lparr>tick := tk\<rparr>) ws of
        (st, ws') \<Rightarrow> (set_dir d st s, ws')))"

lemma waiting_tick [simp]:
  "waiting E (st\<lparr>tick := tk\<rparr>) = waiting E st" "waiting E (st\<lparr>ticks := tt\<rparr>) = waiting E st"
  by (simp_all add: waiting_def)

lemma deliver_dir_spec:
  assumes "slab_ok (wslab E)" "deliver_dir E tk d (s, ws) = (s', ws')"
  shows "waiting E (src_state s' d) = {}" "set ws' = set ws \<union> waiting E (src_state s d)"
    and "tick (src_state s' d) = tk" "ticks (src_state s' d) = ticks (src_state s d)"
    and "d' \<noteq> d \<Longrightarrow> src_state s' d' = src_state s d'"
    and "registration s' = registration s" "src_key s' = src_key s"
    and "dwaker (src_state s' d) = None"
    and "sl_get (wslab E) k (wakers (src_state s' d)) =
      map_option (\<lambda>_. None) (sl_get (wslab E) k (wakers (src_state s d)))"
proof -
  obtain st ws2 where drain: "drain_into E ((src_state s d)\<lparr>tick := tk\<rparr>) ws = (st, ws2)" by force
  with assms(2) have s': "s' = set_dir d st s" and ws': "ws' = ws2"
    by (auto simp: deliver_dir_def)
  note D = drain_into_spec [OF assms(1) drain]
  show "waiting E (src_state s' d) = {}" "set ws' = set ws \<union> waiting E (src_state s d)"
    and "tick (src_state s' d) = tk" "ticks (src_state s' d) = ticks (src_state s d)"
    and "d' \<noteq> d \<Longrightarrow> src_state s' d' = src_state s d'"
    and "registration s' = registration s" "src_key s' = src_key s"
    and "dwaker (src_state s' d) = None"
    and "sl_get (wslab E) k (wakers (src_state s' d)) =
      map_option (\<lambda>_. None) (sl_get (wslab E) k (wakers (src_state s d)))"
    using D D(6) [of k] by (simp_all add: s' ws')
qed

section \<open>The contract of waiting\<close>

text \<open>
  \<open>wakes_task E w cx\<close>: waking \<open>w\<close> wakes the task that polled with \<open>cx\<close>.
\<close>

definition wakes_task :: "('p, 'sw, 'ss, 'q, 'reg) crates \<Rightarrow> waker \<Rightarrow> waker \<Rightarrow> bool" where
  "wakes_task E w cx \<longleftrightarrow> w = cx \<or> will_wake E w cx"

text \<open>
  A way of waiting has a state of its own (\<open>'f\<close>), reads its remembered ticks with \<open>ticks_of\<close>,
  and is polled with a direction, a waker, the source and the reactor. The laws: polling does
  not panic; it completes exactly on a fresh event; a pending poll leaves a waker for the task in
  the direction and remembers ticks that the direction has not passed.
\<close>

locale readiness_poll =
  fixes E :: "('p, 'sw, 'ss, 'q, 'reg) crates"
    and poll :: "'f \<Rightarrow> dir \<Rightarrow> waker \<Rightarrow> ('sw, 'reg) source \<Rightarrow> ('p, 'sw, 'ss, 'q, 'reg) reactor \<Rightarrow>
      panic + unit io_result poll \<times> 'f \<times> ('sw, 'reg) source \<times> ('p, 'sw, 'ss, 'q, 'reg) reactor"
    and ticks_of :: "'f \<Rightarrow> 'sw direction \<Rightarrow> (usize \<times> usize) option"
    and inv :: "'f \<Rightarrow> dir \<Rightarrow> ('sw, 'reg) source \<Rightarrow> bool"
  assumes slab: "inv f d s \<Longrightarrow> slab_ok (wslab E)"
    and no_panic: "inv f d s \<Longrightarrow> poll f d cx s r \<noteq> Inl p"
    and completes: "inv f d s \<Longrightarrow> fresh_event (ticks_of f (src_state s d)) (tick (src_state s d)) \<Longrightarrow>
      \<exists>f' s'. poll f d cx s r = Inr (Poll_Ready (Inr ()), f', s', r)"
    and only_fresh: "inv f d s \<Longrightarrow> poll f d cx s r = Inr (Poll_Ready (Inr ()), f', s', r') \<Longrightarrow>
      fresh_event (ticks_of f (src_state s d)) (tick (src_state s d))"
    and pending: "inv f d s \<Longrightarrow> poll f d cx s r = Inr (Poll_Pending, f', s', r') \<Longrightarrow>
      inv f' d s' \<and> (\<exists>w \<in> waiting E (src_state s' d). wakes_task E w cx) \<and>
      (\<exists>a b. ticks_of f' (src_state s' d) = Some (a, b) \<and> tick (src_state s' d) \<in> {a, b})"
    and deliver: "inv f d s \<Longrightarrow> deliver_dir E tk d' (s, ws) = (s', ws') \<Longrightarrow>
      inv f d s' \<and> ticks_of f (src_state s' d) = ticks_of f (src_state s d)"
begin

text \<open>
  The wake-up. After a pending poll, an event for the direction hands the reactor a waker of the
  task, whatever its round; and if its round is neither of the remembered ticks, the next poll
  completes.
\<close>

lemma event_wakes:
  assumes "inv f d s" "poll f d cx s r = Inr (Poll_Pending, f', s', r')"
    and "deliver_dir E tk d (s', ws) = (s'', ws')"
  shows "\<exists>w \<in> set ws'. wakes_task E w cx"
proof -
  from pending [OF assms(1,2)] obtain w where
    "inv f' d s'" "w \<in> waiting E (src_state s' d)" "wakes_task E w cx" by blast
  then show ?thesis using deliver_dir_spec(2) [OF slab [OF assms(1)] assms(3)] by auto
qed

lemma event_completes:
  assumes "inv f d s" "poll f d cx s r = Inr (Poll_Pending, f', s', r')"
    and "ticks_of f' (src_state s' d) = Some (a, b)" "tk \<noteq> a" "tk \<noteq> b"
    and "deliver_dir E tk d (s', ws) = (s'', ws')"
  shows "\<exists>f3 s3. poll f' d cx' s'' r'' = Inr (Poll_Ready (Inr ()), f3, s3, r'')"
proof -
  from pending [OF assms(1,2)] have inv': "inv f' d s'" by blast
  with deliver assms(6) have "inv f' d s''"
    "ticks_of f' (src_state s'' d) = ticks_of f' (src_state s' d)" by blast+
  moreover have "tick (src_state s'' d) = tk"
    using deliver_dir_spec(3) [OF slab [OF assms(1)] assms(6)] .
  ultimately show ?thesis using assms(3,4,5) by (intro completes) simp_all
qed

text \<open>
  A stale event, of a round that carries a remembered tick, wakes the task but does not complete
  the wait: the next poll registers again or reports an error of the poller.
\<close>

lemma stale_event_waits:
  assumes "inv f d s" "poll f d cx s r = Inr (Poll_Pending, f', s', r')"
    and "ticks_of f' (src_state s' d) = Some (a, b)" "tk = a \<or> tk = b"
    and "deliver_dir E tk d (s', ws) = (s'', ws')"
    and "poll f' d cx' s'' r'' = Inr (Poll_Ready res, f3, s3, r3)"
  shows "\<exists>e. res = Inl e"
proof (rule ccontr)
  assume "\<nexists>e. res = Inl e"
  then have res: "res = Inr ()" by (cases res) auto
  from pending [OF assms(1,2)] have inv': "inv f' d s'" by blast
  with deliver assms(5) have inv'': "inv f' d s''" and
    t: "ticks_of f' (src_state s'' d) = ticks_of f' (src_state s' d)" by blast+
  have "tick (src_state s'' d) = tk"
    using deliver_dir_spec(3) [OF slab [OF assms(1)] assms(5)] .
  with only_fresh [OF inv'' assms(6) [unfolded res]] t assms(3,4) show False by auto
qed

end

section \<open>Waiting with \<open>poll_ready\<close>\<close>

text \<open>The waker slot is only filled together with the ticks, and the ticks are not passed.\<close>

definition slot_ok :: "('p, 'sw, 'ss, 'q, 'reg) crates \<Rightarrow> dir \<Rightarrow> ('sw, 'reg) source \<Rightarrow> bool" where
  "slot_ok E d s \<longleftrightarrow> slab_ok (wslab E) \<and>
     (dwaker (src_state s d) \<noteq> None \<longrightarrow>
        (\<exists>a b. ticks (src_state s d) = Some (a, b) \<and> tick (src_state s d) \<in> {a, b}))"

definition poll_ready_as :: "('p, 'sw, 'ss, 'q, 'reg) crates \<Rightarrow> unit \<Rightarrow> dir \<Rightarrow> waker \<Rightarrow>
    ('sw, 'reg) source \<Rightarrow> ('p, 'sw, 'ss, 'q, 'reg) reactor \<Rightarrow>
    panic + unit io_result poll \<times> unit \<times> ('sw, 'reg) source \<times> ('p, 'sw, 'ss, 'q, 'reg) reactor" where
  "poll_ready_as E u d cx s r =
     (case poll_ready E d cx s r of (res, s', r') \<Rightarrow> Inr (res, u, s', r'))"

lemma update_interest_cases:
  obtains (pending) p where "update_interest E was_empty s r = (Poll_Pending, r\<lparr>poller := p\<rparr>)"
  | (failed) p e where "was_empty"
      "update_interest E was_empty s r = (Poll_Ready (Inl e), r\<lparr>poller := p\<rparr>)"
proof (cases was_empty)
  case True
  obtain res p where "reg_modify (reg_calls E) (registration s) (interest_event E s) (poller r)
      = (res, p)" by force
  with True pending [of p] failed [of _ p] show thesis
    by (cases res) (auto simp: update_interest_def)
next
  case False
  then have "update_interest E was_empty s r = (Poll_Pending, r\<lparr>poller := poller r\<rparr>)"
    by (simp add: update_interest_def)
  then show thesis by (rule pending)
qed

lemma update_interest_woken:
  assumes "update_interest E was_empty s r = (res, r')"
  shows "woken r' = woken r"
  using assms by (auto simp: update_interest_def split: if_splits sum.splits prod.splits)

lemma update_interest_failed:
  assumes "update_interest E was_empty s r = (Poll_Ready (Inl e), r')"
  shows "reg_modify (reg_calls E) (registration s) (interest_event E s) (poller r) =
    (Inl e, poller r')"
  using assms by (auto simp: update_interest_def split: if_splits sum.splits prod.splits)

lemma poll_ready_cases:
  obtains (fresh) "fresh_event (ticks (src_state s d)) (tick (src_state s d))"
      "poll_ready E d cx s r =
        (Poll_Ready (Inr ()), set_dir d ((src_state s d)\<lparr>ticks := None\<rparr>) s, r)"
  | (same) w where "\<not> fresh_event (ticks (src_state s d)) (tick (src_state s d))"
      "dwaker (src_state s d) = Some w" "will_wake E w cx"
      "poll_ready E d cx s r = (Poll_Pending, s, r)"
  | (registered) res r' s' where "\<not> fresh_event (ticks (src_state s d)) (tick (src_state s d))"
      "\<And>w. dwaker (src_state s d) = Some w \<Longrightarrow> \<not> will_wake E w cx"
      "s' = set_dir d ((src_state s d)\<lparr>dwaker := Some cx,
         ticks := Some (ticker r, tick (src_state s d))\<rparr>) s"
      "update_interest E (dir_is_empty E (src_state s d)) s'
         (r\<lparr>woken := woken r @ option_list (dwaker (src_state s d))\<rparr>) = (res, r')"
      "poll_ready E d cx s r = (res, s', r')"
proof -
  let ?st = "src_state s d"
  let ?s' = "set_dir d (?st\<lparr>dwaker := Some cx, ticks := Some (ticker r, tick ?st)\<rparr>) s"
  show thesis
  proof (cases "fresh_event (ticks ?st) (tick ?st)")
    case True
    then show thesis by (intro fresh) (simp_all add: poll_ready_def Let_def)
  next
    case False
    obtain res r' where upd: "update_interest E (dir_is_empty E ?st) ?s'
        (r\<lparr>woken := woken r @ option_list (dwaker ?st)\<rparr>) = (res, r')" by force
    show thesis
    proof (cases "\<exists>w. dwaker ?st = Some w \<and> will_wake E w cx")
      case True
      with False same show thesis by (auto simp: poll_ready_def Let_def)
    next
      case diff: False
      have "poll_ready E d cx s r = (res, ?s', r')"
        using False diff upd
        by (cases "dwaker ?st") (simp_all add: poll_ready_def Let_def reactor_ticker_def)
      with False diff upd show thesis by (intro registered) auto
    qed
  qed
qed

interpretation pr: readiness_poll E "poll_ready_as E" "\<lambda>_ st. ticks st" "\<lambda>_. slot_ok E" for E
proof (unfold_locales, goal_cases)
  case (1 f d s)
  then show ?case by (simp add: slot_ok_def)
next
  case (2 f d s cx r p)
  show ?case by (simp add: poll_ready_as_def split: prod.splits)
next
  case (3 f d s cx r)
  then show ?case by (simp add: poll_ready_as_def poll_ready_def Let_def)
next
  case (4 f d s cx r f' s' r')
  from 4(2) show ?case
    by (cases rule: poll_ready_cases [of s d E cx r];
        cases rule: update_interest_cases [of E "dir_is_empty E (src_state s d)"])
      (auto simp: poll_ready_as_def update_interest_def split: prod.splits if_splits sum.splits)
next
  case (5 f d s cx r f' s' r')
  then have slab: "slab_ok (wslab E)" by (simp add: slot_ok_def)
  show ?case
  proof (cases rule: poll_ready_cases [of s d E cx r])
    case fresh
    with 5 show ?thesis by (simp add: poll_ready_as_def)
  next
    case (same w)
    with 5 have s': "s' = s" by (simp add: poll_ready_as_def)
    from same have "w \<in> waiting E (src_state s d)" "wakes_task E w cx"
      by (auto simp: waiting_def wakes_task_def)
    with 5(1) same show ?thesis unfolding s' by (auto simp: slot_ok_def)
  next
    case (registered res r1 s1)
    with 5 have s': "s' = s1" by (simp add: poll_ready_as_def)
    have "cx \<in> waiting E (src_state s' d)" "wakes_task E cx cx"
      using registered(3) by (auto simp: s' waiting_def wakes_task_def)
    with registered(3) slab show ?thesis by (auto simp: s' slot_ok_def)
  qed
next
  case (6 f d s tk d' ws s' ws')
  then have slab: "slab_ok (wslab E)" by (simp add: slot_ok_def)
  note D = deliver_dir_spec [OF slab 6(2)]
  show ?case
  proof (cases "d' = d")
    case True
    with D slab show ?thesis by (simp add: slot_ok_def)
  next
    case False
    with D(5) [of d] 6(1) show ?thesis by (simp add: slot_ok_def)
  qed
qed


section \<open>Waiting with a \<open>Ready\<close> future\<close>

text \<open>
  The future's slot in the direction exists as long as the future does, and it has ticks from the
  moment it has a slot.
\<close>

definition future_ok ::
    "('p, 'sw, 'ss, 'q, 'reg) crates \<Rightarrow> ready_future \<Rightarrow> dir \<Rightarrow> ('sw, 'reg) source \<Rightarrow> bool" where
  "future_ok E f d s \<longleftrightarrow> slab_ok (wslab E) \<and> rf_dir f = d \<and>
     (case rf_index f of
        None \<Rightarrow> rf_ticks f = None
      | Some i \<Rightarrow> rf_ticks f \<noteq> None \<and> sl_get (wslab E) i (wakers (src_state s d)) \<noteq> None)"

lemma future_ok_new [simp, intro]: "slab_ok (wslab E) \<Longrightarrow> future_ok E (source_ready d) d s"
  by (simp add: future_ok_def source_ready_def)

definition ready_poll_as :: "('p, 'sw, 'ss, 'q, 'reg) crates \<Rightarrow> ready_future \<Rightarrow> dir \<Rightarrow> waker \<Rightarrow>
    ('sw, 'reg) source \<Rightarrow> ('p, 'sw, 'ss, 'q, 'reg) reactor \<Rightarrow>
    panic + unit io_result poll \<times> ready_future \<times> ('sw, 'reg) source \<times>
      ('p, 'sw, 'ss, 'q, 'reg) reactor" where
  "ready_poll_as E f d cx s r = ready_poll E f cx s r"

text \<open>
  A poll that does not complete at once stores the waker in the future's slot, which it claims
  first when it has none.
\<close>

lemma ready_poll_cases:
  assumes "future_ok E f d s"
  obtains (fresh) "fresh_event (rf_ticks f) (tick (src_state s d))"
      "ready_poll E f cx s r = Inr (Poll_Ready (Inr ()), f, s, r)"
  | (stored) res r' s' f' i sl where "\<not> fresh_event (rf_ticks f) (tick (src_state s d))"
      "s' = set_dir d ((src_state s d)\<lparr>wakers := sl\<rparr>) s"
      "\<And>k. sl_get (wslab E) k sl =
         (if k = i then Some (Some cx) else sl_get (wslab E) k (wakers (src_state s d)))"
      "f' = (if rf_index f = None
         then f\<lparr>rf_index := Some i, rf_ticks := Some (ticker r, tick (src_state s d))\<rparr> else f)"
      "rf_index f' = Some i" "rf_dir f' = d" "rf_ticks f' \<noteq> None"
      "rf_index f = None \<longrightarrow> sl_get (wslab E) i (wakers (src_state s d)) = None"
      "\<not> fresh_event (rf_ticks f') (tick (src_state s d))"
      "update_interest E (dir_is_empty E (src_state s d)) s' r = (res, r')"
      "ready_poll E f cx s r = Inr (res, f', s', r')"
proof -
  let ?st = "src_state s d"
  from assms have slab: "slab_ok (wslab E)" and d: "rf_dir f = d"
    by (auto simp: future_ok_def)
  show thesis
  proof (cases "fresh_event (rf_ticks f) (tick ?st)")
    case True
    with d show thesis by (intro fresh) (simp_all add: ready_poll_def Let_def)
  next
    case False
    show thesis
    proof (cases "rf_index f")
      case None
      obtain i sl0 where ins: "sl_insert (wslab E) None (wakers ?st) = (i, sl0)" by force
      note I = slab_insertD [OF slab ins]
      from I(2) [of i] have "sl_put (wslab E) i (Some cx) sl0 \<noteq> None"
        using slab_put_None [OF slab, of i "Some cx" sl0] by auto
      then obtain sl where put: "sl_put (wslab E) i (Some cx) sl0 = Some sl" by blast
      let ?s' = "set_dir d (?st\<lparr>wakers := sl\<rparr>) s"
      let ?f' = "f\<lparr>rf_index := Some i, rf_ticks := Some (ticker r, tick ?st)\<rparr>"
      obtain res r' where upd: "update_interest E (dir_is_empty E ?st) ?s' r = (res, r')"
        by force
      show thesis
      proof (rule stored [of ?s' sl i ?f' res r'])
        show "sl_get (wslab E) k sl =
            (if k = i then Some (Some cx) else sl_get (wslab E) k (wakers ?st))" for k
          using slab_putD [OF slab put, of k] I(2) [of k] by simp
        show "ready_poll E f cx s r = Inr (res, ?f', ?s', r')"
          using False None ins put upd d
          by (simp add: ready_poll_def Let_def reactor_ticker_def)
      qed (use False None upd d I(1) slab in simp_all)
    next
      case (Some i)
      with assms have "sl_put (wslab E) i (Some cx) (wakers ?st) \<noteq> None"
        using slab_put_None [OF slab, of i "Some cx" "wakers ?st"] by (simp add: future_ok_def)
      then obtain sl where put: "sl_put (wslab E) i (Some cx) (wakers ?st) = Some sl" by blast
      let ?s' = "set_dir d (?st\<lparr>wakers := sl\<rparr>) s"
      obtain res r' where upd: "update_interest E (dir_is_empty E ?st) ?s' r = (res, r')"
        by force
      show thesis
      proof (rule stored [of ?s' sl i f res r'])
        show "sl_get (wslab E) k sl =
            (if k = i then Some (Some cx) else sl_get (wslab E) k (wakers ?st))" for k
          using slab_putD [OF slab put, of k] by simp
        show "ready_poll E f cx s r = Inr (res, f, ?s', r')"
          using False Some put upd d by (simp add: ready_poll_def Let_def)
      qed (use False Some upd d assms in \<open>simp_all add: future_ok_def\<close>)
    qed
  qed
qed

lemma not_fresh_ticks:
  "\<not> fresh_event tt t \<Longrightarrow> tt \<noteq> None \<Longrightarrow> \<exists>a b. tt = Some (a, b) \<and> t \<in> {a, b}"
  by (cases tt) auto

interpretation rp: readiness_poll E "ready_poll_as E" "\<lambda>f _. rf_ticks f" "future_ok E" for E
proof (unfold_locales, goal_cases)
  case (1 f d s)
  then show ?case by (simp add: future_ok_def)
next
  case (2 f d s cx r p)
  then show ?case
    by (cases rule: ready_poll_cases [of E f d s cx r]) (simp_all add: ready_poll_as_def)
next
  case (3 f d s cx r)
  then show ?case
    by (cases rule: ready_poll_cases [of E f d s cx r]) (simp_all add: ready_poll_as_def)
next
  case (4 f d s cx r f' s' r')
  from 4(1) show ?case
  proof (cases rule: ready_poll_cases [of E f d s cx r])
    case (stored res r1 s1 f1 i sl)
    then show ?thesis using 4(2)
      by (cases rule: update_interest_cases [of E "dir_is_empty E (src_state s d)" s1 r])
        (auto simp: ready_poll_as_def)
  qed simp
next
  case (5 f d s cx r f' s' r')
  from 5(1) have slab: "slab_ok (wslab E)" by (simp add: future_ok_def)
  from 5(1) show ?case
  proof (cases rule: ready_poll_cases [of E f d s cx r])
    case fresh
    with 5(2) show ?thesis by (simp add: ready_poll_as_def)
  next
    case (stored res r1 s1 f1 i sl)
    with 5(2) have eqs: "f' = f1" "s' = s1" by (simp_all add: ready_poll_as_def)
    have "sl_get (wslab E) i (wakers (src_state s' d)) = Some (Some cx)"
      using stored(2,3) by (simp add: eqs)
    then have "cx \<in> waiting E (src_state s' d)" "future_ok E f' d s'"
      using stored(5,6,7) slab by (auto simp: waiting_def future_ok_def eqs)
    moreover have "tick (src_state s' d) = tick (src_state s d)"
      using stored(2) by (simp add: eqs)
    ultimately show ?thesis
      using not_fresh_ticks [OF stored(9,7)] by (auto simp: wakes_task_def eqs)
  qed
next
  case (6 f d s tk d' ws s' ws')
  then have slab: "slab_ok (wslab E)" by (simp add: future_ok_def)
  note D = deliver_dir_spec [OF slab 6(2)]
  show ?case
  proof (cases "d' = d")
    case True
    with D(9) 6(1) show ?thesis by (simp add: future_ok_def split: option.splits)
  next
    case False
    with D(5) [of d] 6(1) show ?thesis by (simp add: future_ok_def split: option.splits)
  qed
qed

text \<open>
  Dropping the future frees its slot, without panic and without touching the rest.
\<close>

lemma ready_drop_spec:
  assumes "slab_ok (wslab E)"
  obtains s' where "ready_drop E f s = Inr s'" "src_key s' = src_key s"
    "registration s' = registration s"
    "\<And>k. sl_get (wslab E) k (wakers (src_state s' (rf_dir f))) =
       (if rf_index f = Some k then None else sl_get (wslab E) k (wakers (src_state s (rf_dir f))))"
    "dwaker (src_state s' (rf_dir f)) = dwaker (src_state s (rf_dir f))"
    "ticks (src_state s' (rf_dir f)) = ticks (src_state s (rf_dir f))"
    "tick (src_state s' (rf_dir f)) = tick (src_state s (rf_dir f))"
    "\<And>d. d \<noteq> rf_dir f \<Longrightarrow> src_state s' d = src_state s d"
proof (cases "rf_index f")
  case None
  then show thesis by (intro that [of s]) (simp_all add: ready_drop_def)
next
  case (Some i)
  let ?d = "rf_dir f"
  let ?st = "src_state s ?d"
  from assms show thesis
  proof (cases rule: slab_remove_cases [where k = i and s = "wakers ?st"])
    case vacant
    with Some assms show thesis
      by (intro that [of s]) (auto simp: ready_drop_def Let_def)
  next
    case (occupied v sl)
    with Some assms show thesis
      by (intro that [of "set_dir ?d (?st\<lparr>wakers := sl\<rparr>) s"])
        (auto simp: ready_drop_def Let_def)
  qed
qed

end
