(* ===== verification/Reactor_IO.thy ===== *)
theory Reactor_IO
  imports Source
begin

text \<open>
  The I/O half of \<open>src/src/reactor.rs\<close>: \<open>insert_io\<close>, \<open>remove_io\<close> and \<open>ReactorLock::react\<close>.

  \<open>react\<close> is cut at the blocking call into what it does before (\<open>react_prepare\<close>) and after
  (\<open>react_finish\<close>), so that other threads can be given steps in between.
\<close>

section \<open>Registering and deregistering sources\<close>

text \<open>
  The source is allocated at a new address and its pointer stored in the slab. Memory is not
  reclaimed in the model: an address whose last pointer is gone is never used again.
\<close>

definition insert_io :: "('p, 'sw, 'ss, 'q, 'reg) crates \<Rightarrow> 'reg \<Rightarrow>
    ('p, 'sw, 'ss, 'q, 'reg) reactor \<Rightarrow>
    panic + addr io_result \<times> ('p, 'sw, 'ss, 'q, 'reg) reactor" where
  "insert_io E g r =
     (let key = sl_vacant_key (sslab E) (sources r);
          a = next_addr r;
          s = \<lparr>registration = g, src_key = key, src_state = (\<lambda>_. direction_default E)\<rparr>;
          (_, ss) = sl_insert (sslab E) a (sources r);
          r1 = r\<lparr>sources := ss, heap := (heap r)(a \<mapsto> s), next_addr := Suc a\<rparr>
      in case reg_add (reg_calls E) g key (poller r1) of
          (Inl err, p) \<Rightarrow>
            rbind (or_panic Slab_Invalid_Key (sl_remove (sslab E) key (sources r1)))
              (\<lambda>(_, ss'). Inr (Inl err, r1\<lparr>sources := ss', poller := p\<rparr>))
        | (Inr _, p) \<Rightarrow> Inr (Inr a, r1\<lparr>poller := p\<rparr>))"

definition remove_io :: "('p, 'sw, 'ss, 'q, 'reg) crates \<Rightarrow> ('sw, 'reg) source \<Rightarrow>
    ('p, 'sw, 'ss, 'q, 'reg) reactor \<Rightarrow>
    panic + unit io_result \<times> ('p, 'sw, 'ss, 'q, 'reg) reactor" where
  "remove_io E s r =
     rbind (or_panic Slab_Invalid_Key (sl_remove (sslab E) (src_key s) (sources r)))
       (\<lambda>(_, ss). case reg_delete (reg_calls E) (registration s) (poller r) of
          (res, p) \<Rightarrow> Inr (res, r\<lparr>sources := ss, poller := p\<rparr>))"

section \<open>Delivering events\<close>

text \<open>
  One event for a source: the emitted directions get the round's tick and give up their wakers,
  writability first.
\<close>

definition deliver_source :: "('p, 'sw, 'ss, 'q, 'reg) crates \<Rightarrow> usize \<Rightarrow> event \<Rightarrow>
    ('sw, 'reg) source \<times> waker list \<Rightarrow> ('sw, 'reg) source \<times> waker list" where
  "deliver_source E tk ev sw =
     fold (\<lambda>(d, emitted) sw. if emitted then deliver_dir E tk d sw else sw)
       [(WRITE, ev_writable ev), (READ, ev_readable ev)] sw"

text \<open>
  The loop over the events. It stops at the first error of \<open>modify\<close>; the wakers collected so far
  are part of the result either way.
\<close>

fun deliver_events :: "('p, 'sw, 'ss, 'q, 'reg) crates \<Rightarrow> usize \<Rightarrow> event list \<Rightarrow> waker list \<Rightarrow>
    ('p, 'sw, 'ss, 'q, 'reg) reactor \<Rightarrow>
    unit io_result \<times> waker list \<times> ('p, 'sw, 'ss, 'q, 'reg) reactor" where
  "deliver_events E tk [] ws r = (Inr (), ws, r)"
| "deliver_events E tk (ev # evs) ws r =
     (case Option.bind (sl_get (sslab E) (ev_key ev) (sources r))
             (\<lambda>a. map_option (Pair a) (heap r a)) of
        None \<Rightarrow> deliver_events E tk evs ws r
      | Some (a, s) \<Rightarrow>
          (case deliver_source E tk ev (s, ws) of (s', ws') \<Rightarrow>
             let r' = r\<lparr>heap := (heap r)(a \<mapsto> s')\<rparr>
             in if \<not> dir_is_empty E (src_state s' READ) \<or> \<not> dir_is_empty E (src_state s' WRITE)
                then (case reg_modify (reg_calls E) (registration s') (interest_event E s')
                        (poller r') of
                    (Inl e, p) \<Rightarrow> (Inl e, ws', r'\<lparr>poller := p\<rparr>)
                  | (Inr _, p) \<Rightarrow> deliver_events E tk evs ws' (r'\<lparr>poller := p\<rparr>))
                else deliver_events E tk evs ws' r'))"

section \<open>One round of the reactor\<close>

fun react_timeout :: "duration option \<Rightarrow> duration option \<Rightarrow> duration option" where
  "react_timeout None None = None"
| "react_timeout (Some t) None = Some t"
| "react_timeout None (Some t) = Some t"
| "react_timeout (Some a) (Some b) = Some (min a b)"

definition wake_all :: "waker list \<Rightarrow> ('p, 'sw, 'ss, 'q, 'reg) reactor \<Rightarrow>
    ('p, 'sw, 'ss, 'q, 'reg) reactor" where
  "wake_all ws r = r\<lparr>woken := woken r @ ws\<rparr>"

text \<open>
  Up to the wait: fire the ready timers, compute the timeout, bump the ticker, clear the buffer.
  The result is the timeout, the round's tick and the wakers of the timers.
\<close>

definition react_prepare :: "('p, 'sw, 'ss, 'q, 'reg) crates \<Rightarrow> instant \<Rightarrow> duration option \<Rightarrow>
    ('p, 'sw, 'ss, 'q, 'reg) reactor \<Rightarrow>
    panic + duration option \<times> usize \<times> waker list \<times> ('p, 'sw, 'ss, 'q, 'reg) reactor" where
  "react_prepare E now timeout r =
     rbind (process_timers E now [] r) (\<lambda>(next_timer, ws, r).
       Inr (react_timeout next_timer timeout, ticker r + 1, ws,
            r\<lparr>ticker := ticker r + 1, events := []\<rparr>))"

definition react_wait :: "('p, 'sw, 'ss, 'q, 'reg) crates \<Rightarrow> duration option \<Rightarrow>
    ('p, 'sw, 'ss, 'q, 'reg) reactor \<Rightarrow> nat io_result \<times> ('p, 'sw, 'ss, 'q, 'reg) reactor" where
  "react_wait E timeout r = (case po_wait (poll_calls E) (events r) timeout (poller r) of
       (res, evs, p) \<Rightarrow> (res, r\<lparr>events := evs, poller := p\<rparr>))"

text \<open>
  After the wait. The question mark on \<open>modify\<close> leaves the function, past the loop that wakes the
  collected wakers; every other outcome reaches it. A waker that panics does not stop the loop.
\<close>

definition react_finish :: "('p, 'sw, 'ss, 'q, 'reg) crates \<Rightarrow> instant \<Rightarrow> duration option \<Rightarrow>
    usize \<Rightarrow> waker list \<Rightarrow> nat io_result \<Rightarrow> ('p, 'sw, 'ss, 'q, 'reg) reactor \<Rightarrow>
    panic + unit io_result \<times> ('p, 'sw, 'ss, 'q, 'reg) reactor" where
  "react_finish E now timeout tk ws res r = (case res of
       Inr n \<Rightarrow>
         if n = 0
         then (if timeout \<noteq> Some 0
               then rbind (process_timers E now ws r) (\<lambda>(_, ws, r). Inr (Inr (), wake_all ws r))
               else Inr (Inr (), wake_all ws r))
         else (case deliver_events E tk (events r) ws r of
             (Inl e, _, r') \<Rightarrow> Inr (Inl e, r')
           | (Inr _, ws', r') \<Rightarrow> Inr (Inr (), wake_all ws' r'))
     | Inl e \<Rightarrow>
         if e = Interrupted then Inr (Inr (), wake_all ws r) else Inr (Inl e, wake_all ws r))"

definition react :: "('p, 'sw, 'ss, 'q, 'reg) crates \<Rightarrow> instant \<Rightarrow> instant \<Rightarrow> duration option \<Rightarrow>
    ('p, 'sw, 'ss, 'q, 'reg) reactor \<Rightarrow>
    panic + unit io_result \<times> ('p, 'sw, 'ss, 'q, 'reg) reactor" where
  "react E now now' timeout r =
     rbind (react_prepare E now timeout r) (\<lambda>(timeout, tk, ws, r).
       case react_wait E timeout r of (res, r) \<Rightarrow> react_finish E now' timeout tk ws res r)"

section \<open>Well-formed reactors\<close>

text \<open>
  Every pointer in the slab leads to a source that knows its key; addresses at or above
  \<open>next_addr\<close> are free; in every source the waker slots go with their ticks.
\<close>

definition sources_ok ::
    "('p, 'sw, 'ss, 'q, 'reg) crates \<Rightarrow> ('p, 'sw, 'ss, 'q, 'reg) reactor \<Rightarrow> bool" where
  "sources_ok E r \<longleftrightarrow>
     (\<forall>k a. sl_get (sslab E) k (sources r) = Some a \<longrightarrow>
        map_option src_key (heap r a) = Some k) \<and>
     (\<forall>a s. heap r a = Some s \<longrightarrow> a < next_addr r \<and> (\<forall>d. slot_ok E d s))"

definition reactor_ok :: "('p, 'sw, 'ss, 'q, 'reg) crates \<Rightarrow> ('q \<Rightarrow> timer_op list) \<Rightarrow>
    ('p, 'sw, 'ss, 'q, 'reg) reactor \<Rightarrow> bool" where
  "reactor_ok E items r \<longleftrightarrow> timers_ok E items r \<and> sources_ok E r"

text \<open>The source a key leads to.\<close>

definition source_at :: "('p, 'sw, 'ss, 'q, 'reg) crates \<Rightarrow>
    ('p, 'sw, 'ss, 'q, 'reg) reactor \<Rightarrow> slab_key \<Rightarrow> ('sw, 'reg) source option" where
  "source_at E r k = Option.bind (sl_get (sslab E) k (sources r)) (heap r)"

lemma sources_okD:
  assumes "sources_ok E r" "sl_get (sslab E) k (sources r) = Some a"
  obtains s where "heap r a = Some s" "src_key s = k" "source_at E r k = Some s"
  using assms unfolding sources_ok_def source_at_def by force

lemma sources_ok_heapD:
  "sources_ok E r \<Longrightarrow> heap r a = Some s \<Longrightarrow> a < next_addr r \<and> slot_ok E d s"
  unfolding sources_ok_def by blast

lemma sources_ok_inj:
  assumes "sources_ok E r" "sl_get (sslab E) k (sources r) = Some a"
    and "sl_get (sslab E) k' (sources r) = Some a"
  shows "k = k'"
  using assms by (metis sources_okD option.inject)

lemma sources_ok_same_io: "same_io r r' \<Longrightarrow> sources_ok E r' = sources_ok E r"
  by (simp add: same_io_def sources_ok_def)

lemma source_at_same_io: "same_io r r' \<Longrightarrow> source_at E r' = source_at E r"
  by (rule ext) (simp add: same_io_def source_at_def)

lemma timers_ok_cong:
  assumes "timers_ok E items r" "timers r' = timers r" "timer_ops r' = timer_ops r"
  shows "timers_ok E items r'" "timer_view items r' = timer_view items r"
  using assms by (simp_all add: timers_ok_def timer_view_def)

lemma reactor_ok_new:
  assumes "crates_ok E items"
  shows "reactor_ok E items (reactor_new E p)" "timer_view items (reactor_new E p) = Map.empty"
    and "source_at E (reactor_new E p) k = None"
proof -
  let ?r = "reactor_new E p"
  from assms have Q: "queue_ok (queue E) items (timer_queue_size (on_espidf E))" and S: "slab_ok (sslab E)"
    by auto
  have empty: "items (timer_ops ?r) = []" "timers ?r = []"
    using queue_new [OF Q] by (simp_all add: reactor_new_def)
  have get: "sl_get (sslab E) k (sources ?r) = None" for k
    using slab_get_new [OF S] by (simp add: reactor_new_def)
  have "timers_ok E items ?r" unfolding timers_ok_def using assms empty by simp
  moreover have "sources_ok E ?r" unfolding sources_ok_def get by (simp add: reactor_new_def)
  ultimately show "reactor_ok E items ?r" by (simp add: reactor_ok_def)
  show "timer_view items ?r = Map.empty" unfolding timer_view_def empty by simp
  show "source_at E ?r k = None" unfolding source_at_def get by simp
qed


section \<open>What one event does to its source\<close>

fun emitted :: "event \<Rightarrow> dir \<Rightarrow> bool" where
  "emitted ev READ = ev_readable ev"
| "emitted ev WRITE = ev_writable ev"

text \<open>
  \<open>delivered E tk D s s'\<close>: the directions in \<open>D\<close> have been given the tick \<open>tk\<close> and emptied, the
  others are as before; nothing else of the source has changed.
\<close>

definition delivered :: "('p, 'sw, 'ss, 'q, 'reg) crates \<Rightarrow> usize \<Rightarrow> dir set \<Rightarrow>
    ('sw, 'reg) source \<Rightarrow> ('sw, 'reg) source \<Rightarrow> bool" where
  "delivered E tk D s s' \<longleftrightarrow> registration s' = registration s \<and> src_key s' = src_key s \<and>
     (\<forall>d. ticks (src_state s' d) = ticks (src_state s d)) \<and>
     (\<forall>d \<in> D. tick (src_state s' d) = tk \<and> waiting E (src_state s' d) = {}) \<and>
     (\<forall>d. d \<notin> D \<longrightarrow> src_state s' d = src_state s d)"

lemma delivered_refl [simp, intro]: "delivered E tk {} s s"
  by (simp add: delivered_def)

lemma delivered_trans:
  assumes "delivered E tk D1 s s'" "delivered E tk D2 s' s''"
  shows "delivered E tk (D1 \<union> D2) s s''"
  using assms unfolding delivered_def by (metis Un_iff)

lemma deliver_dir_delivered:
  assumes "slab_ok (wslab E)" "deliver_dir E tk d (s, ws) = (s', ws')"
  shows "delivered E tk {d} s s'" "set ws' = set ws \<union> waiting E (src_state s d)"
proof -
  note D = deliver_dir_spec [OF assms]
  have "ticks (src_state s' d') = ticks (src_state s d')" for d'
    using D(4) D(5) [of d'] by (cases "d' = d") simp_all
  with D(1,3,6,7) D(5) show "delivered E tk {d} s s'"
    unfolding delivered_def by auto
  show "set ws' = set ws \<union> waiting E (src_state s d)" by (rule D(2))
qed

lemma deliver_source_cases:
  obtains s1 ws1 where
    "(if ev_writable ev then deliver_dir E tk WRITE (s, ws) else (s, ws)) = (s1, ws1)"
    "deliver_source E tk ev (s, ws) =
      (if ev_readable ev then deliver_dir E tk READ (s1, ws1) else (s1, ws1))"
proof -
  obtain s1 ws1 where
    "(if ev_writable ev then deliver_dir E tk WRITE (s, ws) else (s, ws)) = (s1, ws1)" by force
  then show thesis by (intro that [of s1 ws1]) (auto simp: deliver_source_def)
qed

lemma deliver_source_spec:
  assumes slab: "slab_ok (wslab E)" and del: "deliver_source E tk ev (s, ws) = (s', ws')"
  shows "delivered E tk {d. emitted ev d} s s'"
    and "set ws' = set ws \<union> (\<Union>d \<in> {d. emitted ev d}. waiting E (src_state s d))"
proof -
  obtain s1 ws1 where
    W: "(if ev_writable ev then deliver_dir E tk WRITE (s, ws) else (s, ws)) = (s1, ws1)" and
    R: "deliver_source E tk ev (s, ws) =
      (if ev_readable ev then deliver_dir E tk READ (s1, ws1) else (s1, ws1))"
    by (rule deliver_source_cases)
  let ?W = "if ev_writable ev then {WRITE} else {}" and ?R = "if ev_readable ev then {READ} else {}"
  have w: "delivered E tk ?W s s1" "set ws1 = set ws \<union> (\<Union>d \<in> ?W. waiting E (src_state s d))"
    using W deliver_dir_delivered [OF slab, of tk WRITE s ws s1 ws1]
    by (auto split: if_splits)
  have r: "delivered E tk ?R s1 s'" "set ws' = set ws1 \<union> (\<Union>d \<in> ?R. waiting E (src_state s1 d))"
    using R del deliver_dir_delivered [OF slab, of tk READ s1 ws1 s' ws']
    by (auto split: if_splits)
  have D: "{d. emitted ev d} = ?W \<union> ?R"
  proof (rule set_eqI)
    show "d \<in> {d. emitted ev d} \<longleftrightarrow> d \<in> ?W \<union> ?R" for d by (cases d) auto
  qed
  show "delivered E tk {d. emitted ev d} s s'"
    unfolding D using w(1) r(1) by (rule delivered_trans)
  have "src_state s1 READ = src_state s READ"
    using w(1) by (auto simp: delivered_def)
  then show "set ws' = set ws \<union> (\<Union>d \<in> {d. emitted ev d}. waiting E (src_state s d))"
    unfolding D w(2) r(2) by auto
qed

text \<open>Both ways of waiting keep their invariant when an event is delivered to the source.\<close>

context readiness_poll begin

lemma deliver_source_inv:
  assumes "inv f d s" "deliver_source E tk ev (s, ws) = (s', ws')"
  shows "inv f d s' \<and> ticks_of f (src_state s' d) = ticks_of f (src_state s d)"
proof -
  obtain s1 ws1 where
    W: "(if ev_writable ev then deliver_dir E tk WRITE (s, ws) else (s, ws)) = (s1, ws1)" and
    R: "deliver_source E tk ev (s, ws) =
      (if ev_readable ev then deliver_dir E tk READ (s1, ws1) else (s1, ws1))"
    by (rule deliver_source_cases)
  have "inv f d s1 \<and> ticks_of f (src_state s1 d) = ticks_of f (src_state s d)"
    using W assms(1) deliver [of f d s tk WRITE ws s1 ws1] by (auto split: if_splits)
  moreover from this have
    "inv f d s' \<and> ticks_of f (src_state s' d) = ticks_of f (src_state s1 d)"
    using R assms(2) deliver [of f d s1 tk READ ws1 s' ws'] by (auto split: if_splits)
  ultimately show ?thesis by simp
qed

text \<open>The wake-up facts, for a whole event of the poller.\<close>

lemma source_event_wakes:
  assumes "inv f d s" "poll f d cx s r = Inr (Poll_Pending, f', s', r')" "emitted ev d"
    and "deliver_source E tk ev (s', ws) = (s'', ws')"
  shows "\<exists>w \<in> set ws'. wakes_task E w cx"
proof -
  from pending [OF assms(1,2)] obtain w where
    "w \<in> waiting E (src_state s' d)" "wakes_task E w cx" by blast
  then show ?thesis
    using deliver_source_spec(2) [OF slab [OF assms(1)] assms(4)] assms(3) by blast
qed

lemma source_event_completes:
  assumes "inv f d s" "poll f d cx s r = Inr (Poll_Pending, f', s', r')" "emitted ev d"
    and "ticks_of f' (src_state s' d) = Some (a, b)" "tk \<noteq> a" "tk \<noteq> b"
    and "deliver_source E tk ev (s', ws) = (s'', ws')"
  shows "\<exists>f3 s3. poll f' d cx' s'' r'' = Inr (Poll_Ready (Inr ()), f3, s3, r'')"
proof -
  from pending [OF assms(1,2)] have "inv f' d s'" by blast
  from deliver_source_inv [OF this assms(7)] have "inv f' d s''"
    "ticks_of f' (src_state s'' d) = ticks_of f' (src_state s' d)" by blast+
  moreover have "tick (src_state s'' d) = tk"
    using deliver_source_spec(1) [OF slab [OF assms(1)] assms(7)] assms(3)
    by (simp add: delivered_def)
  ultimately show ?thesis using assms(4,5,6) by (intro completes) simp_all
qed

end

section \<open>What the loop over the events does\<close>

definition emitted_dirs :: "event list \<Rightarrow> slab_key \<Rightarrow> dir set" where
  "emitted_dirs evs k = {d. \<exists>ev \<in> set evs. ev_key ev = k \<and> emitted ev d}"

lemma emitted_dirs_simps [simp]:
  "emitted_dirs [] k = {}"
  "emitted_dirs (ev # evs) k =
     (if ev_key ev = k then {d. emitted ev d} else {}) \<union> emitted_dirs evs k"
  by (auto simp: emitted_dirs_def)

text \<open>\<open>stored_at E k s' r r'\<close>: the source at the key \<open>k\<close> has become \<open>s'\<close>.\<close>

definition stored_at :: "('p, 'sw, 'ss, 'q, 'reg) crates \<Rightarrow> slab_key \<Rightarrow> ('sw, 'reg) source \<Rightarrow>
    ('p, 'sw, 'ss, 'q, 'reg) reactor \<Rightarrow> ('p, 'sw, 'ss, 'q, 'reg) reactor \<Rightarrow> bool" where
  "stored_at E k s' r r' \<longleftrightarrow> source_at E r' = (source_at E r)(k \<mapsto> s') \<and> sources_ok E r' \<and>
     sources r' = sources r \<and> (\<exists>h p. r' = r\<lparr>heap := h, poller := p\<rparr>)"

lemma stored_at_update:
  assumes ok: "sources_ok E r" and get: "sl_get (sslab E) k (sources r) = Some a"
    and s: "heap r a = Some s" and key: "src_key s' = src_key s" and slot: "\<And>d. slot_ok E d s'"
  shows "stored_at E k s' r (r\<lparr>heap := (heap r)(a \<mapsto> s'), poller := p\<rparr>)"
proof -
  let ?r = "r\<lparr>heap := (heap r)(a \<mapsto> s'), poller := p\<rparr>"
  have at: "source_at E ?r j = ((source_at E r)(k \<mapsto> s')) j" for j
    using sources_ok_inj [OF ok get, of j] get
    by (cases "sl_get (sslab E) j (sources r)") (auto simp: source_at_def)
  have ok': "sources_ok E ?r"
    unfolding sources_ok_def
  proof (intro conjI allI impI)
    fix j b assume "sl_get (sslab E) j (sources ?r) = Some b"
    then have "map_option src_key (heap r b) = Some j"
      using ok unfolding sources_ok_def by simp
    with s key show "map_option src_key (heap ?r b) = Some j"
      by (cases "b = a") simp_all
  next
    fix b t assume "heap ?r b = Some t"
    with ok s show "b < next_addr ?r"
      by (auto simp: sources_ok_def split: if_splits)
  next
    fix b t d assume "heap ?r b = Some t"
    with ok s slot show "slot_ok E d t"
      by (auto simp: sources_ok_def split: if_splits)
  qed
  have "source_at E ?r = (source_at E r)(k \<mapsto> s')" by (rule ext) (rule at)
  with ok' show ?thesis unfolding stored_at_def by (intro conjI exI) simp_all
qed

text \<open>
  One step of the loop: the event's source, if there is one, is updated; every other source is
  left alone.
\<close>

lemma deliver_events_step:
  assumes ok: "sources_ok E r" and slab: "slab_ok (wslab E)"
  obtains (unknown) "source_at E r (ev_key ev) = None"
      "deliver_events E tk (ev # evs) ws r = deliver_events E tk evs ws r"
  | (failed) s s' ws' r' e where "source_at E r (ev_key ev) = Some s"
      "deliver_source E tk ev (s, ws) = (s', ws')" "stored_at E (ev_key ev) s' r r'"
      "deliver_events E tk (ev # evs) ws r = (Inl e, ws', r')"
      "reg_modify (reg_calls E) (registration s') (interest_event E s') (poller r)
         = (Inl e, poller r')"
  | (passed) s s' ws' r' where "source_at E r (ev_key ev) = Some s"
      "deliver_source E tk ev (s, ws) = (s', ws')" "stored_at E (ev_key ev) s' r r'"
      "deliver_events E tk (ev # evs) ws r = deliver_events E tk evs ws' r'"
      "if (\<forall>d. waiting E (src_state s' d) = {}) then poller r' = poller r
       else reg_modify (reg_calls E) (registration s') (interest_event E s') (poller r)
         = (Inr (), poller r')"
proof (cases "sl_get (sslab E) (ev_key ev) (sources r)")
  case None
  then show thesis by (intro unknown) (simp_all add: source_at_def)
next
  case (Some a)
  with ok obtain s where s: "heap r a = Some s" "src_key s = ev_key ev"
    "source_at E r (ev_key ev) = Some s"
    by (rule sources_okD)
  obtain s' ws' where del: "deliver_source E tk ev (s, ws) = (s', ws')" by force
  have key: "src_key s' = src_key s"
    using deliver_source_spec(1) [OF slab del] by (simp add: delivered_def)
  have slot: "slot_ok E d s'" for d
    using sources_ok_heapD [OF ok s(1), of d] pr.deliver_source_inv [of E d s tk ev ws s' ws']
      del by blast
  let ?r = "r\<lparr>heap := (heap r)(a \<mapsto> s')\<rparr>"
  note stored = stored_at_update [OF ok Some s(1) key slot]
  have stored': "stored_at E (ev_key ev) s' r ?r"
    using stored [of "poller r"] by simp
  have empty: "dir_is_empty E (src_state s' READ) \<and> dir_is_empty E (src_state s' WRITE)
      \<longleftrightarrow> (\<forall>d. waiting E (src_state s' d) = {})"
    using slab by (simp add: all_dir)
  show thesis
  proof (cases "\<forall>d. waiting E (src_state s' d) = {}")
    case True
    then have "deliver_events E tk (ev # evs) ws r = deliver_events E tk evs ws' ?r"
      using Some s(1) del empty by simp
    from passed [OF s(3) del stored' this] True show thesis by simp
  next
    case False
    then have nonempty: "dir_is_empty E (src_state s' READ) \<longrightarrow>
        \<not> dir_is_empty E (src_state s' WRITE)" using empty by blast
    obtain res p where mod: "reg_modify (reg_calls E) (registration s') (interest_event E s')
        (poller r) = (res, p)" by force
    show thesis
    proof (cases res)
      case (Inl e)
      then have "deliver_events E tk (ev # evs) ws r = (Inl e, ws', ?r\<lparr>poller := p\<rparr>)"
        using nonempty by (simp add: Some s(1) del mod Let_def)
      from failed [OF s(3) del _ this] stored [of p] mod Inl show thesis by simp
    next
      case (Inr u)
      then have "deliver_events E tk (ev # evs) ws r =
          deliver_events E tk evs ws' (?r\<lparr>poller := p\<rparr>)"
        using nonempty by (simp add: Some s(1) del mod Let_def)
      from passed [OF s(3) del _ this] stored [of p] mod Inr False show thesis by simp
    qed
  qed
qed


text \<open>
  \<open>served E tk D ws s s'\<close>: the directions in \<open>D\<close> were delivered the round \<open>tk\<close>, and the wakers
  that waited there are in \<open>ws\<close>.
\<close>

definition served :: "('p, 'sw, 'ss, 'q, 'reg) crates \<Rightarrow> usize \<Rightarrow> dir set \<Rightarrow> waker list \<Rightarrow>
    ('sw, 'reg) source \<Rightarrow> ('sw, 'reg) source \<Rightarrow> bool" where
  "served E tk D ws s s' \<longleftrightarrow> delivered E tk D s s' \<and>
     (\<forall>d \<in> D. waiting E (src_state s d) \<subseteq> set ws)"

lemma served_refl [simp, intro]: "served E tk {} ws s s"
  by (simp add: served_def)

lemma served_trans:
  assumes "served E tk D1 ws1 s s1" "served E tk D2 ws s1 s'" "set ws1 \<subseteq> set ws"
  shows "served E tk (D1 \<union> D2) ws s s'"
proof -
  have "waiting E (src_state s d) \<subseteq> set ws" if "d \<in> D1 \<union> D2" for d
  proof (cases "d \<in> D1")
    case True
    with assms(1,3) show ?thesis unfolding served_def by blast
  next
    case False
    with assms(1) have "src_state s1 d = src_state s d"
      by (simp add: served_def delivered_def)
    with False that assms(2) show ?thesis unfolding served_def by (metis Un_iff)
  qed
  moreover have "delivered E tk (D1 \<union> D2) s s'"
    using assms(1,2) unfolding served_def by (blast intro: delivered_trans)
  ultimately show ?thesis by (simp add: served_def)
qed

lemma served_mono: "served E tk D ws s s' \<Longrightarrow> set ws \<subseteq> set ws' \<Longrightarrow> served E tk D ws' s s'"
  by (auto simp: served_def)

lemma deliver_source_served:
  assumes "slab_ok (wslab E)" "deliver_source E tk ev (s, ws) = (s', ws')"
  shows "served E tk {d. emitted ev d} ws' s s'" "set ws \<subseteq> set ws'"
  using deliver_source_spec [OF assms] by (auto simp: served_def)

text \<open>
  The whole loop. Without an error every source has been served in exactly the directions the
  events name; with one, in some of them. Nothing else of the reactor changes.
\<close>

definition key_served :: "('p, 'sw, 'ss, 'q, 'reg) crates \<Rightarrow> usize \<Rightarrow> dir set \<Rightarrow>
    unit io_result \<Rightarrow> waker list \<Rightarrow> ('sw, 'reg) source option \<Rightarrow> ('sw, 'reg) source option \<Rightarrow>
    bool" where
  "key_served E tk D0 res ws x y \<longleftrightarrow> (case x of
       None \<Rightarrow> y = None
     | Some s \<Rightarrow> \<exists>s' D. y = Some s' \<and> D \<subseteq> D0 \<and> (res = Inr () \<longrightarrow> D = D0) \<and> served E tk D ws s s')"

definition loop_served :: "('p, 'sw, 'ss, 'q, 'reg) crates \<Rightarrow> usize \<Rightarrow> event list \<Rightarrow>
    unit io_result \<Rightarrow> waker list \<Rightarrow> ('p, 'sw, 'ss, 'q, 'reg) reactor \<Rightarrow>
    ('p, 'sw, 'ss, 'q, 'reg) reactor \<Rightarrow> bool" where
  "loop_served E tk evs res ws r r' \<longleftrightarrow>
     (\<forall>k. key_served E tk (emitted_dirs evs k) res ws (source_at E r k) (source_at E r' k))"

lemma key_served_None [simp]: "key_served E tk D0 res ws None y \<longleftrightarrow> y = None"
  by (simp add: key_served_def)

lemma key_served_refl: "D0 = {} \<or> res \<noteq> Inr () \<Longrightarrow> key_served E tk D0 res ws x x"
  by (cases x) (auto simp: key_served_def intro!: exI [of _ "{}"])

lemma key_served_SomeE:
  assumes "key_served E tk D0 res ws (Some s) y"
  obtains s' D where "y = Some s'" "D \<subseteq> D0" "res = Inr () \<longrightarrow> D = D0" "served E tk D ws s s'"
  using assms unfolding key_served_def by auto

lemma key_served_trans:
  assumes "served E tk D1 ws1 s s1" "set ws1 \<subseteq> set ws" "key_served E tk D2 res ws (Some s1) y"
  shows "key_served E tk (D1 \<union> D2) res ws (Some s) y"
proof -
  obtain s' D where y: "y = Some s'" "D \<subseteq> D2" "res = Inr () \<longrightarrow> D = D2" "served E tk D ws s1 s'"
    using assms(3) by (rule key_served_SomeE)
  have "served E tk (D1 \<union> D) ws s s'"
    using assms(1) y(4) assms(2) by (rule served_trans)
  moreover from y(2) have "D1 \<union> D \<subseteq> D1 \<union> D2" by blast
  moreover from y(3) have "res = Inr () \<longrightarrow> D1 \<union> D = D1 \<union> D2" by blast
  ultimately have "\<exists>t D. Some s' = Some t \<and> D \<subseteq> D1 \<union> D2 \<and>
      (res = Inr () \<longrightarrow> D = D1 \<union> D2) \<and> served E tk D ws s t" by blast
  then show ?thesis by (simp only: key_served_def y(1) option.case)
qed

lemma loop_served_refl: "evs = [] \<or> res \<noteq> Inr () \<Longrightarrow> loop_served E tk evs res ws r r"
  unfolding loop_served_def by (auto intro: key_served_refl)

lemma loop_served_unknown:
  assumes "loop_served E tk evs res ws r r'" "source_at E r (ev_key ev) = None"
  shows "loop_served E tk (ev # evs) res ws r r'"
  unfolding loop_served_def
proof
  fix k
  from assms(1) have "key_served E tk (emitted_dirs evs k) res ws (source_at E r k) (source_at E r' k)"
    by (simp add: loop_served_def)
  with assms(2) show
    "key_served E tk (emitted_dirs (ev # evs) k) res ws (source_at E r k) (source_at E r' k)"
    by (cases "k = ev_key ev") simp_all
qed

lemma loop_served_step:
  assumes at: "source_at E r (ev_key ev) = Some s"
    and st: "stored_at E (ev_key ev) s1 r r1" and sv: "served E tk {d. emitted ev d} ws1 s s1"
    and rest: "loop_served E tk evs res ws r1 r'" and mono: "set ws1 \<subseteq> set ws"
  shows "loop_served E tk (ev # evs) res ws r r'"
  unfolding loop_served_def
proof
  fix k
  from st have r1: "source_at E r1 = (source_at E r)(ev_key ev \<mapsto> s1)"
    by (simp add: stored_at_def)
  from rest have *: "key_served E tk (emitted_dirs evs k) res ws (source_at E r1 k) (source_at E r' k)"
    by (simp add: loop_served_def)
  show "key_served E tk (emitted_dirs (ev # evs) k) res ws (source_at E r k) (source_at E r' k)"
  proof (cases "k = ev_key ev")
    case True
    with * r1 have "key_served E tk (emitted_dirs evs k) res ws (Some s1) (source_at E r' k)" by simp
    from key_served_trans [OF sv mono this] True at show ?thesis by simp
  next
    case False
    with * r1 show ?thesis by simp
  qed
qed

lemma deliver_events_ok:
  assumes slab: "slab_ok (wslab E)"
  shows "sources_ok E r \<Longrightarrow> deliver_events E tk evs ws r = (res, ws', r') \<Longrightarrow>
    sources_ok E r' \<and> (\<exists>h p. r' = r\<lparr>heap := h, poller := p\<rparr>) \<and> set ws \<subseteq> set ws' \<and>
    loop_served E tk evs res ws' r r'"
proof (induction evs arbitrary: ws r)
  case Nil
  then have out: "r' = r" "ws' = ws" by simp_all
  have "r = r\<lparr>heap := heap r, poller := poller r\<rparr>" by simp
  moreover have "loop_served E tk [] res ws r r" by (simp add: loop_served_refl)
  ultimately show ?case using Nil.prems(1) unfolding out by blast
next
  case (Cons ev evs)
  from Cons.prems(1) slab show ?case
  proof (cases rule: deliver_events_step [where ev = ev and tk = tk and evs = evs and ws = ws])
    case unknown
    with Cons.prems(2) have "deliver_events E tk evs ws r = (res, ws', r')" by simp
    with Cons.IH [OF Cons.prems(1)] loop_served_unknown [OF _ unknown(1)] show ?thesis by blast
  next
    case (failed s s1 ws1 r1 e)
    from failed(4) Cons.prems(2) have out: "res = Inl e" "ws' = ws1" "r' = r1" by auto
    note S = deliver_source_served [OF slab failed(2)]
    have "loop_served E tk evs res ws1 r1 r1"
      using out(1) by (intro loop_served_refl) simp
    from loop_served_step [OF failed(1) failed(3) S(1) this subset_refl]
    have "loop_served E tk (ev # evs) res ws' r r'" by (simp only: out)
    moreover from failed(3) have "sources_ok E r'" "\<exists>h p. r' = r\<lparr>heap := h, poller := p\<rparr>"
      by (simp_all add: stored_at_def out)
    ultimately show ?thesis using S(2) by (simp only: out)
  next
    case (passed s s1 ws1 r1)
    from passed(4) Cons.prems(2) have rest: "deliver_events E tk evs ws1 r1 = (res, ws', r')"
      by simp
    note S = deliver_source_served [OF slab passed(2)]
    from passed(3) obtain h p where r1: "sources_ok E r1" "r1 = r\<lparr>heap := h, poller := p\<rparr>"
      by (auto simp: stored_at_def)
    from Cons.IH [OF r1(1) rest] obtain h' p' where IH: "sources_ok E r'"
        "r' = r1\<lparr>heap := h', poller := p'\<rparr>" "set ws1 \<subseteq> set ws'" "loop_served E tk evs res ws' r1 r'"
      by blast
    then have "r' = r\<lparr>heap := h', poller := p'\<rparr>" by (simp add: r1(2))
    with IH S(2) loop_served_step [OF passed(1) passed(3) S(1) IH(4) IH(3)] show ?thesis by blast
  qed
qed

end
