(* ===== verification/Reactor_Round.thy ===== *)
theory Reactor_Round
  imports Reactor_IO
begin

text \<open>
  What registering, deregistering and a round of the reactor do to the views: \<open>source_at\<close>, the
  sources by key, and \<open>timer_view\<close>, the timers by deadline and identifier.
\<close>

lemma sources_ok_key:
  assumes "sources_ok E r" "source_at E r k = Some s"
  shows "src_key s = k"
proof (cases "sl_get (sslab E) k (sources r)")
  case None
  with assms(2) show ?thesis by (simp add: source_at_def)
next
  case (Some a)
  with assms(1) obtain s' where "src_key s' = k" "source_at E r k = Some s'" by (rule sources_okD)
  with assms(2) show ?thesis by simp
qed

section \<open>Registering and deregistering\<close>

text \<open>The source that \<open>insert_io\<close> creates.\<close>

definition new_source :: "('p, 'sw, 'ss, 'q, 'reg) crates \<Rightarrow> 'reg \<Rightarrow>
    ('p, 'sw, 'ss, 'q, 'reg) reactor \<Rightarrow> ('sw, 'reg) source" where
  "new_source E g r = \<lparr>registration = g, src_key = sl_vacant_key (sslab E) (sources r),
     src_state = (\<lambda>_. direction_default E)\<rparr>"

lemma waiting_default [simp]:
  "slab_ok (wslab E) \<Longrightarrow> waiting E (direction_default E) = {}"
  by (simp add: waiting_def direction_default_def)

lemma new_source_simps [simp]:
  "registration (new_source E g r) = g"
  "src_key (new_source E g r) = sl_vacant_key (sslab E) (sources r)"
  "src_state (new_source E g r) d = direction_default E"
  by (simp_all add: new_source_def)

lemma slot_ok_new_source [simp]: "slab_ok (wslab E) \<Longrightarrow> slot_ok E d (new_source E g r)"
  by (simp add: slot_ok_def direction_default_def)

lemma source_at_vacant:
  "slab_ok (sslab E) \<Longrightarrow> source_at E r (sl_vacant_key (sslab E) (sources r)) = None"
  by (simp add: source_at_def)

text \<open>A slab with the same pointers and a heap that only grew at a fresh address.\<close>

lemma sources_ok_alloc:
  assumes ok: "sources_ok E r" and slot: "\<And>d. slot_ok E d s"
    and key: "\<And>k a. sl_get (sslab E) k ss = Some a \<Longrightarrow>
      sl_get (sslab E) k (sources r) = Some a \<or> a = next_addr r \<and> src_key s = k"
  shows "sources_ok E (r\<lparr>sources := ss, heap := (heap r)(next_addr r \<mapsto> s),
      next_addr := Suc (next_addr r), poller := p\<rparr>)" (is "sources_ok E ?r")
  unfolding sources_ok_def
proof (intro conjI allI impI)
  fix k a assume "sl_get (sslab E) k (sources ?r) = Some a"
  then have "sl_get (sslab E) k ss = Some a" by simp
  then consider "sl_get (sslab E) k (sources r) = Some a" | "a = next_addr r" "src_key s = k"
    using key by blast
  then show "map_option src_key (heap ?r a) = Some k"
  proof cases
    case 1
    with ok obtain t where t: "heap r a = Some t" "src_key t = k" by (rule sources_okD)
    with sources_ok_heapD [OF ok, of a t] have "a \<noteq> next_addr r" by auto
    with t show ?thesis by simp
  qed simp
next
  fix a t assume "heap ?r a = Some t"
  with sources_ok_heapD [OF ok, of a t] show "a < next_addr ?r"
    by (auto simp: less_Suc_eq split: if_splits)
next
  fix a t d assume "heap ?r a = Some t"
  with sources_ok_heapD [OF ok, of a t] slot show "slot_ok E d t"
    by (auto split: if_splits)
qed

lemma insert_io_cases:
  assumes ok: "sources_ok E r" and slabs: "slab_ok (sslab E)" "slab_ok (wslab E)"
  obtains (added) p ss r' where
      "reg_add (reg_calls E) g (sl_vacant_key (sslab E) (sources r)) (poller r) = (Inr (), p)"
      "insert_io E g r = Inr (Inr (next_addr r), r')"
      "r' = r\<lparr>sources := ss, heap := (heap r)(next_addr r \<mapsto> new_source E g r),
         next_addr := Suc (next_addr r), poller := p\<rparr>"
      "sources_ok E r'"
      "source_at E r' = (source_at E r)(sl_vacant_key (sslab E) (sources r) \<mapsto> new_source E g r)"
      "\<forall>j. sl_get (sslab E) j ss = (if j = sl_vacant_key (sslab E) (sources r)
         then Some (next_addr r) else sl_get (sslab E) j (sources r))"
  | (failed) e p ss r' where
      "reg_add (reg_calls E) g (sl_vacant_key (sslab E) (sources r)) (poller r) = (Inl e, p)"
      "insert_io E g r = Inr (Inl e, r')"
      "r' = r\<lparr>sources := ss, heap := (heap r)(next_addr r \<mapsto> new_source E g r),
         next_addr := Suc (next_addr r), poller := p\<rparr>"
      "sources_ok E r'" "source_at E r' = source_at E r"
      "\<forall>j. sl_get (sslab E) j ss = sl_get (sslab E) j (sources r)"
proof -
  let ?k = "sl_vacant_key (sslab E) (sources r)" and ?a = "next_addr r"
  let ?s = "new_source E g r"
  obtain k ss where ins: "sl_insert (sslab E) ?a (sources r) = (k, ss)" by force
  note I = slab_insertD [OF slabs(1) ins]
  let ?r = "\<lambda>ss p. r\<lparr>sources := ss, heap := (heap r)(?a \<mapsto> ?s), next_addr := Suc ?a, poller := p\<rparr>"
  have fresh: "a \<noteq> ?a" if "sl_get (sslab E) j (sources r) = Some a" for j a
  proof -
    from ok that obtain t where "heap r a = Some t" by (rule sources_okD)
    with sources_ok_heapD [OF ok, of a t] show ?thesis by auto
  qed
  obtain res p where add: "reg_add (reg_calls E) g ?k (poller r) = (res, p)" by force
  show thesis
  proof (cases res)
    case (Inr u)
    have "sources_ok E (?r ss p)"
      using I slabs(2) by (intro sources_ok_alloc [OF ok]) (auto split: if_splits)
    moreover have "source_at E (?r ss p) = (source_at E r)(?k \<mapsto> ?s)"
    proof
      show "source_at E (?r ss p) j = ((source_at E r)(?k \<mapsto> ?s)) j" for j
        using I(1) I(2) [of j] fresh [of j]
        by (cases "sl_get (sslab E) j (sources r)") (auto simp: source_at_def)
    qed
    ultimately show thesis
      using add Inr ins I
      by (intro added [of p "?r ss p" ss]) (simp_all add: insert_io_def Let_def new_source_def)
  next
    case (Inl e)
    from slabs(1) obtain a ss' where rem: "sl_remove (sslab E) ?k ss = Some (a, ss')"
      "\<forall>j. sl_get (sslab E) j ss' = (if j = ?k then None else sl_get (sslab E) j ss)"
      using I by (cases rule: slab_remove_cases [where k = ?k and s = ss]) auto
    have same: "sl_get (sslab E) j ss' = sl_get (sslab E) j (sources r)" for j
      using rem(2) I(1) I(2) [of j] slabs(1) by auto
    have "sources_ok E (?r ss' p)"
      using same slabs(2) by (intro sources_ok_alloc [OF ok]) (auto split: if_splits)
    moreover have "source_at E (?r ss' p) = source_at E r"
    proof
      show "source_at E (?r ss' p) j = source_at E r j" for j
        using same [of j] fresh [of j]
        by (cases "sl_get (sslab E) j (sources r)") (auto simp: source_at_def)
    qed
    ultimately show thesis
      using add Inl ins rem(1) I(1) same
      by (intro failed [of e p "?r ss' p" ss']) (simp_all add: insert_io_def Let_def new_source_def)
  qed
qed

lemma remove_io_cases:
  assumes ok: "sources_ok E r" and slab: "slab_ok (sslab E)"
    and at: "source_at E r (src_key s) \<noteq> None"
  obtains res p ss r' where "reg_delete (reg_calls E) (registration s) (poller r) = (res, p)"
    "remove_io E s r = Inr (res, r')" "r' = r\<lparr>sources := ss, poller := p\<rparr>"
    "sources_ok E r'" "source_at E r' = (source_at E r)(src_key s := None)"
    "\<forall>j. sl_get (sslab E) j ss = (if j = src_key s then None else sl_get (sslab E) j (sources r))"
proof -
  obtain res p where del: "reg_delete (reg_calls E) (registration s) (poller r) = (res, p)" by force
  from at have "sl_get (sslab E) (src_key s) (sources r) \<noteq> None"
    by (cases "sl_get (sslab E) (src_key s) (sources r)") (simp_all add: source_at_def)
  with slab obtain a ss where rem: "sl_remove (sslab E) (src_key s) (sources r) = Some (a, ss)"
    "\<forall>j. sl_get (sslab E) j ss = (if j = src_key s then None else sl_get (sslab E) j (sources r))"
    by (cases rule: slab_remove_cases [where k = "src_key s" and s = "sources r"]) auto
  let ?r = "r\<lparr>sources := ss, poller := p\<rparr>"
  have "sources_ok E ?r" using ok rem(2) by (simp add: sources_ok_def)
  moreover have "source_at E ?r = (source_at E r)(src_key s := None)"
    using rem(2) by (simp add: source_at_def fun_eq_iff)
  ultimately show thesis
    using del rem by (intro that [of res p ?r ss]) (simp_all add: remove_io_def)
qed

text \<open>A source whose key is vacant makes \<open>remove_io\<close> panic: it was removed before.\<close>

lemma remove_io_vacant:
  assumes "sources_ok E r" "slab_ok (sslab E)" "source_at E r (src_key s) = None"
  shows "remove_io E s r = Inl Slab_Invalid_Key"
proof -
  have "sl_get (sslab E) (src_key s) (sources r) = None"
    using assms(1,3) by (metis option.exhaust option.distinct(1) sources_okD)
  with assms(2) have "sl_remove (sslab E) (src_key s) (sources r) = None"
    by (simp add: slab_remove_None)
  then show ?thesis by (simp add: remove_io_def)
qed


section \<open>A round of the reactor\<close>

text \<open>Before the wait: the due timers have left the view, the others and the sources stay.\<close>

lemma react_prepare_ok:
  assumes "timers_ok E items r" "now < instant_max"
  obtains dur ready r1 where
    "react_prepare E now timeout r =
      Inr (react_timeout dur timeout, ticker r + 1, map snd ready, r1)"
    "btree_ok ready" "map_of ready = due now (timer_view items r)"
    "timer_view items r1 = not_due now (timer_view items r)"
    "shortest_wait now (timer_view items r) dur"
    "timers_ok E items r1" "id_generator r1 = id_generator r" "poller r1 = poller r"
    "ticker r1 = ticker r + 1" "events r1 = []" "sources r1 = sources r" "heap r1 = heap r"
    "next_addr r1 = next_addr r" "woken r1 = woken r"
proof -
  from assms obtain dur ready r' where
    P: "process_timers E now [] r = Inr (dur, [] @ map snd ready, r')"
    "btree_ok ready" "map_of ready = due now (timer_view items r)"
    "timer_view items r' = not_due now (timer_view items r)"
    "shortest_wait now (timer_view items r) dur"
    "timers_ok E items r'" "same_io r r'" "id_generator r' = id_generator r"
    "poller r' = poller r"
    by (rule process_timers_ok)
  let ?r = "r'\<lparr>ticker := ticker r + 1, events := []\<rparr>"
  have view: "timer_view items ?r = timer_view items r'" "timers_ok E items ?r"
    using timers_ok_cong [OF P(6), of ?r] by simp_all
  show thesis
    by (rule that [of dur ready ?r])
      (use P view in \<open>simp_all add: react_prepare_def same_io_def\<close>)
qed

text \<open>The wait changes the buffer and the poller only.\<close>

lemma react_wait_ok:
  assumes "react_wait E t r = (res, r')"
  shows "r' = r\<lparr>events := events r', poller := poller r'\<rparr>"
    and "poller_ok (poll_calls E) \<Longrightarrow> events r = [] \<Longrightarrow> res = Inr n \<Longrightarrow> length (events r') = n"
  using assms poller_waitD [of "poll_calls E" "events r" t "poller r" n]
  by (auto simp: react_wait_def split: prod.splits)

lemma reactor_ok_buffer:
  "reactor_ok E items (r\<lparr>events := evs, poller := p\<rparr>) \<longleftrightarrow> reactor_ok E items r"
  "timer_view items (r\<lparr>events := evs, poller := p\<rparr>) = timer_view items r"
  by (simp_all add: reactor_ok_def timers_ok_def sources_ok_def timer_view_def)

lemma source_at_buffer [simp]:
  "source_at E (r\<lparr>events := evs, poller := p\<rparr>) = source_at E r"
  by (simp add: source_at_def fun_eq_iff)

lemma wake_all_simps [simp]:
  "reactor_ok E items (wake_all ws r) \<longleftrightarrow> reactor_ok E items r"
  "timer_view items (wake_all ws r) = timer_view items r"
  "source_at E (wake_all ws r) = source_at E r"
  "woken (wake_all ws r) = woken r @ ws" "ticker (wake_all ws r) = ticker r"
  "poller (wake_all ws r) = poller r" "id_generator (wake_all ws r) = id_generator r"
  by (simp_all add: wake_all_def reactor_ok_def timers_ok_def sources_ok_def timer_view_def
      source_at_def fun_eq_iff)

text \<open>After the wait: every way the round can end.\<close>

lemma react_finish_cases:
  assumes ok: "reactor_ok E items r" and now: "now < instant_max"
  obtains (idle) ready r' where "res = Inr 0" "t \<noteq> Some 0"
      "react_finish E now t tk ws res r = Inr (Inr (), r')" "reactor_ok E items r'"
      "timer_view items r' = not_due now (timer_view items r)"
      "map_of ready = due now (timer_view items r)"
      "woken r' = woken r @ ws @ map snd ready" "source_at E r' = source_at E r"
      "ticker r' = ticker r" "id_generator r' = id_generator r"
  | (spin) "res = Inr 0" "t = Some 0"
      "react_finish E now t tk ws res r = Inr (Inr (), wake_all ws r)"
  | (served) n ws' r' where "res = Inr n" "n \<noteq> 0"
      "react_finish E now t tk ws res r = Inr (Inr (), r')" "reactor_ok E items r'"
      "timer_view items r' = timer_view items r" "set ws \<subseteq> set ws'"
      "woken r' = woken r @ ws'" "loop_served E tk (events r) (Inr ()) ws' r r'"
      "ticker r' = ticker r" "id_generator r' = id_generator r"
  | (lost) n e ws' r' where "res = Inr n" "n \<noteq> 0"
      "deliver_events E tk (events r) ws r = (Inl e, ws', r')" "set ws \<subseteq> set ws'"
      "react_finish E now t tk ws res r = Inr (Inl e, r')" "reactor_ok E items r'"
      "timer_view items r' = timer_view items r" "woken r' = woken r"
      "ticker r' = ticker r" "id_generator r' = id_generator r"
  | (interrupted) "res = Inl Interrupted"
      "react_finish E now t tk ws res r = Inr (Inr (), wake_all ws r)"
  | (failed) e where "res = Inl e" "e \<noteq> Interrupted"
      "react_finish E now t tk ws res r = Inr (Inl e, wake_all ws r)"
proof (cases res)
  case (Inl e)
  then show thesis
    by (cases "e = Interrupted") (auto simp: react_finish_def intro: interrupted failed)
next
  case (Inr n)
  from ok have T: "timers_ok E items r" and S: "sources_ok E r" by (auto simp: reactor_ok_def)
  from T have slab: "slab_ok (wslab E)" by (auto simp: timers_ok_def)
  consider "n = 0" "t = Some 0" | "n = 0" "t \<noteq> Some 0" | "n \<noteq> 0" by blast
  then show thesis
  proof cases
    case 1
    then show thesis using Inr by (intro spin) (simp_all add: react_finish_def)
  next
    case 2
    from T now obtain dur ready r1 where
      P: "process_timers E now ws r = Inr (dur, ws @ map snd ready, r1)"
      "map_of ready = due now (timer_view items r)"
      "timer_view items r1 = not_due now (timer_view items r)"
      "timers_ok E items r1" "same_io r r1" "id_generator r1 = id_generator r"
      by (rule process_timers_ok)
    have "reactor_ok E items r1"
      using P(4,5) S sources_ok_same_io by (auto simp: reactor_ok_def)
    then show thesis
      using 2 Inr P source_at_same_io [OF P(5)]
      by (intro idle [of "wake_all (ws @ map snd ready) r1" ready])
        (simp_all add: react_finish_def same_io_def)
  next
    case 3
    obtain dres ws' r1 where del: "deliver_events E tk (events r) ws r = (dres, ws', r1)"
      using prod_cases3 by blast
    from deliver_events_ok [OF slab S del] obtain h p where
      D: "sources_ok E r1" "r1 = r\<lparr>heap := h, poller := p\<rparr>" "set ws \<subseteq> set ws'"
      "loop_served E tk (events r) dres ws' r r1" by blast
    have tv: "timers_ok E items r1" "timer_view items r1 = timer_view items r"
      using timers_ok_cong [OF T, of r1] by (simp_all add: D(2))
    then have ok1: "reactor_ok E items r1" using D(1) by (simp add: reactor_ok_def)
    show thesis
    proof (cases dres)
      case (Inl e)
      with 3 Inr show thesis
        using del D tv ok1 by (intro lost [of n e ws' r1]) (simp_all add: react_finish_def)
    next
      case I: (Inr u)
      have "loop_served E tk (events r) (Inr ()) ws' r (wake_all ws' r1)"
        using D(4) I by (simp add: loop_served_def)
      with 3 Inr I show thesis
        using del D(2,3) tv(2) ok1
        by (intro served [of n "wake_all ws' r1" ws']) (simp_all add: react_finish_def)
    qed
  qed
qed

end
