(* ===== verification/Interest.thy ===== *)
theory Interest
  imports Reactor_Round
begin

text \<open>
  Why no wake-up is lost: whenever a task waits on a direction of a source, the poller watches
  the source for that direction, under the source's key. The poller works in one-shot mode, so
  an event disarms the source until the reactor re-registers it; the keys in \<open>K\<close> are those whose
  event is still on its way through the reactor.
\<close>

section \<open>The invariant\<close>

definition arms :: "('p, 'sw, 'ss, 'q, 'reg) crates \<Rightarrow> ('reg \<Rightarrow> bool) \<Rightarrow> event \<Rightarrow>
    ('sw, 'reg) source \<Rightarrow> bool" where
  "arms E duplex e s \<longleftrightarrow>
     (waiting E (src_state s READ) \<noteq> {} \<longrightarrow> ev_readable e) \<and>
     (duplex (registration s) \<longrightarrow> waiting E (src_state s WRITE) \<noteq> {} \<longrightarrow> ev_writable e)"

definition interest_ok :: "('p, 'sw, 'ss, 'q, 'reg) crates \<Rightarrow> ('p \<Rightarrow> 'reg \<Rightarrow> event option) \<Rightarrow>
    ('reg \<Rightarrow> bool) \<Rightarrow> ('p \<Rightarrow> bool) \<Rightarrow> slab_key set \<Rightarrow> ('p, 'sw, 'ss, 'q, 'reg) reactor \<Rightarrow> bool" where
  "interest_ok E table duplex ok K r \<longleftrightarrow> ok (poller r) \<and>
     (\<forall>k s. source_at E r k = Some s \<longrightarrow>
        (\<exists>e. table (poller r) (registration s) = Some e \<and> ev_key e = k \<and>
           (k \<notin> K \<longrightarrow> arms E duplex e s)))"

lemma interest_okD:
  assumes "interest_ok E table duplex ok K r" "source_at E r k = Some s"
  obtains e where "table (poller r) (registration s) = Some e" "ev_key e = k"
    "k \<notin> K \<longrightarrow> arms E duplex e s"
  using assms unfolding interest_ok_def by blast

lemma interest_ok_poller: "interest_ok E table duplex ok K r \<Longrightarrow> ok (poller r)"
  by (simp add: interest_ok_def)

lemma interest_ok_inj:
  assumes "interest_ok E table duplex ok K r" "source_at E r k = Some s"
    and "source_at E r k' = Some s'" "registration s' = registration s"
  shows "k' = k"
  using assms unfolding interest_ok_def by (metis option.inject)

lemma interest_ok_mono:
  "interest_ok E table duplex ok K r \<Longrightarrow> K \<subseteq> K' \<Longrightarrow> interest_ok E table duplex ok K' r"
  unfolding interest_ok_def by blast

lemma interest_ok_unknown:
  assumes "interest_ok E table duplex ok (insert k K) r" "source_at E r k = None"
  shows "interest_ok E table duplex ok K r"
  using assms unfolding interest_ok_def by (metis insert_iff option.distinct(1))

lemma interest_ok_cong:
  assumes "interest_ok E table duplex ok K r" "source_at E r' = source_at E r"
    and "ok (poller r')" "table (poller r') = table (poller r)"
  shows "interest_ok E table duplex ok K r'"
  using assms by (simp add: interest_ok_def)

text \<open>One source and its entry change, everything else stays.\<close>

lemma interest_ok_store:
  assumes I: "interest_ok E table duplex ok K r" and at: "source_at E r k = Some s"
    and at': "source_at E r' = (source_at E r)(k \<mapsto> s')" and reg: "registration s' = registration s"
    and p: "ok (poller r')" "\<And>g. g \<noteq> registration s \<Longrightarrow> table (poller r') g = table (poller r) g"
    and e: "table (poller r') (registration s) = Some e" "ev_key e = k"
      "k \<notin> K' \<Longrightarrow> arms E duplex e s'" and K: "K - {k} \<subseteq> K'"
  shows "interest_ok E table duplex ok K' r'"
  unfolding interest_ok_def
proof (intro conjI allI impI)
  fix j t assume j: "source_at E r' j = Some t"
  show "\<exists>e. table (poller r') (registration t) = Some e \<and> ev_key e = j \<and>
      (j \<notin> K' \<longrightarrow> arms E duplex e t)"
  proof (cases "j = k")
    case True
    with j at' e reg show ?thesis by auto
  next
    case False
    with j at' have t: "source_at E r j = Some t" by simp
    with I obtain e' where e': "table (poller r) (registration t) = Some e'" "ev_key e' = j"
      "j \<notin> K \<longrightarrow> arms E duplex e' t" by (rule interest_okD)
    have "registration t \<noteq> registration s"
      using interest_ok_inj [OF I at t] False by blast
    with p(2) [of "registration t"] e' K False show ?thesis by auto
  qed
qed (rule p(1))

text \<open>
  What a poll of a direction does to the sources that have lost their registration. If nobody waited in the
  direction, a pending poll has registered the source anew.
\<close>

definition lose :: "('p, 'sw, 'ss, 'q, 'reg) crates \<Rightarrow> dir \<Rightarrow> ('sw, 'reg) source \<Rightarrow> 'a io_result poll \<Rightarrow>
    slab_key set \<Rightarrow> slab_key set" where
  "lose E d s res K = (case res of
       Poll_Ready (Inl _) \<Rightarrow> insert (src_key s) K
     | Poll_Ready (Inr _) \<Rightarrow> K
     | Poll_Pending \<Rightarrow> if waiting E (src_state s d) = {} then K - {src_key s} else K)"

lemma lose_simps [simp]:
  "lose E d s (Poll_Ready (Inl e)) K = insert (src_key s) K"
  "lose E d s (Poll_Ready (Inr x)) K = K"
  "lose E d s Poll_Pending K = (if waiting E (src_state s d) = {} then K - {src_key s} else K)"
  by (simp_all add: lose_def)

lemma lose_union: "lose E d s res (K \<union> J) \<subseteq> lose E d s res K \<union> J"
  by (auto simp: lose_def split: poll.splits sum.splits)

lemma lose_subset: "(\<And>e. res \<noteq> Poll_Ready (Inl e)) \<Longrightarrow> lose E d s res K \<subseteq> K"
  by (auto simp: lose_def split: poll.splits sum.splits)

section \<open>The poller's part\<close>

text \<open>
  The registrations of the reactor together with the wait call: it disarms at most the objects
  it reports an event for, reports them under their key, and reports none when it fails.
  Notifying leaves the table alone.
\<close>

locale interest_backend = registration_backend "reg_calls E" table duplex ok
  for E :: "('p, 'sw, 'ss, 'q, 'reg) crates" and table and duplex and ok +
  assumes wait_law: "ok p \<Longrightarrow> po_wait (poll_calls E) evs t p = (res, evs', p') \<Longrightarrow>
      ok p' \<and> (\<forall>g. table p' g = table p g \<or>
        (\<exists>n e e'. res = Inr n \<and> table p g = Some e \<and> table p' g = Some e' \<and>
           ev_key e' = ev_key e \<and> ev_key e \<in> ev_key ` set evs'))"
    and notify_law: "ok p \<Longrightarrow> po_notify (poll_calls E) p = (nres, p') \<Longrightarrow> ok p' \<and> table p' = table p"
    and slabs: "ok p \<Longrightarrow> slab_ok (wslab E) \<and> slab_ok (sslab E)"
begin

abbreviation armed where "armed \<equiv> interest_ok E table duplex ok"

text \<open>Re-registering a source arms it for everything it waits for.\<close>

lemma modify_store:
  assumes I: "armed K r" and at: "source_at E r k = Some s"
    and at': "source_at E r' = (source_at E r)(k \<mapsto> s')"
    and s': "registration s' = registration s" "src_key s' = k"
    and mod: "reg_modify (reg_calls E) (registration s') (interest_event E s') (poller r) =
      (Inr (), poller r')"
    and K: "K - {k} \<subseteq> K'"
  shows "armed K' r'"
proof -
  have p: "ok (poller r)" using I by (rule interest_ok_poller)
  then have slab: "slab_ok (wslab E)" using slabs by blast
  obtain e' where e': "table (poller r') (registration s') = Some e'" "ev_key e' = src_key s'"
    "ev_readable (interest_event E s') \<Longrightarrow> ev_readable e'"
    "duplex (registration s') \<Longrightarrow> ev_writable (interest_event E s') \<Longrightarrow> ev_writable e'"
    using modify_arms [OF p mod] by auto
  show ?thesis
  proof (rule interest_ok_store [OF I at at'])
    show "ok (poller r')" using modify_ok [OF p mod] by blast
    show "table (poller r') g = table (poller r) g" if "g \<noteq> registration s" for g
      using modify_frame [OF p mod, of g] that s' by simp
    show "table (poller r') (registration s) = Some e'" "ev_key e' = k" using e' s' by simp_all
    show "arms E duplex e' s'" using e' slab by (simp add: arms_def)
  qed (use s' K in simp_all)
qed

text \<open>A source whose waiters vanish stays as it is registered.\<close>

lemma quiet_store:
  assumes I: "armed K r" and at: "source_at E r k = Some s"
    and at': "source_at E r' = (source_at E r)(k \<mapsto> s')"
    and s': "registration s' = registration s"
    and p: "ok (poller r')" "table (poller r') = table (poller r)"
    and fewer: "\<And>d. waiting E (src_state s' d) \<noteq> {} \<Longrightarrow> k \<notin> K' \<Longrightarrow>
      k \<notin> K \<and> waiting E (src_state s d) \<noteq> {}"
    and K: "K - {k} \<subseteq> K'"
  shows "armed K' r'"
proof -
  from I at obtain e where e: "table (poller r) (registration s) = Some e" "ev_key e = k"
    "k \<notin> K \<longrightarrow> arms E duplex e s" by (rule interest_okD)
  show ?thesis
  proof (rule interest_ok_store [OF I at at' s' p(1)])
    show "table (poller r') (registration s) = Some e" using e p by simp
    show "arms E duplex e s'" if "k \<notin> K'"
      using e(3) fewer [OF _ that] s' unfolding arms_def by metis
  qed (use e p K in simp_all)
qed

text \<open>
  The last step of both ways of waiting, for a source that gains a waiter in the direction
  \<open>d\<close>. If the poller refuses, the key joins the exceptions.
\<close>

lemma update_interest_armed:
  assumes I: "armed K r" and at: "source_at E r k = Some s" and key: "src_key s = k"
    and s': "registration s' = registration s" "src_key s' = k"
    and other: "\<And>d'. d' \<noteq> d \<Longrightarrow> src_state s' d' = src_state s d'"
    and upd: "update_interest E (dir_is_empty E (src_state s d)) s' r0 = (res, r1)"
    and r0: "poller r0 = poller r"
    and at': "source_at E r' = (source_at E r)(k \<mapsto> s')" and p: "poller r' = poller r1"
  shows "armed (lose E d s res K) r'"
proof -
  have okp: "ok (poller r)" using I by (rule interest_ok_poller)
  then have slab: "slab_ok (wslab E)" using slabs by blast
  show ?thesis
  proof (cases "waiting E (src_state s d) = {}")
    case False
    with upd slab have out: "res = Poll_Pending" "r1 = r0" by (simp_all add: update_interest_def)
    have "armed K r'"
    proof (rule quiet_store [OF I at at' s'(1)])
      show "k \<notin> K \<and> waiting E (src_state s d') \<noteq> {}"
        if "waiting E (src_state s' d') \<noteq> {}" "k \<notin> K" for d'
        using that False other [of d'] by (cases "d' = d") simp_all
    qed (use okp p r0 out in simp_all)
    with out False show ?thesis by simp
  next
    case True
    obtain mres p' where mod: "reg_modify (reg_calls E) (registration s') (interest_event E s')
        (poller r) = (mres, p')" by force
    show ?thesis
    proof (cases mres)
      case (Inr u)
      with True upd mod slab r0 have out: "res = Poll_Pending" "poller r1 = p'"
        by (auto simp: update_interest_def)
      have "armed (K - {k}) r'"
        by (rule modify_store [OF I at at' s']) (use mod Inr p out in simp_all)
      with out True key show ?thesis by simp
    next
      case (Inl e)
      with True upd mod slab r0 have out: "res = Poll_Ready (Inl e)" "poller r1 = p'"
        by (auto simp: update_interest_def)
      from mod Inl have "ok p'" "table p' = table (poller r)"
        using modify_err [OF okp] by auto
      then have "armed (insert k K) r'"
        by (intro quiet_store [OF I at at' s'(1)]) (use p out in auto)
      with out key show ?thesis by simp
    qed
  qed
qed

section \<open>Every operation keeps the interest armed\<close>

lemma poll_ready_armed:
  assumes I: "armed K r" and at: "source_at E r k = Some s" and key: "src_key s = k"
    and poll: "poll_ready E d cx s r = (res, s', r1)"
    and at': "source_at E r' = (source_at E r)(k \<mapsto> s')" and p: "poller r' = poller r1"
  shows "armed (lose E d s res K) r'"
proof (cases rule: poll_ready_cases [of s d E cx r])
  case fresh
  with poll have out: "res = Poll_Ready (Inr ())" "r1 = r"
    and s': "s' = set_dir d ((src_state s d)\<lparr>ticks := None\<rparr>) s" by auto
  have "armed K r'"
    by (rule quiet_store [OF I at at'])
      (use s' p out interest_ok_poller [OF I] in \<open>auto split: if_splits\<close>)
  with out show ?thesis by simp
next
  case (same w)
  with poll have out: "res = Poll_Pending" "r1 = r" "s' = s" by auto
  have "armed K r'"
    by (rule quiet_store [OF I at at']) (use p out interest_ok_poller [OF I] in auto)
  moreover have "waiting E (src_state s d) \<noteq> {}" using same(2) by (auto simp: waiting_def)
  ultimately show ?thesis using out by simp
next
  case (registered res' r1' s1)
  with poll have out: "res' = res" "r1' = r1" "s1 = s'" by auto
  show ?thesis
    by (rule update_interest_armed [OF I at key _ _ _ registered(4) [unfolded out] _ at' p])
      (use registered(3) key out in auto)
qed

lemma ready_poll_armed:
  assumes I: "armed K r" and at: "source_at E r k = Some s" and key: "src_key s = k"
    and f: "future_ok E f d s" and poll: "ready_poll E f cx s r = Inr (res, f', s', r1)"
    and at': "source_at E r' = (source_at E r)(k \<mapsto> s')" and p: "poller r' = poller r1"
  shows "armed (lose E d s res K) r'"
  using f
proof (cases rule: ready_poll_cases [of E f d s cx r])
  case fresh
  with poll have out: "res = Poll_Ready (Inr ())" "r1 = r" "s' = s" by auto
  have "armed K r'"
    by (rule quiet_store [OF I at at']) (use p out interest_ok_poller [OF I] in auto)
  with out show ?thesis by simp
next
  case (stored res' r1' s1 f1 i sl)
  with poll have out: "res' = res" "r1' = r1" "s1 = s'" by auto
  show ?thesis
    by (rule update_interest_armed [OF I at key _ _ _ stored(10) [unfolded out] _ at' p])
      (use stored(2) key out in auto)
qed

text \<open>
  The reactor's loop re-arms what the events disarmed: if it ends without an error, only the
  exceptions it started with beyond its own events are left.
\<close>

lemma deliver_events_armed:
  "armed (K \<union> ev_key ` set evs) r \<Longrightarrow> sources_ok E r \<Longrightarrow>
     deliver_events E tk evs ws r = (Inr (), ws', r') \<Longrightarrow> armed K r'"
proof (induction evs arbitrary: ws r)
  case Nil
  then show ?case by simp
next
  case (Cons ev evs)
  have okp: "ok (poller r)" using Cons.prems(1) by (rule interest_ok_poller)
  then have slab: "slab_ok (wslab E)" using slabs by blast
  from Cons.prems(2) slab show ?case
  proof (cases rule: deliver_events_step [where ev = ev and tk = tk and evs = evs and ws = ws])
    case unknown
    have "armed (insert (ev_key ev) (K \<union> ev_key ` set evs)) r" using Cons.prems(1) by simp
    then have "armed (K \<union> ev_key ` set evs) r" using unknown(1) by (rule interest_ok_unknown)
    with Cons.IH Cons.prems unknown(2) show ?thesis by metis
  next
    case (failed s s1 ws1 r1 e)
    with Cons.prems(3) show ?thesis by simp
  next
    case (passed s s1 ws1 r1)
    from passed(3) have at': "source_at E r1 = (source_at E r)(ev_key ev \<mapsto> s1)"
      and ok1: "sources_ok E r1" by (simp_all add: stored_at_def)
    from Cons.prems(2) passed(1) have key: "src_key s = ev_key ev" by (rule sources_ok_key)
    have s1: "registration s1 = registration s" "src_key s1 = ev_key ev"
      using deliver_source_spec(1) [OF slab passed(2)] key by (simp_all add: delivered_def)
    have "armed (K \<union> ev_key ` set evs) r1"
    proof (cases "\<forall>d. waiting E (src_state s1 d) = {}")
      case True
      with passed(5) have "poller r1 = poller r" by simp
      with okp True show ?thesis
        by (intro quiet_store [OF Cons.prems(1) passed(1) at' s1(1)]) auto
    next
      case False
      with passed(5) have "reg_modify (reg_calls E) (registration s1) (interest_event E s1)
          (poller r) = (Inr (), poller r1)" by simp
      then show ?thesis
        by (rule modify_store [OF Cons.prems(1) passed(1) at' s1]) auto
    qed
    with Cons.IH Cons.prems(3) passed(4) ok1 show ?thesis by metis
  qed
qed

lemma react_wait_armed:
  assumes "armed K r" "react_wait E t r = (res, r')"
  shows "armed (K \<union> (case res of Inl _ \<Rightarrow> {} | Inr _ \<Rightarrow> ev_key ` set (events r'))) r'"
    (is "armed ?K r'")
proof -
  obtain evs p where wait: "po_wait (poll_calls E) (events r) t (poller r) = (res, evs, p)"
    and r': "r' = r\<lparr>events := evs, poller := p\<rparr>"
    using assms(2) by (auto simp: react_wait_def split: prod.splits)
  have okp: "ok (poller r)" using assms(1) by (rule interest_ok_poller)
  note W = wait_law [OF okp wait]
  show ?thesis
    unfolding interest_ok_def
  proof (intro conjI allI impI)
    show "ok (poller r')" using W by (simp add: r')
    fix k s assume "source_at E r' k = Some s"
    then have "source_at E r k = Some s" by (simp add: r')
    with assms(1) obtain e where e: "table (poller r) (registration s) = Some e" "ev_key e = k"
      "k \<notin> K \<longrightarrow> arms E duplex e s" by (rule interest_okD)
    have "table p (registration s) = Some e \<or> (\<exists>n e'. res = Inr n \<and>
        table p (registration s) = Some e' \<and> ev_key e' = k \<and> k \<in> ev_key ` set evs)"
      using conjunct2 [OF W, rule_format, of "registration s"] e by auto
    with e show "\<exists>e. table (poller r') (registration s) = Some e \<and> ev_key e = k \<and>
        (k \<notin> ?K \<longrightarrow> arms E duplex e s)" by (auto simp: r')
  qed
qed

lemma insert_io_armed:
  assumes I: "armed K r" and ok: "sources_ok E r"
    and new: "\<And>k s. source_at E r k = Some s \<Longrightarrow> registration s \<noteq> g"
    and ins: "insert_io E g r = Inr (res, r')"
  shows "armed K r'"
proof -
  have okp: "ok (poller r)" using I by (rule interest_ok_poller)
  then have sl: "slab_ok (sslab E)" "slab_ok (wslab E)" using slabs by blast+
  let ?k = "sl_vacant_key (sslab E) (sources r)" and ?s = "new_source E g r"
  from ok sl show ?thesis
  proof (cases rule: insert_io_cases [where g = g])
    case (added p ss r1)
    from added(2) ins have r1: "r1 = r'" by simp
    have p: "poller r' = p" using added(3) unfolding r1 by simp
    from add_ok [OF okp added(1)] obtain e where
      e: "ok p" "table p = (table (poller r))(g \<mapsto> e)" "ev_key e = ?k" by blast
    show ?thesis
      unfolding interest_ok_def
    proof (intro conjI allI impI)
      show "ok (poller r')" using e p by simp
      fix k s assume s: "source_at E r' k = Some s"
      show "\<exists>e. table (poller r') (registration s) = Some e \<and> ev_key e = k \<and>
          (k \<notin> K \<longrightarrow> arms E duplex e s)"
      proof (cases "k = ?k")
        case True
        with s added(5) r1 have "s = ?s" by simp
        with e p True sl show ?thesis by (simp add: arms_def)
      next
        case False
        with s added(5) r1 have "source_at E r k = Some s" by simp
        with I obtain e' where e': "table (poller r) (registration s) = Some e'" "ev_key e' = k"
          "k \<notin> K \<longrightarrow> arms E duplex e' s" by (rule interest_okD)
        have "registration s \<noteq> g"
          using \<open>source_at E r k = Some s\<close> by (rule new)
        with e' e p show ?thesis by simp
      qed
    qed
  next
    case (failed err p ss r1)
    from failed(2) ins have r1: "r1 = r'" by simp
    from add_err [OF okp failed(1)] failed(3) r1 have "ok (poller r')"
      "table (poller r') = table (poller r)" by auto
    with I failed(5) r1 show ?thesis by (intro interest_ok_cong [OF I]) auto
  qed
qed

lemma remove_io_armed:
  assumes I: "armed K r" and ok: "sources_ok E r" and at: "source_at E r (src_key s) = Some s"
    and rem: "remove_io E s r = Inr (res, r')"
  shows "armed (K - {src_key s}) r'"
proof -
  have okp: "ok (poller r)" using I by (rule interest_ok_poller)
  then have sl: "slab_ok (sslab E)" using slabs by blast
  from at have "source_at E r (src_key s) \<noteq> None" by simp
  with ok sl obtain res1 p ss r1 where
    R: "reg_delete (reg_calls E) (registration s) (poller r) = (res1, p)"
    "remove_io E s r = Inr (res1, r1)" "r1 = r\<lparr>sources := ss, poller := p\<rparr>"
    "source_at E r1 = (source_at E r)(src_key s := None)"
    by (rule remove_io_cases)
  from R(2) rem have r1: "r1 = r'" by simp
  have p: "poller r' = p" using R(3) r1 by simp
  show ?thesis
    unfolding interest_ok_def
  proof (intro conjI allI impI)
    show "ok (poller r')"
      using delete_ok [OF okp, of "registration s" p] delete_err [OF okp, of "registration s" _ p]
        R(1) p by (cases res1) auto
    fix k t assume "source_at E r' k = Some t"
    with R(4) r1 have t: "source_at E r k = Some t" "k \<noteq> src_key s" by (auto split: if_splits)
    with I obtain e where e: "table (poller r) (registration t) = Some e" "ev_key e = k"
      "k \<notin> K \<longrightarrow> arms E duplex e t" by (blast elim: interest_okD)
    have "registration t \<noteq> registration s"
      using interest_ok_inj [OF I at t(1)] t(2) by blast
    with delete_frame [OF okp R(1)] e p
    show "\<exists>e. table (poller r') (registration t) = Some e \<and> ev_key e = k \<and>
        (k \<notin> K - {src_key s} \<longrightarrow> arms E duplex e t)" using t(2) by simp
  qed
qed

text \<open>A whole round: if it ends without an error nothing stays disarmed.\<close>

lemma react_finish_armed:
  assumes ok: "reactor_ok E items r" and now: "now < instant_max"
    and I: "armed (K \<union> ev_key ` set (events r)) r"
    and empty: "res = Inr 0 \<or> (\<exists>e. res = Inl e) \<Longrightarrow> armed K r"
    and fin: "react_finish E now t tk ws res r = Inr (Inr (), r')"
  shows "armed K r'"
  using ok now
proof (cases rule: react_finish_cases [where res = res and t = t and tk = tk and ws = ws])
  case (idle ready r1)
  from idle(3) fin have r1: "r1 = r'" by simp
  from ok have "timers_ok E items r" by (simp add: reactor_ok_def)
  then obtain dur and ready' :: timer_map and r2 where
    P: "process_timers E now ws r = Inr (dur, ws @ map snd ready', r2)" "same_io r r2"
    "poller r2 = poller r" using now by (rule process_timers_ok [where ws = ws]) blast
  with idle(1,2) fin have "poller r' = poller r" by (auto simp: react_finish_def)
  with idle(1,8) r1 empty interest_ok_poller [OF I] show ?thesis
    by (intro interest_ok_cong [OF empty]) auto
next
  case spin
  with fin empty interest_ok_poller [OF I] show ?thesis
    by (intro interest_ok_cong [OF empty]) auto
next
  case (served n ws' r1)
  from served(1,2,3) fin obtain ws2 r2 where
    del: "deliver_events E tk (events r) ws r = (Inr (), ws2, r2)" and r': "r' = wake_all ws2 r2"
    by (auto simp: react_finish_def split: prod.splits sum.splits)
  have "armed K r2"
    using deliver_events_armed [OF I _ del] ok by (simp add: reactor_ok_def)
  then show ?thesis
    unfolding r' by (rule interest_ok_cong) (use \<open>armed K r2\<close> interest_ok_poller in auto)
next
  case (lost n e ws' r1)
  with fin show ?thesis by simp
next
  case interrupted
  with fin empty interest_ok_poller [OF I] show ?thesis
    by (intro interest_ok_cong [OF empty]) auto
next
  case (failed e)
  with fin show ?thesis by simp
qed

theorem react_armed:
  assumes ok: "reactor_ok E items r" and now: "now < instant_max" "now' < instant_max"
    and I: "armed K r" and react: "react E now now' timeout r = Inr (Inr (), r')"
  shows "armed K r'"
proof -
  from ok have T: "timers_ok E items r" by (simp add: reactor_ok_def)
  then obtain dur and ready :: timer_map and r1 where P:
    "react_prepare E now timeout r = Inr (react_timeout dur timeout, ticker r + 1, map snd ready, r1)"
    "timers_ok E items r1" "poller r1 = poller r" "events r1 = []" "sources r1 = sources r"
    "heap r1 = heap r" "next_addr r1 = next_addr r"
    using now(1) by (rule react_prepare_ok [where timeout = timeout]) blast
  let ?t = "react_timeout dur timeout"
  obtain res r2 where wait: "react_wait E ?t r1 = (res, r2)" by force
  have at: "source_at E r1 = source_at E r"
    by (rule ext) (simp add: source_at_def P)
  have ok1: "reactor_ok E items r1"
    using ok P by (simp add: reactor_ok_def sources_ok_def)
  have I1: "armed K r1"
    using P interest_ok_poller [OF I] at by (intro interest_ok_cong [OF I]) simp_all
  note W = react_wait_ok [OF wait]
  have ok2: "reactor_ok E items r2" using ok1 W(1) reactor_ok_buffer(1) by metis
  have poller: "poller_ok (poll_calls E)" using T by (auto simp: timers_ok_def)
  note I2 = react_wait_armed [OF I1 wait]
  from react P(1) wait have fin: "react_finish E now' ?t (ticker r + 1) (map snd ready) res r2 =
      Inr (Inr (), r')" by (simp add: react_def)
  show ?thesis
  proof (rule react_finish_armed [OF ok2 now(2) _ _ fin])
    show "armed (K \<union> ev_key ` set (events r2)) r2"
      using I2 by (rule interest_ok_mono) (auto split: sum.splits)
    assume "res = Inr 0 \<or> (\<exists>e. res = Inl e)"
    then show "armed K r2" using I2 W(2) [OF poller P(4), of 0] by auto
  qed
qed

end

section \<open>The three platforms\<close>

text \<open>What \<open>polling\<close> documents of \<open>wait\<close> and \<open>notify\<close>, for a table of watched objects.\<close>

definition wait_ok :: "'p poller_ops \<Rightarrow> ('p \<Rightarrow> 'o \<Rightarrow> event option) \<Rightarrow> bool" where
  "wait_ok W watched \<longleftrightarrow>
     (\<forall>evs t p res evs' p'. po_wait W evs t p = (res, evs', p') \<longrightarrow>
        (\<forall>x. watched p' x = watched p x \<or>
           (\<exists>n e e'. res = Inr n \<and> watched p x = Some e \<and> watched p' x = Some e' \<and>
              ev_key e' = ev_key e \<and> ev_key e \<in> ev_key ` set evs'))) \<and>
     (\<forall>p. watched (snd (po_notify W p)) = watched p)"

lemma wait_okD:
  assumes "wait_ok W watched"
  shows "po_wait W evs t p = (res, evs', p') \<Longrightarrow> watched p' x = watched p x \<or>
      (\<exists>n e e'. res = Inr n \<and> watched p x = Some e \<and> watched p' x = Some e' \<and>
         ev_key e' = ev_key e \<and> ev_key e \<in> ev_key ` set evs')"
    and "po_notify W p = (nres, p') \<Longrightarrow> watched p' = watched p"
  using assms unfolding wait_ok_def by (blast, metis snd_conv)

text \<open>The crates around the reactor, with the registrations \<open>R\<close> of a platform.\<close>

definition platform_ok :: "('p, 'sw, 'ss, 'q, 'reg) crates \<Rightarrow> ('reg, 'p) registration_ops \<Rightarrow>
    ('p \<Rightarrow> 'o \<Rightarrow> event option) \<Rightarrow> bool" where
  "platform_ok E R watched \<longleftrightarrow> reg_calls E = R \<and> slab_ok (wslab E) \<and> slab_ok (sslab E) \<and>
     wait_ok (poll_calls E) watched"

lemma platform_waitD:
  assumes "platform_ok E R watched" "po_wait (poll_calls E) evs t p = (res, evs', p')"
  shows "watched p' x = watched p x \<or>
      (\<exists>n e e'. res = Inr n \<and> watched p x = Some e \<and> watched p' x = Some e' \<and>
         ev_key e' = ev_key e \<and> ev_key e \<in> ev_key ` set evs')"
  using assms by (intro wait_okD(1)) (simp_all add: platform_ok_def)

lemma platform_notifyD:
  assumes "platform_ok E R watched" "po_notify (poll_calls E) p = (nres, p')"
  shows "watched p' = watched p"
  using assms by (intro wait_okD(2) [of "poll_calls E"]) (simp_all add: platform_ok_def)

lemma platform_parts:
  "platform_ok E R watched \<Longrightarrow> reg_calls E = R"
  "platform_ok E R watched \<Longrightarrow> slab_ok (wslab E) \<and> slab_ok (sslab E)"
  by (simp_all add: platform_ok_def)

interpretation unix_interest: interest_backend E "unix_table watched" "\<lambda>_. True"
    "\<lambda>_. platform_ok E (unix_registration P) watched \<and> fd_calls_ok P watched" for E P watched
proof (unfold_locales, goal_cases)
  case (1 p g k p')
  then show ?case using unix_backend.add_ok [of P watched] platform_parts(1) by metis
next
  case (2 p g k err p')
  then show ?case using unix_backend.add_err [of P watched] platform_parts(1) by metis
next
  case (3 p g e p')
  then show ?case using unix_backend.modify_ok [of P watched] platform_parts(1) by metis
next
  case (4 p g e err p')
  then show ?case
    using unix_backend.modify_err [of P watched] platform_parts(1) by metis
next
  case (5 p g p')
  then show ?case using unix_backend.delete_ok [of P watched] platform_parts(1) by metis
next
  case (6 p g err p')
  then show ?case
    using unix_backend.delete_err [of P watched] platform_parts(1) by metis
next
  case (7 p evs t res evs' p')
  then show ?case using platform_waitD [of E _ watched evs t p res evs' p']
    unfolding unix_table_def by blast
next
  case (8 p nres p')
  then show ?case using platform_notifyD [of E _ watched p nres p']
    by (auto simp: unix_table_def fun_eq_iff)
next
  case (9 p)
  then show ?case using platform_parts(2) by metis
qed

interpretation kqueue_interest: interest_backend E "kqueue_table watched" is_fd
    "\<lambda>_. platform_ok E (kqueue_registration P F) watched \<and> kqueue_calls_ok P F watched"
  for E P F watched
proof (unfold_locales, goal_cases)
  case (1 p g k p')
  then show ?case
    using kqueue_backend.add_ok [of P F watched] platform_parts(1) by metis
next
  case (2 p g k err p')
  then show ?case
    using kqueue_backend.add_err [of P F watched] platform_parts(1) by metis
next
  case (3 p g e p')
  then show ?case
    using kqueue_backend.modify_ok [of P F watched] platform_parts(1) by metis
next
  case (4 p g e err p')
  then show ?case
    using kqueue_backend.modify_err [of P F watched] platform_parts(1) by metis
next
  case (5 p g p')
  then show ?case
    using kqueue_backend.delete_ok [of P F watched] platform_parts(1) by metis
next
  case (6 p g err p')
  then show ?case
    using kqueue_backend.delete_err [of P F watched] platform_parts(1) by metis
next
  case (7 p evs t res evs' p')
  then show ?case using platform_waitD [of E _ watched evs t p res evs' p']
    unfolding kqueue_table_def by blast
next
  case (8 p nres p')
  then show ?case using platform_notifyD [of E _ watched p nres p']
    by (auto simp: kqueue_table_def fun_eq_iff)
next
  case (9 p)
  then show ?case using platform_parts(2) by metis
qed

interpretation windows_interest: interest_backend E watched "\<lambda>_. True"
    "\<lambda>_. platform_ok E (windows_registration P W) watched \<and> windows_calls_ok P W watched"
  for E P W watched
proof (unfold_locales, goal_cases)
  case (1 p g k p')
  then show ?case
    using windows_backend.add_ok [of P W watched] platform_parts(1) by metis
next
  case (2 p g k err p')
  then show ?case
    using windows_backend.add_err [of P W watched] platform_parts(1) by metis
next
  case (3 p g e p')
  then show ?case
    using windows_backend.modify_ok [of P W watched] platform_parts(1) by metis
next
  case (4 p g e err p')
  then show ?case
    using windows_backend.modify_err [of P W watched] platform_parts(1) by metis
next
  case (5 p g p')
  then show ?case
    using windows_backend.delete_ok [of P W watched] platform_parts(1) by metis
next
  case (6 p g err p')
  then show ?case
    using windows_backend.delete_err [of P W watched] platform_parts(1) by metis
next
  case (7 p evs t res evs' p')
  then show ?case using platform_waitD [of E _ watched evs t p res evs' p'] by blast
next
  case (8 p nres p')
  then show ?case using platform_notifyD [of E _ watched p nres p'] by auto
next
  case (9 p)
  then show ?case using platform_parts(2) by metis
qed

end
