(* ===== verification/Sim_Crates.thy ===== *)
theory Sim_Crates
  imports Interest
begin

text \<open>
  A concrete instance of the crates the model is parametric in: a slab as a list of entries, a
  timer queue as a list, and a poller on Unix that watches descriptors in one-shot mode and
  answers from a script. It shows that the contracts can be met together, and it is what the
  theorems are evaluated on.
\<close>

section \<open>Slab\<close>

type_synonym 'v sim_slab = "'v option list"

definition sim_get :: "slab_key \<Rightarrow> 'v sim_slab \<Rightarrow> 'v option" where
  "sim_get k s = (if k < length s then s ! k else None)"

definition sim_vacant :: "'v sim_slab \<Rightarrow> slab_key" where
  "sim_vacant s = length (takeWhile (\<lambda>x. case x of None \<Rightarrow> False | Some _ \<Rightarrow> True) s)"

definition sim_insert :: "'v \<Rightarrow> 'v sim_slab \<Rightarrow> slab_key \<times> 'v sim_slab" where
  "sim_insert v s = (let k = sim_vacant s in
     (k, if k < length s then s[k := Some v] else s @ [Some v]))"

definition sim_remove :: "slab_key \<Rightarrow> 'v sim_slab \<Rightarrow> ('v \<times> 'v sim_slab) option" where
  "sim_remove k s = map_option (\<lambda>v. (v, s[k := None])) (sim_get k s)"

definition sim_put :: "slab_key \<Rightarrow> 'v \<Rightarrow> 'v sim_slab \<Rightarrow> 'v sim_slab option" where
  "sim_put k v s = map_option (\<lambda>_. s[k := Some v]) (sim_get k s)"

definition sim_iter :: "'v sim_slab \<Rightarrow> (slab_key \<times> 'v) list" where
  "sim_iter s = concat (map (\<lambda>(k, x). case x of None \<Rightarrow> [] | Some v \<Rightarrow> [(k, v)]) (enumerate 0 s))"

definition sim_slab :: "('v, 'v sim_slab) slab_ops" where
  "sim_slab = \<lparr>sl_new = [], sl_vacant_key = sim_vacant, sl_insert = sim_insert,
     sl_remove = sim_remove, sl_get = sim_get, sl_contains = (\<lambda>k s. case sim_get k s of None \<Rightarrow> False | Some _ \<Rightarrow> True),
     sl_put = sim_put, sl_iter = sim_iter, sl_update_all = (\<lambda>f. map (map_option f))\<rparr>"

lemma sim_vacant_le: "sim_vacant s \<le> length s"
  by (simp add: sim_vacant_def length_takeWhile_le)

lemma sim_get_vacant [simp]: "sim_get (sim_vacant s) s = None"
proof (cases "sim_vacant s < length s")
  case True
  then have "\<not> (case s ! sim_vacant s of None \<Rightarrow> False | Some _ \<Rightarrow> True)"
    unfolding sim_vacant_def by (rule nth_length_takeWhile)
  with True show ?thesis by (simp add: sim_get_def split: option.splits)
qed (simp add: sim_get_def)

lemma sim_get_update: "sim_get j (s[k := x]) = (if j = k \<and> k < length s then x else sim_get j s)"
  by (auto simp: sim_get_def)

lemma sim_get_append: "sim_get j (s @ [x]) = (if j = length s then x else sim_get j s)"
  by (auto simp: sim_get_def nth_append)

lemma sim_get_Some: "sim_get k s = Some v \<Longrightarrow> k < length s"
  by (auto simp: sim_get_def split: if_splits)

lemma sim_iter_iff: "(k, v) \<in> set (sim_iter s) \<longleftrightarrow> sim_get k s = Some v"
proof -
  have "(k, v) \<in> set (sim_iter s) \<longleftrightarrow> (k, Some v) \<in> set (enumerate 0 s)"
    by (force simp: sim_iter_def split: option.splits)
  then show ?thesis by (auto simp: in_set_enumerate_eq sim_get_def split: if_splits)
qed

lemma sim_get_map: "sim_get k (map (map_option f) s) = map_option f (sim_get k s)"
  by (simp add: sim_get_def)

lemma sim_slab_simps [simp]:
  "sl_new sim_slab = []" "sl_vacant_key sim_slab = sim_vacant" "sl_insert sim_slab = sim_insert"
  "sl_remove sim_slab = sim_remove" "sl_get sim_slab = sim_get" "sl_put sim_slab = sim_put"
  "sl_iter sim_slab = sim_iter" "sl_update_all sim_slab f = map (map_option f)"
  "sl_contains sim_slab k s \<longleftrightarrow> sim_get k s \<noteq> None"
  by (auto simp: sim_slab_def split: option.splits)

lemma sim_slab_ok [simp, intro]: "slab_ok sim_slab"
  unfolding slab_ok_def
proof (intro conjI)
  show "slab_get_ok sim_slab" by (simp add: slab_get_ok_def sim_get_def)
  have "sim_get k (snd (sim_insert v s)) = (if k = sim_vacant s then Some v else sim_get k s)"
    for k s and v :: 'a
    using sim_vacant_le [of s]
    by (auto simp: sim_insert_def Let_def sim_get_update sim_get_append le_less)
  then show "slab_insert_ok (sim_slab :: ('a, 'a sim_slab) slab_ops)"
    by (simp add: slab_insert_ok_def) (simp add: sim_insert_def Let_def)
  show "slab_remove_ok (sim_slab :: ('a, 'a sim_slab) slab_ops)"
    by (auto simp: slab_remove_ok_def sim_remove_def sim_get_update dest: sim_get_Some
        split: option.splits)
  show "slab_put_ok (sim_slab :: ('a, 'a sim_slab) slab_ops)"
    by (auto simp: slab_put_ok_def sim_put_def sim_get_update dest: sim_get_Some
        split: option.splits)
  show "slab_iter_ok (sim_slab :: ('a, 'a sim_slab) slab_ops)"
    by (simp add: slab_iter_ok_def sim_iter_iff sim_get_map)
qed

section \<open>Timer queue\<close>

definition sim_queue :: "(timer_op, timer_op list) queue_ops" where
  "sim_queue = \<lparr>cq_bounded = (\<lambda>_. []),
     cq_push = (\<lambda>x q. if length q < timer_queue_size False then (True, q @ [x]) else (False, q)),
     cq_pop = (\<lambda>q. case q of [] \<Rightarrow> (None, []) | x # xs \<Rightarrow> (Some x, xs)),
     cq_capacity = (\<lambda>_. Some (timer_queue_size False))\<rparr>"

lemma sim_queue_ok [simp, intro]: "queue_ok sim_queue id (timer_queue_size False)"
  by (auto simp: queue_ok_def sim_queue_def timer_queue_size_def split: list.splits)

section \<open>Poller\<close>

record sim_poller =
  sp_watched :: "raw_fd \<Rightarrow> event option"
  sp_script :: "event list io_result list"   \<comment> \<open>the outcomes of the next waits\<close>
  sp_refuse :: "io_error option list"         \<comment> \<open>the errors of the next calls to modify\<close>
  sp_notified :: nat
  sp_nonblock :: "raw_fd \<Rightarrow> bool"           \<comment> \<open>descriptors in non-blocking mode\<close>
  sp_data :: "raw_fd \<Rightarrow> 8 word list"        \<comment> \<open>bytes that can be read\<close>
  sp_open :: "raw_fd list"
  sp_closed :: "raw_fd list"

definition sim_disarm :: "event list \<Rightarrow> (raw_fd \<Rightarrow> event option) \<Rightarrow> raw_fd \<Rightarrow> event option" where
  "sim_disarm evs f = (\<lambda>fd. map_option (\<lambda>e.
     if list_ex (\<lambda>ev. ev_key ev = ev_key e) evs then event_none (ev_key e) else e) (f fd))"

definition sim_wait :: "event list \<Rightarrow> duration option \<Rightarrow> sim_poller \<Rightarrow>
    nat io_result \<times> event list \<times> sim_poller" where
  "sim_wait evs t p = (case sp_script p of
       [] \<Rightarrow> (Inr 0, evs, p)
     | Inl e # rest \<Rightarrow> (Inl e, evs, p\<lparr>sp_script := rest\<rparr>)
     | Inr new # rest \<Rightarrow> (Inr (length new), evs @ new,
         p\<lparr>sp_script := rest, sp_watched := sim_disarm new (sp_watched p)\<rparr>))"

definition sim_polling :: "sim_poller poller_ops" where
  "sim_polling = \<lparr>po_notify = (\<lambda>p. (Inr (), p\<lparr>sp_notified := Suc (sp_notified p)\<rparr>)),
     po_wait = sim_wait\<rparr>"

definition sim_set :: "raw_fd \<Rightarrow> event option \<Rightarrow> sim_poller \<Rightarrow> sim_poller" where
  "sim_set fd e p = p\<lparr>sp_watched := (sp_watched p)(fd := e)\<rparr>"

definition sim_fd_calls :: "(raw_fd, sim_poller) poller_fd_ops" where
  "sim_fd_calls = \<lparr>
     po_add = (\<lambda>fd e p. if sp_watched p fd = None then (Inr (), sim_set fd (Some e) p)
       else (Inl (Os_Error 17), p)),
     po_modify = (\<lambda>fd e p. case sp_refuse p of
         Some err # rest \<Rightarrow> (Inl err, p\<lparr>sp_refuse := rest\<rparr>)
       | _ \<Rightarrow> (let p' = p\<lparr>sp_refuse := tl (sp_refuse p)\<rparr> in
           if sp_watched p fd = None then (Inl (Os_Error 2), p')
           else (Inr (), sim_set fd (Some e) p'))),
     po_delete = (\<lambda>fd p. if sp_watched p fd = None then (Inl (Os_Error 2), p)
       else (Inr (), sim_set fd None p))\<rparr>"

lemma sim_fd_calls_ok [simp, intro]: "fd_calls_ok sim_fd_calls sp_watched"
  by (auto simp: fd_calls_ok_def sim_fd_calls_def sim_set_def Let_def
      split: list.splits option.splits)

lemma sim_polling_ok [simp, intro]: "poller_ok sim_polling"
  by (auto simp: poller_ok_def sim_polling_def sim_wait_def split: list.splits sum.splits)

lemma sim_disarm_cases:
  "sim_disarm evs f x = f x \<or> (\<exists>e. f x = Some e \<and> sim_disarm evs f x = Some (event_none (ev_key e)) \<and>
     ev_key e \<in> ev_key ` set evs)"
  by (cases "f x") (auto simp: sim_disarm_def list_ex_iff image_iff, metis)

lemma sim_wait_ok [simp, intro]: "wait_ok sim_polling sp_watched"
  unfolding wait_ok_def
proof (intro conjI allI impI)
  fix evs t p and res :: "nat io_result" and evs' p' x
  assume "po_wait sim_polling evs t p = (res, evs', p')"
  then have w: "sim_wait evs t p = (res, evs', p')" by (simp add: sim_polling_def)
  show "sp_watched p' x = sp_watched p x \<or> (\<exists>n e e'. res = Inr n \<and> sp_watched p x = Some e \<and>
      sp_watched p' x = Some e' \<and> ev_key e' = ev_key e \<and> ev_key e \<in> ev_key ` set evs')"
  proof (cases "\<exists>new rest. sp_script p = Inr new # rest")
    case True
    then obtain new rest where "sp_script p = Inr new # rest" by blast
    with w have "res = Inr (length new)" "evs' = evs @ new"
      "sp_watched p' = sim_disarm new (sp_watched p)" by (auto simp: sim_wait_def)
    with sim_disarm_cases [of new "sp_watched p" x] show ?thesis by (auto simp: event_none_def)
  next
    case False
    with w have "sp_watched p' = sp_watched p"
      by (auto simp: sim_wait_def split: list.splits sum.splits)
    then show ?thesis by simp
  qed
qed (simp add: sim_polling_def)

section \<open>All crates\<close>

type_synonym sim_sw = "waker option sim_slab"
type_synonym sim_ss = "addr sim_slab"
type_synonym sim_reactor = "(sim_poller, sim_sw, sim_ss, timer_op list, registration_unix) reactor"

text \<open>Every waker wakes only itself.\<close>

definition sim :: "(sim_poller, sim_sw, sim_ss, timer_op list, registration_unix) crates" where
  "sim = \<lparr>will_wake = (=), wslab = sim_slab, sslab = sim_slab, queue = sim_queue,
     poll_calls = sim_polling, reg_calls = unix_registration sim_fd_calls, on_espidf = False\<rparr>"

lemma sim_simps [simp]:
  "will_wake sim = (=)" "wslab sim = sim_slab" "sslab sim = sim_slab" "queue sim = sim_queue"
  "poll_calls sim = sim_polling" "reg_calls sim = unix_registration sim_fd_calls"
  "on_espidf sim = False"
  by (simp_all add: sim_def)

lemma sim_ok [simp, intro]: "crates_ok sim id"
  by (simp add: crates_ok_def)

lemma sim_platform_ok [simp, intro]: "platform_ok sim (unix_registration sim_fd_calls) sp_watched"
  by (simp add: platform_ok_def)

text \<open>A reactor before any operation, whose poller answers from a script.\<close>

definition sim_poller_new :: "event list io_result list \<Rightarrow> io_error option list \<Rightarrow> sim_poller" where
  "sim_poller_new script refuse =
     \<lparr>sp_watched = Map.empty, sp_script = script, sp_refuse = refuse, sp_notified = 0,
      sp_nonblock = (\<lambda>_. False), sp_data = (\<lambda>_. []), sp_open = [], sp_closed = []\<rparr>"

definition sim_reactor :: "event list io_result list \<Rightarrow> io_error option list \<Rightarrow> sim_reactor" where
  "sim_reactor script refuse = reactor_new sim (sim_poller_new script refuse)"

lemma sim_reactor_ok [simp, intro]: "reactor_ok sim id (sim_reactor script refuse)"
  unfolding sim_reactor_def by (rule reactor_ok_new [OF sim_ok])

lemma sim_reactor_timers_ok [simp, intro]: "timers_ok sim id (sim_reactor script refuse)"
  using sim_reactor_ok [of script refuse] by (simp add: reactor_ok_def)

text \<open>The queue is applied as a whole.\<close>

lemma sim_process_timer_ops:
  assumes "length (timer_ops r) \<le> timer_queue_size False"
  shows "process_timer_ops sim r =
    Inr (r\<lparr>timer_ops := [], timers := fold apply_timer_op (timer_ops r) (timers r)\<rparr>)"
proof -
  obtain q m where
    drain: "drain_timer_ops sim_queue (timer_queue_size False) (timer_ops r) (timers r) = (q, m)" by force
  have "cq_capacity sim_queue (timer_ops r) = Some (timer_queue_size False)"
    by (simp add: sim_queue_def)
  with drain_timer_ops_eq [OF sim_queue_ok drain] assms drain show ?thesis
    by (simp add: process_timer_ops_def)
qed

lemma sim_process_timers:
  assumes "length (timer_ops r) \<le> timer_queue_size False" "now < instant_max"
    and "fold apply_timer_op (timer_ops r) (timers r) = m"
    and "btree_split_off (now + 1, 0 :: usize) m = (ready, pending)"
  shows "process_timers sim now ws r = Inr
    (if ready = [] then map_option (\<lambda>(t, _). saturating_duration_since t now) (btree_first_key pending)
     else Some 0, ws @ map snd ready, r\<lparr>timer_ops := [], timers := pending\<rparr>)"
  using assms by (simp add: process_timers_def sim_process_timer_ops instant_add_nanosecond)

lemma sim_push_timer_op:
  assumes "length (timer_ops r) < timer_queue_size False"
  shows "push_timer_op sim op r = Some (Inr (r\<lparr>timer_ops := timer_ops r @ [op]\<rparr>))"
  using assms by (subst push_timer_op.simps) (simp add: sim_queue_def)

lemma sim_insert_timer:
  assumes "length (timer_ops r) < timer_queue_size False"
  shows "insert_timer sim t w r = Some (Inr (id_generator r, r\<lparr>id_generator := id_generator r + 1,
    timer_ops := timer_ops r @ [Timer_Insert t (id_generator r) w],
    poller := (poller r)\<lparr>sp_notified := Suc (sp_notified (poller r))\<rparr>\<rparr>))"
  using assms by (simp add: insert_timer_def Let_def sim_push_timer_op reactor_notify_def
      sim_polling_def)

lemma early_instant: "t < 1000 \<Longrightarrow> t < instant_max"
  by (simp add: instant_max_def nanos_per_sec_def)

end
