(* ===== verification/Handles.thy ===== *)
theory Handles
  imports Interest
begin

text \<open>
  The operations on a source as its owners call them, through an \<open>Arc<Source>\<close>: the source is
  read from the store, polled, and written back. A handle keeps its source allocated, and an
  open handle keeps it in the reactor's slab (\<open>live\<close>).
\<close>

section \<open>Calls through a pointer\<close>

text \<open>A dangling address does not exist in the program; the branch is unreachable.\<close>

definition deref :: "addr \<Rightarrow> ('p, 'sw, 'ss, 'q, 'reg) reactor \<Rightarrow> panic + ('sw, 'reg) source" where
  "deref a r = or_panic Unreachable_Code (heap r a)"

definition put_source :: "addr \<Rightarrow> ('sw, 'reg) source \<Rightarrow> ('p, 'sw, 'ss, 'q, 'reg) reactor \<Rightarrow>
    ('p, 'sw, 'ss, 'q, 'reg) reactor" where
  "put_source a s r = r\<lparr>heap := (heap r)(a \<mapsto> s)\<rparr>"

definition poll_source :: "('p, 'sw, 'ss, 'q, 'reg) crates \<Rightarrow> dir \<Rightarrow> waker \<Rightarrow> addr \<Rightarrow>
    ('p, 'sw, 'ss, 'q, 'reg) reactor \<Rightarrow>
    panic + unit io_result poll \<times> ('p, 'sw, 'ss, 'q, 'reg) reactor" where
  "poll_source E d cx a r = rbind (deref a r) (\<lambda>s.
     case poll_ready E d cx s r of (res, s', r') \<Rightarrow> Inr (res, put_source a s' r'))"

definition poll_future :: "('p, 'sw, 'ss, 'q, 'reg) crates \<Rightarrow> ready_future \<Rightarrow> waker \<Rightarrow> addr \<Rightarrow>
    ('p, 'sw, 'ss, 'q, 'reg) reactor \<Rightarrow>
    panic + unit io_result poll \<times> ready_future \<times> ('p, 'sw, 'ss, 'q, 'reg) reactor" where
  "poll_future E f cx a r = rbind (deref a r) (\<lambda>s.
     rbind (ready_poll E f cx s r) (\<lambda>(res, f', s', r'). Inr (res, f', put_source a s' r')))"

definition drop_future :: "('p, 'sw, 'ss, 'q, 'reg) crates \<Rightarrow> ready_future \<Rightarrow> addr \<Rightarrow>
    ('p, 'sw, 'ss, 'q, 'reg) reactor \<Rightarrow> panic + ('p, 'sw, 'ss, 'q, 'reg) reactor" where
  "drop_future E f a r = rbind (deref a r) (\<lambda>s.
     rbind (ready_drop E f s) (\<lambda>s'. Inr (put_source a s' r)))"

section \<open>Live sources\<close>

definition live :: "('p, 'sw, 'ss, 'q, 'reg) crates \<Rightarrow> ('p, 'sw, 'ss, 'q, 'reg) reactor \<Rightarrow>
    addr \<Rightarrow> ('sw, 'reg) source \<Rightarrow> bool" where
  "live E r a s \<longleftrightarrow> heap r a = Some s \<and> sl_get (sslab E) (src_key s) (sources r) = Some a"

lemma live_source_at: "live E r a s \<Longrightarrow> source_at E r (src_key s) = Some s"
  by (simp add: live_def source_at_def)

lemma deref_live [simp]: "live E r a s \<Longrightarrow> deref a r = Inr s"
  by (simp add: live_def deref_def)

text \<open>Writing a live source back.\<close>

lemma put_source_live:
  assumes ok: "sources_ok E r" and a: "live E r a s"
    and s': "src_key s' = src_key s" "\<And>d. slot_ok E d s'"
    and r': "sources r' = sources r" "heap r' = heap r" "next_addr r' = next_addr r"
  shows "source_at E (put_source a s' r') = (source_at E r)(src_key s \<mapsto> s')"
    and "sources_ok E (put_source a s' r')" "live E (put_source a s' r') a s'"
proof -
  have S: "stored_at E (src_key s) s' r (r\<lparr>heap := (heap r)(a \<mapsto> s'), poller := poller r'\<rparr>)"
    using a by (intro stored_at_update [OF ok _ _ s'(1) s'(2)]) (simp_all add: live_def)
  show "source_at E (put_source a s' r') = (source_at E r)(src_key s \<mapsto> s')"
  proof -
    have "source_at E (put_source a s' r') =
        source_at E (r\<lparr>heap := (heap r)(a \<mapsto> s'), poller := poller r'\<rparr>)"
      by (rule ext) (simp add: put_source_def source_at_def r')
    with S show ?thesis by (simp add: stored_at_def)
  qed
  show "sources_ok E (put_source a s' r')"
    using S r' by (simp add: stored_at_def put_source_def sources_ok_def)
  show "live E (put_source a s' r') a s'"
    using a s'(1) r' by (simp add: live_def put_source_def)
qed

text \<open>What a poll can change of the reactor: the poller and the history of wakes.\<close>

lemma poll_ready_frame:
  assumes "poll_ready E d cx s r = (res, s', r')"
  shows "\<exists>p ws. r' = r\<lparr>poller := p, woken := woken r @ ws\<rparr>"
    and "src_key s' = src_key s" "registration s' = registration s"
    and "\<And>d'. d' \<noteq> d \<Longrightarrow> src_state s' d' = src_state s d'"
    and "\<And>d'. tick (src_state s' d') = tick (src_state s d')"
    and "\<And>d'. slot_ok E d' s \<Longrightarrow> slot_ok E d' s'"
proof -
  have keep: "slot_ok E d' s'" if "slot_ok E d' s" "d' \<noteq> d" "src_state s' d' = src_state s d'" for d'
    using that by (simp add: slot_ok_def)
  have "(\<exists>p ws. r' = r\<lparr>poller := p, woken := woken r @ ws\<rparr>) \<and> src_key s' = src_key s \<and>
      registration s' = registration s \<and> (\<forall>d'. d' \<noteq> d \<longrightarrow> src_state s' d' = src_state s d') \<and>
      (\<forall>d'. tick (src_state s' d') = tick (src_state s d')) \<and>
      (slot_ok E d s \<longrightarrow> slot_ok E d s')"
  proof (cases rule: poll_ready_cases [of s d E cx r])
    case fresh
    from assms fresh have r': "r' = r"
      and s': "s' = set_dir d ((src_state s d)\<lparr>ticks := None\<rparr>) s" by auto
    have "dwaker (src_state s d) = None" if "slot_ok E d s"
      using that fresh(1) by (cases "dwaker (src_state s d)") (auto simp: slot_ok_def)
    then have "slot_ok E d s \<longrightarrow> slot_ok E d s'" by (auto simp: slot_ok_def s')
    moreover have "\<exists>p ws. r' = r\<lparr>poller := p, woken := woken r @ ws\<rparr>"
      by (rule exI [of _ "poller r"], rule exI [of _ "[]"]) (simp add: r')
    ultimately show ?thesis by (simp add: s')
  next
    case (same w)
    with assms show ?thesis by (auto intro!: exI [of _ "poller r"] exI [of _ "[]"])
  next
    case (registered res1 r1 s1)
    with assms have eqs: "res1 = res" "r1 = r'" "s1 = s'" by auto
    let ?ws = "option_list (dwaker (src_state s d))"
    have "\<exists>p. r' = r\<lparr>woken := woken r @ ?ws, poller := p\<rparr>"
      using update_interest_cases [of E "dir_is_empty E (src_state s d)" s' "r\<lparr>woken := woken r @ ?ws\<rparr>"]
        registered(4) unfolding eqs by (metis snd_conv)
    then obtain p where p: "r' = r\<lparr>woken := woken r @ ?ws, poller := p\<rparr>" by blast
    have "r' = r\<lparr>poller := p, woken := woken r @ ?ws\<rparr>" unfolding p by (cases r) simp
    with registered(3) eqs show ?thesis by (auto simp: slot_ok_def)
  qed
  then show "\<exists>p ws. r' = r\<lparr>poller := p, woken := woken r @ ws\<rparr>" "src_key s' = src_key s"
    "registration s' = registration s" "\<And>d'. d' \<noteq> d \<Longrightarrow> src_state s' d' = src_state s d'"
    "\<And>d'. tick (src_state s' d') = tick (src_state s d')"
    "slot_ok E d' s \<Longrightarrow> slot_ok E d' s'" for d'
    using keep [of d'] by (cases "d' = d"; blast)+
qed

lemma ready_poll_frame:
  assumes "future_ok E f d s" "ready_poll E f cx s r = Inr (res, f', s', r')"
  shows "\<exists>p. r' = r\<lparr>poller := p\<rparr>"
    and "src_key s' = src_key s" "registration s' = registration s" "rf_dir f' = d"
    and "\<And>d'. d' \<noteq> d \<Longrightarrow> src_state s' d' = src_state s d'"
    and "\<And>d'. tick (src_state s' d') = tick (src_state s d')"
    and "\<And>d'. slot_ok E d' s \<Longrightarrow> slot_ok E d' s'"
proof -
  have "(\<exists>p. r' = r\<lparr>poller := p\<rparr>) \<and> src_key s' = src_key s \<and> rf_dir f' = d \<and>
      registration s' = registration s \<and> (\<forall>d'. d' \<noteq> d \<longrightarrow> src_state s' d' = src_state s d') \<and>
      (\<forall>d'. tick (src_state s' d') = tick (src_state s d')) \<and>
      (\<forall>d'. dwaker (src_state s' d') = dwaker (src_state s d') \<and>
         ticks (src_state s' d') = ticks (src_state s d'))"
    using assms(1)
  proof (cases rule: ready_poll_cases [of E f d s cx r])
    case fresh
    with assms show ?thesis
      by (auto simp: future_ok_def intro!: exI [of _ "poller r"])
  next
    case (stored res1 r1 s1 f1 i sl)
    with assms(2) have eqs: "res1 = res" "r1 = r'" "s1 = s'" "f1 = f'" by auto
    have "\<exists>p. r' = r\<lparr>poller := p\<rparr>"
      using update_interest_cases [of E "dir_is_empty E (src_state s d)" s' r]
        stored(10) unfolding eqs by (metis snd_conv)
    with stored(2,6) show ?thesis unfolding eqs by auto
  qed
  then show "\<exists>p. r' = r\<lparr>poller := p\<rparr>" "src_key s' = src_key s" "rf_dir f' = d"
    "registration s' = registration s" "\<And>d'. d' \<noteq> d \<Longrightarrow> src_state s' d' = src_state s d'"
    "\<And>d'. tick (src_state s' d') = tick (src_state s d')"
    "\<And>d'. slot_ok E d' s \<Longrightarrow> slot_ok E d' s'"
    unfolding slot_ok_def by simp_all
qed

section \<open>Polls of a live source\<close>

lemma reactor_ok_put_source:
  assumes ok: "reactor_ok E items r" and a: "live E r a s"
    and s': "src_key s' = src_key s" "\<And>d. slot_ok E d s'"
  shows "reactor_ok E items (put_source a s' (r\<lparr>poller := p, woken := ws\<rparr>))"
    and "timer_view items (put_source a s' (r\<lparr>poller := p, woken := ws\<rparr>)) = timer_view items r"
proof -
  let ?r = "r\<lparr>poller := p, woken := ws\<rparr>"
  from ok have T: "timers_ok E items r" and S: "sources_ok E r" by (auto simp: reactor_ok_def)
  have "timers_ok E items (put_source a s' ?r)"
    "timer_view items (put_source a s' ?r) = timer_view items r"
    using timers_ok_cong [OF T, of "put_source a s' ?r"] by (simp_all add: put_source_def)
  moreover have "sources_ok E (put_source a s' ?r)"
    by (rule put_source_live(2) [OF S a s']) simp_all
  ultimately show "reactor_ok E items (put_source a s' ?r)"
    "timer_view items (put_source a s' ?r) = timer_view items r" by (simp_all add: reactor_ok_def)
qed

lemma live_slot_ok: "sources_ok E r \<Longrightarrow> live E r a s \<Longrightarrow> slot_ok E d s"
  using sources_ok_heapD [of E r a s d] by (simp add: live_def)

lemma reactor_ok_poller [simp]: "reactor_ok E items (r\<lparr>poller := p\<rparr>) \<longleftrightarrow> reactor_ok E items r"
  by (simp add: reactor_ok_def timers_ok_def sources_ok_def)

lemma live_poller [simp]: "live E (r\<lparr>poller := p\<rparr>) x s \<longleftrightarrow> live E r x s"
  by (simp add: live_def)

lemma source_at_poller [simp]: "source_at E (r\<lparr>poller := p\<rparr>) = source_at E r"
  by (simp add: source_at_def fun_eq_iff)

text \<open>Registering another source leaves the live ones live.\<close>

lemma insert_io_keeps_live:
  assumes ok: "reactor_ok E items r" and x: "live E r x s" and ins: "insert_io E g r = Inr (res, r')"
  shows "live E r' x s"
proof -
  from ok have slabs: "slab_ok (sslab E)" "slab_ok (wslab E)" and src: "sources_ok E r"
    by (auto simp: reactor_ok_def timers_ok_def)
  from x have xs: "heap r x = Some s" "sl_get (sslab E) (src_key s) (sources r) = Some x" by (simp_all add: live_def)
  have "x \<noteq> next_addr r" using sources_ok_heapD [OF src xs(1)] by auto
  moreover have "src_key s \<noteq> sl_vacant_key (sslab E) (sources r)"
    using xs(2) slab_get_vacant [OF slabs(1), of "sources r"] by auto
  moreover from src slabs obtain ss p where "r' = r\<lparr>sources := ss, heap := (heap r)(next_addr r \<mapsto> new_source E g r),
      next_addr := Suc (next_addr r), poller := p\<rparr>"
    "\<forall>j. j \<noteq> sl_vacant_key (sslab E) (sources r) \<longrightarrow> sl_get (sslab E) j ss = sl_get (sslab E) j (sources r)"
    by (rule insert_io_cases [where g = g]) (use ins in auto)
  ultimately show ?thesis using xs by (simp add: live_def)
qed

text \<open>Neither kind of poll panics on a live source, and both keep the reactor well formed.\<close>

lemma poll_source_cases:
  assumes ok: "reactor_ok E items r" and a: "live E r a s"
  obtains res s' p ws r' where "poll_ready E d cx s r = (res, s', r\<lparr>poller := p, woken := woken r @ ws\<rparr>)"
    "poll_source E d cx a r = Inr (res, r')"
    "r' = put_source a s' (r\<lparr>poller := p, woken := woken r @ ws\<rparr>)"
    "reactor_ok E items r'" "live E r' a s'" "timer_view items r' = timer_view items r"
    "source_at E r' = (source_at E r)(src_key s \<mapsto> s')"
proof -
  from ok have S: "sources_ok E r" by (simp add: reactor_ok_def)
  obtain res s' r1 where poll: "poll_ready E d cx s r = (res, s', r1)" using prod_cases3 by blast
  note F = poll_ready_frame [OF poll]
  from F(1) obtain p ws where r1: "r1 = r\<lparr>poller := p, woken := woken r @ ws\<rparr>" by blast
  have slot: "\<And>d. slot_ok E d s'" using F(6) live_slot_ok [OF S a] by blast
  show thesis
    using poll r1 a reactor_ok_put_source [OF ok a F(2) slot, where p = p and ws = "woken r @ ws"] put_source_live [OF S a F(2) slot, of r1]
    by (intro that [where p = p and ws = ws and s' = s']) (simp_all add: poll_source_def)
qed

lemma poll_future_cases:
  assumes ok: "reactor_ok E items r" and a: "live E r a s" and f: "future_ok E f d s"
  obtains res f' s' p r' where "ready_poll E f cx s r = Inr (res, f', s', r\<lparr>poller := p\<rparr>)"
    "poll_future E f cx a r = Inr (res, f', r')" "r' = put_source a s' (r\<lparr>poller := p\<rparr>)"
    "reactor_ok E items r'" "live E r' a s'" "timer_view items r' = timer_view items r"
    "source_at E r' = (source_at E r)(src_key s \<mapsto> s')"
proof -
  from ok have S: "sources_ok E r" by (simp add: reactor_ok_def)
  have "\<exists>out. ready_poll E f cx s r = Inr out"
    using rp.no_panic [OF f, of cx r] by (cases "ready_poll E f cx s r") (auto simp: ready_poll_as_def)
  then obtain res f' s' r1 where poll: "ready_poll E f cx s r = Inr (res, f', s', r1)" by force
  note F = ready_poll_frame [OF f poll]
  from F(1) obtain p where r1: "r1 = r\<lparr>poller := p\<rparr>" by blast
  have slot: "\<And>d. slot_ok E d s'" using F(7) live_slot_ok [OF S a] by blast
  show thesis
    using poll r1 a reactor_ok_put_source [OF ok a F(2) slot, where p = p and ws = "woken r"]
      put_source_live [OF S a F(2) slot, of r1]
    by (intro that [of res f' s' p "put_source a s' r1"]) (simp_all add: poll_future_def)
qed

lemma drop_future_cases:
  assumes ok: "reactor_ok E items r" and a: "live E r a s"
  obtains s' r' where "ready_drop E f s = Inr s'" "drop_future E f a r = Inr r'"
    "r' = put_source a s' r" "reactor_ok E items r'" "live E r' a s'"
    "source_at E r' = (source_at E r)(src_key s \<mapsto> s')" "registration s' = registration s"
    "\<And>d. waiting E (src_state s' d) \<subseteq> waiting E (src_state s d)"
    "\<And>d. tick (src_state s' d) = tick (src_state s d)"
proof -
  from ok have S: "sources_ok E r" and slab: "slab_ok (wslab E)"
    by (auto simp: reactor_ok_def timers_ok_def)
  let ?d = "rf_dir f"
  from slab obtain s' where D: "ready_drop E f s = Inr s'" "src_key s' = src_key s"
    "registration s' = registration s" "\<And>d. d \<noteq> ?d \<Longrightarrow> src_state s' d = src_state s d"
    "\<And>k. sl_get (wslab E) k (wakers (src_state s' ?d)) =
       (if rf_index f = Some k then None else sl_get (wslab E) k (wakers (src_state s ?d)))"
    "dwaker (src_state s' ?d) = dwaker (src_state s ?d)"
    "ticks (src_state s' ?d) = ticks (src_state s ?d)"
    "tick (src_state s' ?d) = tick (src_state s ?d)"
    using ready_drop_spec [of E f s] by metis
  have same: "waiting E (src_state s' d) \<subseteq> waiting E (src_state s d)" "slot_ok E d s'"
    "tick (src_state s' d) = tick (src_state s d)" for d
    using D(4) [of d] D(5-8) live_slot_ok [OF S a, of d]
    by (cases "d = ?d"; auto simp: waiting_def slot_ok_def split: if_splits)+
  have r: "r\<lparr>poller := poller r, woken := woken r\<rparr> = r" by simp
  show thesis
    using D(1,3) a same reactor_ok_put_source(1) [OF ok a D(2) same(2), where p = "poller r" and ws = "woken r"]
      put_source_live [OF S a D(2) same(2), of r]
    by (intro that [of s' "put_source a s' r"]) (simp_all add: drop_future_def r)
qed

lemma poll_source_reactor_ok:
  assumes "reactor_ok E items r" "live E r a s" "poll_source E d cx a r = Inr (res, r')"
  shows "reactor_ok E items r'"
  using assms(1,2)
proof (cases rule: poll_source_cases [where d = d and cx = cx])
  case (1 res1 s' p ws r1)
  with assms(3) show ?thesis by simp
qed

text \<open>And both keep the poller armed, unless it refuses.\<close>

context interest_backend begin

lemma poll_source_armed:
  assumes ok: "reactor_ok E items r" and a: "live E r a s" and I: "armed K r"
    and poll: "poll_source E d cx a r = Inr (res, r')"
  shows "armed (lose E d s res K) r'"
  using ok a
proof (cases rule: poll_source_cases [where d = d and cx = cx])
  case (1 res' s' p ws r1)
  with poll have "res' = res" "r1 = r'" by auto
  with 1 show ?thesis
    by (intro poll_ready_armed [OF I live_source_at [OF a] refl]) (auto simp: put_source_def)
qed

lemma poll_future_armed:
  assumes ok: "reactor_ok E items r" and a: "live E r a s" and f: "future_ok E f d s"
    and I: "armed K r" and poll: "poll_future E f cx a r = Inr (res, f', r')"
  shows "armed (lose E d s res K) r'"
  using ok a f
proof (cases rule: poll_future_cases [where cx = cx])
  case (1 res' f1 s' p r1)
  with poll have "res' = res" "r1 = r'" "f1 = f'" by auto
  with 1 show ?thesis
    by (intro ready_poll_armed [OF I live_source_at [OF a] refl f]) (auto simp: put_source_def)
qed

lemma drop_future_armed:
  assumes ok: "reactor_ok E items r" and a: "live E r a s" and I: "armed K r"
    and drop: "drop_future E f a r = Inr r'"
  shows "armed K r'"
  using ok a
proof (cases rule: drop_future_cases [where f = f])
  case (1 s' r1)
  with drop have r1: "r1 = r'" by simp
  show ?thesis
  proof (rule quiet_store [OF I live_source_at [OF a]])
    show "source_at E r' = (source_at E r)(src_key s \<mapsto> s')" using 1 r1 by simp
    show "ok (poller r')" "table (poller r') = table (poller r)"
      using 1(3) r1 interest_ok_poller [OF I] by (auto simp: put_source_def)
    show "src_key s \<notin> K \<and> waiting E (src_state s d) \<noteq> {}"
      if "waiting E (src_state s' d) \<noteq> {}" "src_key s \<notin> K" for d
      using that 1(8) [of d] by blast
  qed (use 1(7) in auto)
qed

end

end
