(* ===== verification/Rounds.thy ===== *)
theory Rounds
  imports Handles
begin

text \<open>
  The reactor under concurrency. The state is the reactor, the phase of the thread that holds
  the reactor's lock, and the futures the tasks own; a step is one critical section of one
  thread. While a round waits, or between two of its events, every other operation may happen.

  Three ghost fields are never read by the program: the number of rounds started, for every
  direction the round of its last event, and the keys of the sources that have lost their
  registration: the poller has refused to re-register them, or a round has ended with an error
  before it came to their events. A key leaves this set when a poll registers the source anew,
  when a later event of the source is handled, and when the source is closed.
\<close>

section \<open>The system\<close>

datatype phase =
    Idle
  | Waiting "duration option" usize "waker list"
  | Delivering usize "event list" "waker list"

record ('p, 'sw, 'ss, 'q, 'reg) sys =
  sys_reactor :: "('p, 'sw, 'ss, 'q, 'reg) reactor"
  sys_phase :: phase
  sys_futures :: "nat \<Rightarrow> (addr \<times> ready_future) option"
  sys_round :: nat
  sys_last :: "addr \<Rightarrow> dir \<Rightarrow> nat"
  sys_lost :: "slab_key set"

definition sys_init :: "('p, 'sw, 'ss, 'q, 'reg) crates \<Rightarrow> 'p \<Rightarrow> ('p, 'sw, 'ss, 'q, 'reg) sys" where
  "sys_init E p = \<lparr>sys_reactor = reactor_new E p, sys_phase = Idle, sys_futures = Map.empty,
     sys_round = 0, sys_last = (\<lambda>_ _. 0), sys_lost = {}\<rparr>"

text \<open>The directions an event is delivered to, by address.\<close>

definition log_event :: "('p, 'sw, 'ss, 'q, 'reg) crates \<Rightarrow> ('p, 'sw, 'ss, 'q, 'reg) reactor \<Rightarrow>
    event \<Rightarrow> nat \<Rightarrow> (addr \<Rightarrow> dir \<Rightarrow> nat) \<Rightarrow> addr \<Rightarrow> dir \<Rightarrow> nat" where
  "log_event E r ev n lst = (\<lambda>a d.
     if sl_get (sslab E) (ev_key ev) (sources r) = Some a \<and> emitted ev d then n else lst a d)"

text \<open>\<open>io\<close> tells what the tasks' calls on their handles may do to the operating system.\<close>

inductive sys_step :: "('p, 'sw, 'ss, 'q, 'reg) crates \<Rightarrow> ('p \<Rightarrow> 'p \<Rightarrow> bool) \<Rightarrow>
    ('p, 'sw, 'ss, 'q, 'reg) sys \<Rightarrow> ('p, 'sw, 'ss, 'q, 'reg) sys \<Rightarrow> bool"
  for E :: "('p, 'sw, 'ss, 'q, 'reg) crates" and io :: "'p \<Rightarrow> 'p \<Rightarrow> bool" where
  step_io: "io (poller (sys_reactor st)) p \<Longrightarrow>
     sys_step E io st (st\<lparr>sys_reactor := (sys_reactor st)\<lparr>poller := p\<rparr>\<rparr>)"
| step_open: "insert_io E g (sys_reactor st) = Inr (res, r') \<Longrightarrow>
     (\<forall>k s. source_at E (sys_reactor st) k = Some s \<longrightarrow> registration s \<noteq> g) \<Longrightarrow>
     sys_step E io st (st\<lparr>sys_reactor := r'\<rparr>)"
| step_close: "live E (sys_reactor st) a s \<Longrightarrow>
     (\<forall>i b f. sys_futures st i = Some (b, f) \<longrightarrow> b \<noteq> a) \<Longrightarrow>
     remove_io E s (sys_reactor st) = Inr (res, r') \<Longrightarrow>
     sys_step E io st (st\<lparr>sys_reactor := r', sys_lost := sys_lost st - {src_key s}\<rparr>)"
| step_poll: "live E (sys_reactor st) a s \<Longrightarrow>
     poll_source E d cx a (sys_reactor st) = Inr (res, r') \<Longrightarrow>
     sys_step E io st (st\<lparr>sys_reactor := r', sys_lost := lose E d s res (sys_lost st)\<rparr>)"
| step_future_new: "live E (sys_reactor st) a s \<Longrightarrow> sys_futures st i = None \<Longrightarrow>
     sys_step E io st (st\<lparr>sys_futures := (sys_futures st)(i \<mapsto> (a, source_ready d))\<rparr>)"
| step_future_poll: "sys_futures st i = Some (a, f) \<Longrightarrow> live E (sys_reactor st) a s \<Longrightarrow>
     poll_future E f cx a (sys_reactor st) = Inr (res, f', r') \<Longrightarrow>
     sys_step E io st (st\<lparr>sys_reactor := r', sys_futures := (sys_futures st)(i \<mapsto> (a, f')),
       sys_lost := lose E (rf_dir f) s res (sys_lost st)\<rparr>)"
| step_future_drop: "sys_futures st i = Some (a, f) \<Longrightarrow>
     drop_future E f a (sys_reactor st) = Inr r' \<Longrightarrow>
     sys_step E io st (st\<lparr>sys_reactor := r', sys_futures := (sys_futures st)(i := None)\<rparr>)"
| step_timer_insert: "insert_timer E t w (sys_reactor st) = Some (Inr (i, r')) \<Longrightarrow>
     sys_step E io st (st\<lparr>sys_reactor := r'\<rparr>)"
| step_timer_remove: "remove_timer E t i (sys_reactor st) = Some (Inr r') \<Longrightarrow>
     sys_step E io st (st\<lparr>sys_reactor := r'\<rparr>)"
| step_prepare: "sys_phase st = Idle \<Longrightarrow> now < instant_max \<Longrightarrow>
     react_prepare E now timeout (sys_reactor st) = Inr (t, tk, ws, r') \<Longrightarrow>
     sys_step E io st (st\<lparr>sys_reactor := r', sys_phase := Waiting t tk ws,
       sys_round := Suc (sys_round st)\<rparr>)"
| step_wait: "sys_phase st = Waiting t tk ws \<Longrightarrow>
     react_wait E t (sys_reactor st) = (Inr (Suc n), r') \<Longrightarrow>
     sys_step E io st (st\<lparr>sys_reactor := r', sys_phase := Delivering tk (events r') ws\<rparr>)"
| step_quiet: "sys_phase st = Waiting t tk ws \<Longrightarrow> now < instant_max \<Longrightarrow>
     react_wait E t (sys_reactor st) = (res, r1) \<Longrightarrow> (\<forall>n. res \<noteq> Inr (Suc n)) \<Longrightarrow>
     react_finish E now t tk ws res r1 = Inr (out, r') \<Longrightarrow>
     sys_step E io st (st\<lparr>sys_reactor := r', sys_phase := Idle\<rparr>)"
| step_event: "sys_phase st = Delivering tk (ev # evs) ws \<Longrightarrow>
     deliver_events E tk [ev] ws (sys_reactor st) = (Inr (), ws', r') \<Longrightarrow>
     sys_step E io st (st\<lparr>sys_reactor := r', sys_phase := Delivering tk evs ws',
       sys_last := log_event E (sys_reactor st) ev (sys_round st) (sys_last st),
       sys_lost := sys_lost st - {ev_key ev}\<rparr>)"
| step_event_failed: "sys_phase st = Delivering tk (ev # evs) ws \<Longrightarrow>
     deliver_events E tk [ev] ws (sys_reactor st) = (Inl e, ws', r') \<Longrightarrow>
     sys_step E io st (st\<lparr>sys_reactor := r', sys_phase := Idle,
       sys_last := log_event E (sys_reactor st) ev (sys_round st) (sys_last st),
       sys_lost := sys_lost st \<union> ev_key ` set (ev # evs)\<rparr>)"
| step_done: "sys_phase st = Delivering tk [] ws \<Longrightarrow>
     sys_step E io st (st\<lparr>sys_reactor := wake_all ws (sys_reactor st), sys_phase := Idle\<rparr>)"

inductive sys_steps :: "('p, 'sw, 'ss, 'q, 'reg) crates \<Rightarrow> ('p \<Rightarrow> 'p \<Rightarrow> bool) \<Rightarrow>
    ('p, 'sw, 'ss, 'q, 'reg) sys \<Rightarrow> ('p, 'sw, 'ss, 'q, 'reg) sys \<Rightarrow> bool"
  for E :: "('p, 'sw, 'ss, 'q, 'reg) crates" and io :: "'p \<Rightarrow> 'p \<Rightarrow> bool" where
  steps_refl: "sys_steps E io st st"
| steps_step: "sys_steps E io st st' \<Longrightarrow> sys_step E io st' st'' \<Longrightarrow> sys_steps E io st st''"

inductive_cases sys_stepE: "sys_step E io st st'"
inductive_simps sys_steps_refl_iff: "sys_steps E io st st"

text \<open>The steps of a whole loop over the events are the reactor's loop.\<close>

lemma deliver_events_Cons:
  "deliver_events E tk (ev # evs) ws r =
     (case deliver_events E tk [ev] ws r of
        (Inl e, ws', r') \<Rightarrow> (Inl e, ws', r')
      | (Inr _, ws', r') \<Rightarrow> deliver_events E tk evs ws' r')"
  by (auto simp: Let_def split: option.split prod.split sum.split)

section \<open>The invariant\<close>

fun pending_keys :: "phase \<Rightarrow> slab_key set" where
  "pending_keys (Delivering _ evs _) = ev_key ` set evs"
| "pending_keys _ = {}"

definition ticks_follow :: "('p, 'sw, 'ss, 'q, 'reg) reactor \<Rightarrow> nat \<Rightarrow>
    (addr \<Rightarrow> dir \<Rightarrow> nat) \<Rightarrow> bool" where
  "ticks_follow r n lst \<longleftrightarrow> ticker r = of_nat n \<and> (\<forall>a d. lst a d \<le> n) \<and>
     (\<forall>a d. next_addr r \<le> a \<longrightarrow> lst a d = 0) \<and>
     (\<forall>a s d. heap r a = Some s \<longrightarrow> tick (src_state s d) = of_nat (lst a d))"

fun phase_ok :: "phase \<Rightarrow> nat \<Rightarrow> event list \<Rightarrow> bool" where
  "phase_ok Idle n evs = True"
| "phase_ok (Waiting _ tk _) n evs = (tk = of_nat n \<and> evs = [])"
| "phase_ok (Delivering tk _ _) n evs = (tk = of_nat n)"

definition rounds_ok :: "('p, 'sw, 'ss, 'q, 'reg) sys \<Rightarrow> bool" where
  "rounds_ok st \<longleftrightarrow> ticks_follow (sys_reactor st) (sys_round st) (sys_last st) \<and>
     phase_ok (sys_phase st) (sys_round st) (events (sys_reactor st))"

text \<open>
  Every future a task owns has its source alive and its slot in it, and no two futures share a
  slot.
\<close>

definition slots_ok :: "('p, 'sw, 'ss, 'q, 'reg) crates \<Rightarrow> ('p, 'sw, 'ss, 'q, 'reg) reactor \<Rightarrow>
    (nat \<Rightarrow> (addr \<times> ready_future) option) \<Rightarrow> bool" where
  "slots_ok E r F \<longleftrightarrow> (\<forall>i a f. F i = Some (a, f) \<longrightarrow>
     (\<exists>s. live E r a s \<and> future_ok E f (rf_dir f) s))"

definition owners_ok :: "(nat \<Rightarrow> (addr \<times> ready_future) option) \<Rightarrow> bool" where
  "owners_ok F \<longleftrightarrow> (\<forall>i j a f g. F i = Some (a, f) \<longrightarrow> F j = Some (a, g) \<longrightarrow>
     rf_dir f = rf_dir g \<longrightarrow> rf_index f = rf_index g \<longrightarrow> rf_index f \<noteq> None \<longrightarrow> i = j)"

definition futures_ok ::
    "('p, 'sw, 'ss, 'q, 'reg) crates \<Rightarrow> ('p, 'sw, 'ss, 'q, 'reg) sys \<Rightarrow> bool" where
  "futures_ok E st \<longleftrightarrow> slots_ok E (sys_reactor st) (sys_futures st) \<and> owners_ok (sys_futures st)"

lemma futures_okD:
  "futures_ok E st \<Longrightarrow> sys_futures st i = Some (a, f) \<Longrightarrow>
     \<exists>s. live E (sys_reactor st) a s \<and> future_ok E f (rf_dir f) s"
  unfolding futures_ok_def slots_ok_def by blast

lemma source_at_cong:
  "sources r' = sources r \<Longrightarrow> heap r' = heap r \<Longrightarrow> source_at E r' = source_at E r"
  by (rule ext) (simp add: source_at_def)

section \<open>What the steps do to the store\<close>

lemma reactor_ok_parts:
  assumes "reactor_ok E items r"
  shows "timers_ok E items r" "sources_ok E r" "slab_ok (wslab E)" "slab_ok (sslab E)"
    "poller_ok (poll_calls E)"
  using assms by (auto simp: reactor_ok_def timers_ok_def)

text \<open>One event, as one step: nothing, or one live source written back.\<close>

lemma deliver_one_cases:
  assumes ok: "sources_ok E r" and del: "deliver_events E tk [ev] ws r = (res, ws', r')"
  obtains (unknown) "sl_get (sslab E) (ev_key ev) (sources r) = None" "res = Inr ()"
      "ws' = ws" "r' = r"
  | (known) a s s' p where "sl_get (sslab E) (ev_key ev) (sources r) = Some a" "live E r a s"
      "src_key s = ev_key ev" "deliver_source E tk ev (s, ws) = (s', ws')"
      "r' = put_source a s' (r\<lparr>poller := p, woken := woken r\<rparr>)"
proof (cases "sl_get (sslab E) (ev_key ev) (sources r)")
  case None
  with del show thesis by (intro unknown) simp_all
next
  case (Some a)
  with ok obtain s where s: "heap r a = Some s" "src_key s = ev_key ev" by (rule sources_okD)
  obtain s' ws1 where d: "deliver_source E tk ev (s, ws) = (s', ws1)" by force
  have "\<exists>p. ws' = ws1 \<and> r' = r\<lparr>heap := (heap r)(a \<mapsto> s'), poller := p\<rparr>"
  proof (cases "\<not> dir_is_empty E (src_state s' READ) \<or> \<not> dir_is_empty E (src_state s' WRITE)")
    case True
    with del Some s d show ?thesis
      by (auto simp: Let_def split: prod.splits sum.splits)
  next
    case False
    with del Some s d have "ws' = ws1 \<and> r' = r\<lparr>heap := (heap r)(a \<mapsto> s')\<rparr>"
      by (auto simp: Let_def split: if_splits)
    then show ?thesis by (intro exI [of _ "poller r"]) simp
  qed
  then obtain p where p: "ws' = ws1" "r' = r\<lparr>heap := (heap r)(a \<mapsto> s'), poller := p\<rparr>" by blast
  have "r' = put_source a s' (r\<lparr>poller := p, woken := woken r\<rparr>)"
    unfolding p put_source_def by (cases r) simp
  with Some s d p(1) show thesis by (intro known) (simp_all add: live_def)
qed

lemma deliver_source_keys:
  assumes "slab_ok (wslab E)" "deliver_source E tk ev (s, ws) = (s', ws')"
  shows "src_key s' = src_key s" "registration s' = registration s"
    and "tick (src_state s' d) = (if emitted ev d then tk else tick (src_state s d))"
    and "slot_ok E d s \<Longrightarrow> slot_ok E d s'"
  using deliver_source_spec(1) [OF assms] pr.deliver_source_inv [of E d s tk ev ws s' ws'] assms(2)
  by (auto simp: delivered_def)

text \<open>Every future keeps its slot when an event is delivered.\<close>

lemma deliver_source_future_ok:
  assumes "future_ok E f d s" "deliver_source E tk ev (s, ws) = (s', ws')"
  shows "future_ok E f d s'"
  using rp.deliver_source_inv [OF assms] by simp

lemma live_put_source:
  assumes "live E r a s" "src_key s' = src_key s"
  shows "live E (put_source a s' (r\<lparr>poller := p, woken := ws\<rparr>)) b t \<longleftrightarrow>
      (if b = a then t = s' else live E r b t)"
  using assms by (auto simp: live_def put_source_def)

lemma reactor_ok_same_io:
  "same_io r r' \<Longrightarrow> timers_ok E items r' \<Longrightarrow> reactor_ok E items r \<Longrightarrow> reactor_ok E items r'"
  using sources_ok_same_io [of r r' E] by (simp add: reactor_ok_def)

lemma insert_io_reactor_ok:
  assumes ok: "reactor_ok E items r" and ins: "insert_io E g r = Inr (res, r')"
  shows "reactor_ok E items r'" "timer_view items r' = timer_view items r"
proof -
  note P = reactor_ok_parts [OF ok]
  have "reactor_ok E items r' \<and> timer_view items r' = timer_view items r"
    using P(2,4,3)
  proof (cases rule: insert_io_cases [where g = g])
    case (added p ss r1)
    with ins have "r1 = r'" by simp
    with added P(1) timers_ok_cong [OF P(1), of r'] show ?thesis by (simp add: reactor_ok_def)
  next
    case (failed e p ss r1)
    with ins have "r1 = r'" by simp
    with failed P(1) timers_ok_cong [OF P(1), of r'] show ?thesis by (simp add: reactor_ok_def)
  qed
  then show "reactor_ok E items r'" "timer_view items r' = timer_view items r" by simp_all
qed

lemma remove_io_reactor_ok:
  assumes ok: "reactor_ok E items r" and a: "live E r a s"
    and rem: "remove_io E s r = Inr (res, r')"
  shows "reactor_ok E items r'" "timer_view items r' = timer_view items r"
proof -
  note P = reactor_ok_parts [OF ok]
  have at: "source_at E r (src_key s) \<noteq> None" using live_source_at [OF a] by simp
  from P(2,4) at have "reactor_ok E items r' \<and> timer_view items r' = timer_view items r"
  proof (cases rule: remove_io_cases)
    case (1 res1 p ss r1)
    with rem have "r1 = r'" by simp
    with 1 P(1) timers_ok_cong [OF P(1), of r'] show ?thesis by (simp add: reactor_ok_def)
  qed
  then show "reactor_ok E items r'" "timer_view items r' = timer_view items r" by simp_all
qed

lemma react_prepare_reactor_ok:
  assumes ok: "reactor_ok E items r" and now: "now < instant_max"
    and prep: "react_prepare E now timeout r = Inr (t, tk, ws, r')"
  shows "reactor_ok E items r'" "tk = ticker r + 1" "ticker r' = ticker r + 1" "events r' = []"
    and "sources r' = sources r" "heap r' = heap r" "next_addr r' = next_addr r"
    and "poller r' = poller r" "woken r' = woken r"
proof -
  note P = reactor_ok_parts [OF ok]
  from P(1) now obtain dur and ready :: timer_map and r1 where R:
    "react_prepare E now timeout r = Inr (react_timeout dur timeout, ticker r + 1, map snd ready, r1)"
    "timers_ok E items r1" "poller r1 = poller r" "ticker r1 = ticker r + 1" "events r1 = []"
    "sources r1 = sources r" "heap r1 = heap r" "next_addr r1 = next_addr r" "woken r1 = woken r"
    by (rule react_prepare_ok [where timeout = timeout]) blast
  from R(1) prep have out: "r1 = r'" "tk = ticker r + 1" by simp_all
  with R P(2) show "reactor_ok E items r'" "tk = ticker r + 1" "ticker r' = ticker r + 1"
    "events r' = []" "sources r' = sources r" "heap r' = heap r" "next_addr r' = next_addr r"
    "poller r' = poller r" "woken r' = woken r"
    by (simp_all add: reactor_ok_def sources_ok_def)
qed

text \<open>A wait that brings no event ends its round without touching the sources.\<close>

lemma react_quiet:
  assumes ok: "reactor_ok E items r" and now: "now < instant_max"
    and res: "\<And>n. res \<noteq> Inr (Suc n)"
    and fin: "react_finish E now t tk ws res r = Inr (out, r')"
  shows "reactor_ok E items r'" "ticker r' = ticker r" "sources r' = sources r"
    and "heap r' = heap r" "next_addr r' = next_addr r" "poller r' = poller r"
    and "events r' = events r"
proof -
  note P = reactor_ok_parts [OF ok]
  have "reactor_ok E items r' \<and> (\<exists>r1 ws1. same_io r r1 \<and> poller r1 = poller r \<and> r' = wake_all ws1 r1)"
  proof (cases res)
    case (Inl e)
    with fin have "r' = wake_all ws r" by (auto simp: react_finish_def split: if_splits)
    with ok show ?thesis by auto
  next
    case (Inr n)
    with res have n: "n = 0" by (cases n) auto
    show ?thesis
    proof (cases "t = Some 0")
      case True
      with fin Inr n have "r' = wake_all ws r" by (simp add: react_finish_def)
      with ok show ?thesis by auto
    next
      case False
      from P(1) now obtain dur and ready :: timer_map and r1 where
        R: "process_timers E now ws r = Inr (dur, ws @ map snd ready, r1)"
        "timers_ok E items r1" "same_io r r1" "poller r1 = poller r"
        by (rule process_timers_ok [where ws = ws]) blast
      with fin Inr n False have "r' = wake_all (ws @ map snd ready) r1"
        by (simp add: react_finish_def)
      with R reactor_ok_same_io [OF R(3,2) ok] show ?thesis by auto
    qed
  qed
  then show "reactor_ok E items r'" "ticker r' = ticker r" "sources r' = sources r"
    "heap r' = heap r" "next_addr r' = next_addr r" "poller r' = poller r" "events r' = events r"
    by (auto simp: same_io_def wake_all_def)
qed

text \<open>Delivering one event keeps the reactor well formed.\<close>

lemma deliver_one_reactor_ok:
  assumes ok: "reactor_ok E items r" and del: "deliver_events E tk [ev] ws r = (res, ws', r')"
  shows "reactor_ok E items r'"
  using reactor_ok_parts(2) [OF ok] del
proof (cases rule: deliver_one_cases)
  case unknown
  with ok show ?thesis by simp
next
  case (known a s s' p)
  note P = reactor_ok_parts [OF ok]
  note K = deliver_source_keys [OF P(3) known(4)]
  show ?thesis
    unfolding known(5)
    by (rule reactor_ok_put_source(1) [OF ok known(2) K(1)]) (rule K(4) [OF live_slot_ok [OF P(2) known(2)]])
qed

text \<open>
  The steps by what they do to the store of sources. A quiet step leaves it alone, and so the
  futures and the ticks; the others touch one source.
\<close>

definition quiet_step :: "('q \<Rightarrow> timer_op list) \<Rightarrow> ('p, 'sw, 'ss, 'q, 'reg) crates \<Rightarrow>
    ('p, 'sw, 'ss, 'q, 'reg) sys \<Rightarrow> ('p, 'sw, 'ss, 'q, 'reg) sys \<Rightarrow> bool" where
  "quiet_step items E st st' \<longleftrightarrow> (let r = sys_reactor st; r' = sys_reactor st' in
     reactor_ok E items r' \<and> sources r' = sources r \<and> heap r' = heap r \<and> next_addr r' = next_addr r \<and>
     sys_futures st' = sys_futures st \<and> sys_last st' = sys_last st \<and>
     (ticker r' = ticker r \<and> sys_round st' = sys_round st \<or>
      ticker r' = ticker r + 1 \<and> sys_round st' = Suc (sys_round st)) \<and>
     (ticker r = of_nat (sys_round st) \<longrightarrow> phase_ok (sys_phase st) (sys_round st) (events r) \<longrightarrow>
        phase_ok (sys_phase st') (sys_round st') (events r')))"

lemma quiet_same_io:
  assumes "same_io r r'" "timers_ok E items r'" "reactor_ok E items r" "sys_reactor st = r"
  shows "quiet_step items E st (st\<lparr>sys_reactor := r'\<rparr>)"
  using assms reactor_ok_same_io [OF assms(1-3)] by (simp add: quiet_step_def same_io_def Let_def)

lemma wait_buffer:
  assumes "react_wait E t r = (res, r1)" "reactor_ok E items r"
  shows "reactor_ok E items r1" "r1 = r\<lparr>events := events r1, poller := poller r1\<rparr>"
proof -
  show r1: "r1 = r\<lparr>events := events r1, poller := poller r1\<rparr>" using react_wait_ok(1) [OF assms(1)] .
  show "reactor_ok E items r1" using r1 assms(2) reactor_ok_buffer(1) by metis
qed

lemma round_step_quiet:
  assumes ok: "reactor_ok E items (sys_reactor st)" and now: "now < instant_max"
    and wait: "react_wait E t (sys_reactor st) = (res, r1)" "\<forall>n. res \<noteq> Inr (Suc n)"
    and fin: "react_finish E now t tk ws res r1 = Inr (out, r')"
  shows "quiet_step items E st (st\<lparr>sys_reactor := r', sys_phase := Idle\<rparr>)"
proof -
  note W = wait_buffer [OF wait(1) ok]
  have "ticker r1 = ticker (sys_reactor st)" "sources r1 = sources (sys_reactor st)"
    "heap r1 = heap (sys_reactor st)" "next_addr r1 = next_addr (sys_reactor st)"
    by (subst W(2), simp)+
  with react_quiet [OF W(1) now _ fin] wait(2) show ?thesis by (simp add: quiet_step_def Let_def)
qed

lemma sys_step_split:
  assumes step: "sys_step E io st st'" and ok: "reactor_ok E items (sys_reactor st)"
  obtains (quiet) "quiet_step items E st st'"
  | (opened) g res where "insert_io E g (sys_reactor st) = Inr (res, sys_reactor st')"
      "st' = st\<lparr>sys_reactor := sys_reactor st'\<rparr>"
  | (closed) a s res where "live E (sys_reactor st) a s" "\<forall>i b f. sys_futures st i = Some (b, f) \<longrightarrow> b \<noteq> a"
      "remove_io E s (sys_reactor st) = Inr (res, sys_reactor st')" "st' = st\<lparr>sys_reactor := sys_reactor st', sys_lost := sys_lost st'\<rparr>"
  | (polled) a s d cx res where "live E (sys_reactor st) a s"
      "poll_source E d cx a (sys_reactor st) = Inr (res, sys_reactor st')"
      "st' = st\<lparr>sys_reactor := sys_reactor st', sys_lost := sys_lost st'\<rparr>"
  | (future_new) a s i d where "live E (sys_reactor st) a s" "sys_futures st i = None"
      "st' = st\<lparr>sys_futures := (sys_futures st)(i \<mapsto> (a, source_ready d))\<rparr>"
  | (future_polled) i a f cx res f' where "sys_futures st i = Some (a, f)"
      "poll_future E f cx a (sys_reactor st) = Inr (res, f', sys_reactor st')"
      "st' = st\<lparr>sys_reactor := sys_reactor st', sys_futures := (sys_futures st)(i \<mapsto> (a, f')), sys_lost := sys_lost st'\<rparr>"
  | (future_dropped) i a f where "sys_futures st i = Some (a, f)"
      "drop_future E f a (sys_reactor st) = Inr (sys_reactor st')"
      "st' = st\<lparr>sys_reactor := sys_reactor st', sys_futures := (sys_futures st)(i := None)\<rparr>"
  | (event) tk ev evs ws res ws' where "sys_phase st = Delivering tk (ev # evs) ws"
      "deliver_events E tk [ev] ws (sys_reactor st) = (res, ws', sys_reactor st')"
      "sys_phase st' = Idle \<or> sys_phase st' = Delivering tk evs ws'" "sys_round st' = sys_round st"
      "sys_last st' = log_event E (sys_reactor st) ev (sys_round st) (sys_last st)"
      "sys_futures st' = sys_futures st"
  using step
proof (cases rule: sys_step.cases)
  case (step_io p)
  with ok have "quiet_step items E st st'"
    by (simp add: quiet_step_def Let_def)
  then show thesis by (rule quiet)
next
  case (step_timer_insert t w i r')
  from reactor_ok_parts(1) [OF ok] obtain r1 where
    "insert_timer E t w (sys_reactor st) = Some (Inr (id_generator (sys_reactor st), r1))"
    "timers_ok E items r1" "same_io (sys_reactor st) r1" by (rule ts.insert_cases)
  with step_timer_insert quiet_same_io [OF _ _ ok refl, of r'] show thesis by (intro quiet) simp
next
  case (step_timer_remove t i r')
  from reactor_ok_parts(1) [OF ok] obtain r1 where
    "remove_timer E t i (sys_reactor st) = Some (Inr r1)" "timers_ok E items r1" "same_io (sys_reactor st) r1"
    by (rule ts.remove_cases)
  with step_timer_remove quiet_same_io [OF _ _ ok refl, of r'] show thesis by (intro quiet) simp
next
  case (step_prepare now timeout t tk ws r')
  with react_prepare_reactor_ok [OF ok step_prepare(3,4)] show thesis
    by (intro quiet) (simp add: quiet_step_def Let_def)
next
  case (step_wait t tk ws n r')
  note W = wait_buffer [OF step_wait(3) ok]
  have "sources r' = sources (sys_reactor st)" "heap r' = heap (sys_reactor st)"
    "next_addr r' = next_addr (sys_reactor st)" "ticker r' = ticker (sys_reactor st)"
    by (subst W(2), simp)+
  with step_wait(1,2) W(1) show thesis by (intro quiet) (simp add: quiet_step_def Let_def)
next
  case (step_quiet t tk ws now res r1 out r')
  with round_step_quiet [OF ok step_quiet(3-6)] show thesis by (intro quiet) simp
next
  case (step_done tk ws)
  with ok show thesis by (intro quiet) (simp add: quiet_step_def Let_def, simp add: wake_all_def)
next
  case (step_open g res r')
  then show thesis by (intro opened) simp_all
next
  case (step_close a s res r')
  then show thesis by (intro closed) simp_all
next
  case (step_poll a s d cx res r')
  then show thesis by (intro polled) simp_all
next
  case (step_future_new a s i d)
  then show thesis by (intro future_new) simp_all
next
  case (step_future_poll i a f s cx res f' r')
  then show thesis by (intro future_polled) simp_all
next
  case (step_future_drop i a f r')
  then show thesis by (intro future_dropped) simp_all
next
  case (step_event tk ev evs ws ws' r')
  then show thesis by (intro event) simp_all
next
  case (step_event_failed tk ev evs ws e ws' r')
  then show thesis by (intro event) simp_all
qed

lemma step_reactor_ok:
  assumes step: "sys_step E io st st'" and ok: "reactor_ok E items (sys_reactor st)"
    and fut: "\<And>i a f. sys_futures st i = Some (a, f) \<Longrightarrow>
      \<exists>s. live E (sys_reactor st) a s \<and> future_ok E f (rf_dir f) s"
  shows "reactor_ok E items (sys_reactor st')"
  using step ok
proof (cases rule: sys_step_split)
  case quiet
  then show ?thesis by (simp add: quiet_step_def Let_def)
next
  case (opened g res)
  with insert_io_reactor_ok(1) [OF ok] show ?thesis by blast
next
  case (closed a s res)
  with remove_io_reactor_ok(1) [OF ok] show ?thesis by blast
next
  case (polled a s d cx res)
  from ok polled(1) show ?thesis
    by (cases rule: poll_source_cases [where d = d and cx = cx]) (use polled(2) in auto)
next
  case (future_new a s i d)
  with ok show ?thesis by (metis sys.select_convs(1) sys.surjective sys.update_convs(3))
next
  case (future_polled i a f cx res f')
  from fut future_polled(1) obtain s where s: "live E (sys_reactor st) a s" "future_ok E f (rf_dir f) s" by blast
  from ok s show ?thesis by (cases rule: poll_future_cases [where cx = cx]) (use future_polled(2) in auto)
next
  case (future_dropped i a f)
  from fut future_dropped(1) obtain s where s: "live E (sys_reactor st) a s" by blast
  from ok s show ?thesis by (cases rule: drop_future_cases [where f = f]) (use future_dropped(2) in auto)
next
  case (event tk ev evs ws res ws')
  with deliver_one_reactor_ok [OF ok] show ?thesis by blast
qed

section \<open>The ticks follow the rounds\<close>

lemma ticks_follow_same:
  assumes "ticks_follow r n lst" "heap r' = heap r" "next_addr r' = next_addr r"
    and "ticker r' = ticker r"
  shows "ticks_follow r' n lst"
  using assms by (simp add: ticks_follow_def)

lemma ticks_follow_round:
  assumes "ticks_follow r n lst" "heap r' = heap r" "next_addr r' = next_addr r"
    and "ticker r' = ticker r + 1"
  shows "ticks_follow r' (Suc n) lst"
  using assms by (auto simp: ticks_follow_def le_SucI)

lemma ticks_follow_store:
  assumes T: "ticks_follow r n lst" and S: "sources_ok E r" and a: "live E r a s"
    and s': "\<And>d. tick (src_state s' d) = (if D d then of_nat n else tick (src_state s d))"
  shows "ticks_follow (put_source a s' (r\<lparr>poller := p, woken := ws\<rparr>)) n
    (\<lambda>b d. if b = a \<and> D d then n else lst b d)"
proof -
  from a have h: "heap r a = Some s" by (simp add: live_def)
  with sources_ok_heapD [OF S] have "a < next_addr r" by blast
  with T h s' show ?thesis unfolding ticks_follow_def put_source_def by auto
qed

lemma ticks_follow_poll:
  assumes T: "ticks_follow r n lst" and S: "sources_ok E r" and a: "live E r a s"
    and s': "\<And>d. tick (src_state s' d) = tick (src_state s d)"
  shows "ticks_follow (put_source a s' (r\<lparr>poller := p, woken := ws\<rparr>)) n lst"
  using ticks_follow_store [OF T S a, where s' = s' and D = "\<lambda>_. False" and p = p and ws = ws] s'
  by simp

lemma ticks_follow_alloc:
  assumes T: "ticks_follow r n lst" and s: "\<And>d. tick (src_state s d) = 0"
    and r': "heap r' = (heap r)(next_addr r \<mapsto> s)" "next_addr r' = Suc (next_addr r)"
      "ticker r' = ticker r"
  shows "ticks_follow r' n lst"
  using T s unfolding ticks_follow_def r' by auto

lemma insert_io_ticks_follow:
  assumes ok: "reactor_ok E items r" and T: "ticks_follow r n lst"
    and ins: "insert_io E g r = Inr (res, r')"
  shows "ticks_follow r' n lst" "events r' = events r"
proof -
  note P = reactor_ok_parts [OF ok]
  have z: "tick (src_state (new_source E g r) d) = 0" for d
    by (simp add: direction_default_def)
  have "ticks_follow r' n lst \<and> events r' = events r"
    using P(2,4,3)
  proof (cases rule: insert_io_cases [where g = g])
    case (added p ss r1)
    with ins have "r1 = r'" by simp
    with added(3) have r': "r' = r\<lparr>sources := ss, heap := (heap r)(next_addr r \<mapsto> new_source E g r),
         next_addr := Suc (next_addr r), poller := p\<rparr>" by simp
    then show ?thesis by (intro conjI ticks_follow_alloc [OF T z]) simp_all
  next
    case (failed e p ss r1)
    with ins have "r1 = r'" by simp
    with failed(3) have r': "r' = r\<lparr>sources := ss, heap := (heap r)(next_addr r \<mapsto> new_source E g r),
         next_addr := Suc (next_addr r), poller := p\<rparr>" by simp
    then show ?thesis by (intro conjI ticks_follow_alloc [OF T z]) simp_all
  qed
  then show "ticks_follow r' n lst" "events r' = events r" by simp_all
qed

lemma remove_io_frame:
  assumes ok: "reactor_ok E items r" and a: "live E r a s" and rem: "remove_io E s r = Inr (res, r')"
  obtains p ss where "r' = r\<lparr>sources := ss, poller := p\<rparr>"
    "\<And>j. sl_get (sslab E) j ss = (if j = src_key s then None else sl_get (sslab E) j (sources r))"
proof -
  note P = reactor_ok_parts [OF ok]
  have at: "source_at E r (src_key s) \<noteq> None" using live_source_at [OF a] by simp
  from P(2,4) at show thesis
    by (cases rule: remove_io_cases) (use rem that in auto)
qed

lemma poll_source_store:
  assumes ok: "reactor_ok E items r" and a: "live E r a s"
    and poll: "poll_source E d cx a r = Inr (res, r')"
  obtains s' p ws where "poll_ready E d cx s r = (res, s', r\<lparr>poller := p, woken := ws\<rparr>)"
    "r' = put_source a s' (r\<lparr>poller := p, woken := ws\<rparr>)" "src_key s' = src_key s"
    "\<And>d'. tick (src_state s' d') = tick (src_state s d')"
proof -
  from ok a obtain res1 s' p ws r1 where
    1: "poll_ready E d cx s r = (res1, s', r\<lparr>poller := p, woken := woken r @ ws\<rparr>)"
    "poll_source E d cx a r = Inr (res1, r1)"
    "r1 = put_source a s' (r\<lparr>poller := p, woken := woken r @ ws\<rparr>)"
    by (rule poll_source_cases [where d = d and cx = cx])
  from poll 1(2) have out: "res1 = res" "r1 = r'" by simp_all
  note F = poll_ready_frame(2,5) [OF 1(1)]
  show thesis
    by (rule that [where s' = s' and p = p and ws = "woken r @ ws"]) (use 1 F out in simp_all)
qed

lemma poll_future_store:
  assumes ok: "reactor_ok E items r" and a: "live E r a s" and f: "future_ok E f d s"
    and poll: "poll_future E f cx a r = Inr (res, f', r')"
  obtains s' p where "ready_poll E f cx s r = Inr (res, f', s', r\<lparr>poller := p\<rparr>)"
    "r' = put_source a s' (r\<lparr>poller := p, woken := woken r\<rparr>)" "src_key s' = src_key s"
    "\<And>d'. tick (src_state s' d') = tick (src_state s d')"
proof -
  from ok a f obtain res1 f1 s' p r1 where
    1: "ready_poll E f cx s r = Inr (res1, f1, s', r\<lparr>poller := p\<rparr>)"
    "poll_future E f cx a r = Inr (res1, f1, r1)" "r1 = put_source a s' (r\<lparr>poller := p\<rparr>)"
    by (rule poll_future_cases [where cx = cx])
  have "put_source a s' (r\<lparr>poller := p\<rparr>) = put_source a s' (r\<lparr>poller := p, woken := woken r\<rparr>)"
    by (simp add: put_source_def)
  moreover from poll 1(2) have "res1 = res" "f1 = f'" "r1 = r'" by simp_all
  moreover note F = ready_poll_frame(2,6) [OF f 1(1)]
  ultimately show thesis
    using 1 by (intro that [where s' = s' and p = p]) simp_all
qed

lemma drop_future_store:
  assumes ok: "reactor_ok E items r" and a: "live E r a s" and drop: "drop_future E f a r = Inr r'"
  obtains s' where "ready_drop E f s = Inr s'"
    "r' = put_source a s' (r\<lparr>poller := poller r, woken := woken r\<rparr>)" "src_key s' = src_key s"
    "\<And>d'. tick (src_state s' d') = tick (src_state s d')"
proof -
  from ok a obtain s' r1 where
    1: "ready_drop E f s = Inr s'" "drop_future E f a r = Inr r1" "r1 = put_source a s' r"
    "\<And>d. tick (src_state s' d) = tick (src_state s d)"
    by (rule drop_future_cases [where f = f]) blast
  have "src_key s' = src_key s"
    using reactor_ok_parts(3) [OF ok] 1(1)
    by (cases rule: ready_drop_spec [where f = f and s = s]) auto
  with 1 drop show thesis by (intro that [of s']) simp_all
qed

lemma deliver_one_ticks:
  assumes ok: "reactor_ok E items r" and T: "ticks_follow r n lst"
    and del: "deliver_events E (of_nat n) [ev] ws r = (res, ws', r')"
  shows "ticks_follow r' n (log_event E r ev n lst)"
  using reactor_ok_parts(2) [OF ok] del
proof (cases rule: deliver_one_cases)
  case unknown
  then have "log_event E r ev n lst = lst" by (simp add: log_event_def)
  with unknown T show ?thesis by simp
next
  case (known a s s' p)
  note P = reactor_ok_parts [OF ok]
  note K = deliver_source_keys [OF P(3) known(4)]
  have "log_event E r ev n lst = (\<lambda>b d. if b = a \<and> emitted ev d then n else lst b d)"
    using known(1) by (auto simp: log_event_def fun_eq_iff)
  then show ?thesis
    unfolding known(5) by (simp only:) (rule ticks_follow_store [OF T P(2) known(2) K(3)])
qed

lemma quiet_step_rounds_ok:
  assumes "quiet_step items E st st'" "rounds_ok st"
  shows "rounds_ok st'"
  using assms ticks_follow_same [of "sys_reactor st" "sys_round st" "sys_last st" "sys_reactor st'"]
    ticks_follow_round [of "sys_reactor st" "sys_round st" "sys_last st" "sys_reactor st'"]
  by (auto simp: quiet_step_def Let_def rounds_ok_def ticks_follow_def)

text \<open>A poll, or the drop of a future, writes its source back with the ticks it had.\<close>

lemma stored_rounds_ok:
  assumes R: "rounds_ok st" and S: "sources_ok E (sys_reactor st)" and a: "live E (sys_reactor st) a s"
    and r': "sys_reactor st' = put_source a s' ((sys_reactor st)\<lparr>poller := p, woken := ws\<rparr>)"
    and s': "\<And>d. tick (src_state s' d) = tick (src_state s d)"
    and st': "sys_phase st' = sys_phase st" "sys_round st' = sys_round st" "sys_last st' = sys_last st"
  shows "rounds_ok st'"
proof -
  from R have "ticks_follow (sys_reactor st) (sys_round st) (sys_last st)" by (simp add: rounds_ok_def)
  from ticks_follow_poll [OF this S a s', where p = p and ws = ws] R show ?thesis
    unfolding rounds_ok_def r' st' by (simp add: put_source_def)
qed

lemma step_rounds_ok:
  assumes step: "sys_step E io st st'" and ok: "reactor_ok E items (sys_reactor st)"
    and fut: "\<And>i a f. sys_futures st i = Some (a, f) \<Longrightarrow>
      \<exists>s. live E (sys_reactor st) a s \<and> future_ok E f (rf_dir f) s"
    and R: "rounds_ok st"
  shows "rounds_ok st'"
proof -
  note S = reactor_ok_parts(2) [OF ok]
  from R have T: "ticks_follow (sys_reactor st) (sys_round st) (sys_last st)"
    and ph: "phase_ok (sys_phase st) (sys_round st) (events (sys_reactor st))"
    by (simp_all add: rounds_ok_def)
  from step ok show ?thesis
  proof (cases rule: sys_step_split)
    case quiet
    then show ?thesis using R by (rule quiet_step_rounds_ok)
  next
    case (opened g res)
    from insert_io_ticks_follow [OF ok T opened(1)] ph show ?thesis
      by (subst opened(2)) (simp add: rounds_ok_def)
  next
    case (closed a s res)
    from ok closed(1,3) obtain p ss where "sys_reactor st' = (sys_reactor st)\<lparr>sources := ss, poller := p\<rparr>"
      by (rule remove_io_frame)
    with ph ticks_follow_same [OF T, of "sys_reactor st'"] show ?thesis
      by (subst closed(4)) (simp add: rounds_ok_def)
  next
    case (polled a s d cx res)
    from ok polled(1,2) obtain s' p ws where
      "sys_reactor st' = put_source a s' ((sys_reactor st)\<lparr>poller := p, woken := ws\<rparr>)"
      "\<And>d'. tick (src_state s' d') = tick (src_state s d')" by (rule poll_source_store) blast
    then show ?thesis by (rule stored_rounds_ok [OF R S polled(1)]) (subst polled(3), simp)+
  next
    case (future_new a s i d)
    with R show ?thesis by (simp add: rounds_ok_def)
  next
    case (future_polled i a f cx res f')
    from fut future_polled(1) obtain s where s: "live E (sys_reactor st) a s" "future_ok E f (rf_dir f) s" by blast
    from ok s future_polled(2) obtain s' p where
      "sys_reactor st' = put_source a s' ((sys_reactor st)\<lparr>poller := p, woken := woken (sys_reactor st)\<rparr>)"
      "\<And>d'. tick (src_state s' d') = tick (src_state s d')" by (rule poll_future_store) blast
    then show ?thesis by (rule stored_rounds_ok [OF R S s(1)]) (subst future_polled(3), simp)+
  next
    case (future_dropped i a f)
    from fut future_dropped(1) obtain s where s: "live E (sys_reactor st) a s" by blast
    from ok s future_dropped(2) obtain s' where
      "sys_reactor st' = put_source a s' ((sys_reactor st)\<lparr>poller := poller (sys_reactor st),
         woken := woken (sys_reactor st)\<rparr>)"
      "\<And>d'. tick (src_state s' d') = tick (src_state s d')" by (rule drop_future_store) blast
    then show ?thesis by (rule stored_rounds_ok [OF R S s]) (subst future_dropped(3), simp)+
  next
    case (event tk ev evs ws res ws')
    with ph have tk: "tk = of_nat (sys_round st)" by simp
    from deliver_one_ticks [OF ok T event(2) [unfolded tk]] event(3-6) tk show ?thesis
      by (auto simp: rounds_ok_def)
  qed
qed

section \<open>The futures keep their slots\<close>

lemma slots_okD:
  assumes "slots_ok E r F" "F i = Some (a, f)"
  obtains s where "live E r a s" "future_ok E f (rf_dir f) s"
  using assms unfolding slots_ok_def by blast

lemma live_unique: "live E r a s \<Longrightarrow> live E r a t \<Longrightarrow> s = t"
  by (simp add: live_def)

lemma slots_ok_live:
  assumes "slots_ok E r F" "\<And>a s. (\<exists>i f. F i = Some (a, f)) \<Longrightarrow> live E r a s \<Longrightarrow> live E r' a s"
  shows "slots_ok E r' F"
  using assms unfolding slots_ok_def by blast

lemma slots_ok_same:
  assumes "slots_ok E r F" "heap r' = heap r" "sources r' = sources r"
  shows "slots_ok E r' F"
  using assms by (intro slots_ok_live [OF assms(1)]) (simp_all add: live_def)

lemma slots_ok_store:
  assumes F: "slots_ok E r F" and a: "live E r a s" and key: "src_key s' = src_key s"
    and keep: "\<And>i f. F i = Some (a, f) \<Longrightarrow> future_ok E f (rf_dir f) s \<Longrightarrow>
      future_ok E f (rf_dir f) s'"
  shows "slots_ok E (put_source a s' (r\<lparr>poller := p, woken := ws\<rparr>)) F"
  unfolding slots_ok_def
proof (intro allI impI)
  fix i b f assume i: "F i = Some (b, f)"
  with F obtain t where t: "live E r b t" "future_ok E f (rf_dir f) t" by (rule slots_okD)
  show "\<exists>t. live E (put_source a s' (r\<lparr>poller := p, woken := ws\<rparr>)) b t \<and>
      future_ok E f (rf_dir f) t"
    unfolding live_put_source [OF a key]
    using t i keep [of i f] live_unique [OF a] by (cases "b = a") auto
qed

lemma poll_ready_wakers:
  assumes "poll_ready E d cx s r = (res, s', r')"
  shows "wakers (src_state s' d') = wakers (src_state s d')"
proof (cases rule: poll_ready_cases [of s d E cx r])
  case fresh
  with assms show ?thesis by auto
next
  case (same w)
  with assms show ?thesis by auto
next
  case (registered res1 r1 s1)
  with assms show ?thesis by auto
qed

lemma future_ok_wakers:
  assumes "future_ok E f d s" "\<And>k. sl_get (wslab E) k (wakers (src_state s d)) \<noteq> None \<Longrightarrow>
      rf_index f = Some k \<Longrightarrow> sl_get (wslab E) k (wakers (src_state s' d)) \<noteq> None"
  shows "future_ok E f d s'"
  using assms by (auto simp: future_ok_def split: option.splits)

text \<open>A poll of a future claims a vacant slot or none.\<close>

lemma ready_poll_slots:
  assumes f: "future_ok E f d s" and poll: "ready_poll E f cx s r = Inr (res, f', s', r')"
  shows "future_ok E f' d s'" "future_ok E g e s \<Longrightarrow> future_ok E g e s'"
    and "rf_index f' = rf_index f \<or> (\<exists>k. rf_index f' = Some k \<and>
      sl_get (wslab E) k (wakers (src_state s d)) = None)"
proof -
  have slab: "slab_ok (wslab E)" using f by (simp add: future_ok_def)
  have "future_ok E f' d s' \<and> (future_ok E g e s \<longrightarrow> future_ok E g e s') \<and>
      (rf_index f' = rf_index f \<or> (\<exists>k. rf_index f' = Some k \<and>
        sl_get (wslab E) k (wakers (src_state s d)) = None))"
    using f
  proof (cases rule: ready_poll_cases [of E f d s cx r])
    case fresh
    with poll f show ?thesis by auto
  next
    case (stored res1 r1 s1 f1 i sl)
    with poll have out: "f1 = f'" "s1 = s'" by auto
    have "future_ok E g e s'" if "future_ok E g e s"
      using that stored(2,3) out by (auto intro!: future_ok_wakers [OF that])
    moreover have "future_ok E f' d s'"
      using stored(2,3,5,6,7) slab out by (simp add: future_ok_def)
    ultimately show ?thesis using stored(4,5,8) out by (cases "rf_index f") auto
  qed
  then show "future_ok E f' d s'" "future_ok E g e s \<Longrightarrow> future_ok E g e s'"
    "rf_index f' = rf_index f \<or> (\<exists>k. rf_index f' = Some k \<and>
      sl_get (wslab E) k (wakers (src_state s d)) = None)" by blast+
qed

lemma drop_future_keeps:
  assumes slab: "slab_ok (wslab E)" and drop: "ready_drop E f s = Inr s'"
    and g: "future_ok E g (rf_dir g) s" "rf_dir f = rf_dir g \<Longrightarrow> rf_index f \<noteq> None \<Longrightarrow>
      rf_index f \<noteq> rf_index g"
  shows "future_ok E g (rf_dir g) s'"
  using slab
proof (cases rule: ready_drop_spec [where f = f and s = s])
  case (1 t)
  with drop have "t = s'" by simp
  with 1 g(2) show ?thesis
    by (intro future_ok_wakers [OF g(1)]) (cases "rf_dir f = rf_dir g"; auto)
qed

lemma owners_ok_update:
  assumes F: "owners_ok F" "F i = Some (a, f)" "rf_dir f' = rf_dir f"
    and new: "rf_index f' = rf_index f \<or> (\<forall>j g. F j = Some (a, g) \<longrightarrow> rf_dir g = rf_dir f \<longrightarrow>
      rf_index g \<noteq> rf_index f')"
  shows "owners_ok (F(i \<mapsto> (a, f')))"
  unfolding owners_ok_def
proof (intro allI impI)
  fix j k b g h
  assume j: "(F(i \<mapsto> (a, f'))) j = Some (b, g)" and k: "(F(i \<mapsto> (a, f'))) k = Some (b, h)"
    and eq: "rf_dir g = rf_dir h" "rf_index g = rf_index h" "rf_index g \<noteq> None"
  have clash: False if "F m = Some (a, g')" "m \<noteq> i" "rf_dir g' = rf_dir f"
      "rf_index g' = rf_index f'" "rf_index f' \<noteq> None" for m g'
    using that new F unfolding owners_ok_def by metis
  consider "j = i" "k = i" | "j = i" "k \<noteq> i" | "j \<noteq> i" "k = i" | "j \<noteq> i" "k \<noteq> i" by blast
  then show "j = k"
  proof cases
    case 2
    with j k eq F(3) clash [of k h] show ?thesis by simp
  next
    case 3
    with j k eq F(3) clash [of j g] show ?thesis by simp
  next
    case 4
    with j k eq F(1) show ?thesis unfolding owners_ok_def by simp
  qed simp
qed

lemma deliver_one_slots:
  assumes ok: "reactor_ok E items r" and F: "slots_ok E r F"
    and del: "deliver_events E tk [ev] ws r = (res, ws', r')"
  shows "slots_ok E r' F"
  using reactor_ok_parts(2) [OF ok] del
proof (cases rule: deliver_one_cases)
  case unknown
  with F show ?thesis by simp
next
  case (known a s s' p)
  note K = deliver_source_keys [OF reactor_ok_parts(3) [OF ok] known(4)]
  show ?thesis
    unfolding known(5)
    by (rule slots_ok_store [OF F known(2) K(1)]) (rule deliver_source_future_ok [OF _ known(4)])
qed

text \<open>The steps on one source, as far as the futures go.\<close>

lemma close_keeps_slots:
  assumes ok: "reactor_ok E items r" and S: "slots_ok E r F" and a: "live E r a s"
    and unused: "\<forall>i b f. F i = Some (b, f) \<longrightarrow> b \<noteq> a" and rem: "remove_io E s r = Inr (res, r')"
  shows "slots_ok E r' F"
proof -
  from ok a rem obtain p ss where R: "r' = r\<lparr>sources := ss, poller := p\<rparr>"
    "\<And>j. sl_get (sslab E) j ss = (if j = src_key s then None else sl_get (sslab E) j (sources r))"
    by (rule remove_io_frame) blast
  show ?thesis
  proof (rule slots_ok_live [OF S])
    fix b t assume "\<exists>i f. F i = Some (b, f)" and t: "live E r b t"
    with unused have "b \<noteq> a" by blast
    with t a have "src_key t \<noteq> src_key s" by (auto simp: live_def)
    with t R show "live E r' b t" by (simp add: live_def)
  qed
qed

lemma poll_keeps_slots:
  assumes ok: "reactor_ok E items r" and S: "slots_ok E r F" and a: "live E r a s"
    and poll: "poll_source E d cx a r = Inr (res, r')"
  shows "slots_ok E r' F"
proof -
  from ok a poll obtain s' p ws where Q: "poll_ready E d cx s r = (res, s', r\<lparr>poller := p, woken := ws\<rparr>)"
    "r' = put_source a s' (r\<lparr>poller := p, woken := ws\<rparr>)" "src_key s' = src_key s"
    by (rule poll_source_store) blast
  have "future_ok E f (rf_dir f) s'" if "future_ok E f (rf_dir f) s" for f
    using poll_ready_wakers [OF Q(1)] by (intro future_ok_wakers [OF that]) simp
  then show ?thesis unfolding Q(2) by (intro slots_ok_store [OF S a Q(3)])
qed

lemma future_new_keeps:
  assumes slab: "slab_ok (wslab E)" and S: "slots_ok E r F" "owners_ok F" and a: "live E r a s"
  shows "slots_ok E r (F(i \<mapsto> (a, source_ready d)))" "owners_ok (F(i \<mapsto> (a, source_ready d)))"
  using assms unfolding slots_ok_def owners_ok_def by (auto simp: source_ready_def future_ok_def)

lemma future_poll_keeps:
  assumes ok: "reactor_ok E items r" and S: "slots_ok E r F" and O: "owners_ok F"
    and i: "F i = Some (a, f)" and poll: "poll_future E f cx a r = Inr (res, f', r')"
  shows "slots_ok E r' (F(i \<mapsto> (a, f')))" "owners_ok (F(i \<mapsto> (a, f')))"
proof -
  from S i obtain s where s: "live E r a s" "future_ok E f (rf_dir f) s" by (rule slots_okD)
  from ok s poll obtain s' p where Q: "ready_poll E f cx s r = Inr (res, f', s', r\<lparr>poller := p\<rparr>)"
    "r' = put_source a s' (r\<lparr>poller := p, woken := woken r\<rparr>)" "src_key s' = src_key s"
    by (rule poll_future_store) blast
  note R = ready_poll_slots [OF s(2) Q(1)]
  have dir: "rf_dir f' = rf_dir f" using ready_poll_frame(4) [OF s(2) Q(1)] .
  have "slots_ok E r' F" unfolding Q(2) by (rule slots_ok_store [OF S s(1) Q(3)]) (rule R(2))
  moreover have "live E r' a s'" unfolding Q(2) live_put_source [OF s(1) Q(3)] by simp
  ultimately show "slots_ok E r' (F(i \<mapsto> (a, f')))" using R(1) dir unfolding slots_ok_def by auto
  have "rf_index g \<noteq> rf_index f'"
    if "rf_index f' = Some k" "sl_get (wslab E) k (wakers (src_state s (rf_dir f))) = None"
      "F j = Some (a, g)" "rf_dir g = rf_dir f" for k j g
  proof -
    from S that(3) obtain t where "live E r a t" "future_ok E g (rf_dir g) t" by (rule slots_okD)
    with live_unique [OF s(1)] that show ?thesis by (auto simp: future_ok_def)
  qed
  then show "owners_ok (F(i \<mapsto> (a, f')))" using R(3) by (intro owners_ok_update [OF O i dir]) blast
qed

lemma future_drop_keeps:
  assumes ok: "reactor_ok E items r" and S: "slots_ok E r F" and O: "owners_ok F"
    and i: "F i = Some (a, f)" and drop: "drop_future E f a r = Inr r'"
  shows "slots_ok E r' (F(i := None))" "owners_ok (F(i := None))"
proof -
  from S i obtain s where s: "live E r a s" by (rule slots_okD)
  from ok s drop obtain s' where Q: "ready_drop E f s = Inr s'"
    "r' = put_source a s' (r\<lparr>poller := poller r, woken := woken r\<rparr>)" "src_key s' = src_key s"
    by (rule drop_future_store) blast
  have S': "slots_ok E r (F(i := None))" using S by (auto simp: slots_ok_def)
  show "slots_ok E r' (F(i := None))"
    unfolding Q(2)
  proof (rule slots_ok_store [OF S' s Q(3)])
    fix j g assume j: "(F(i := None)) j = Some (a, g)" and g: "future_ok E g (rf_dir g) s"
    then have "j \<noteq> i" "F j = Some (a, g)" by (auto split: if_splits)
    with O i show "future_ok E g (rf_dir g) s'"
      unfolding owners_ok_def by (intro drop_future_keeps [OF reactor_ok_parts(3) [OF ok] Q(1) g]) metis
  qed
  show "owners_ok (F(i := None))" using O by (auto simp: owners_ok_def)
qed

lemma step_futures_ok:
  assumes step: "sys_step E io st st'" and ok: "reactor_ok E items (sys_reactor st)"
    and F: "futures_ok E st"
  shows "futures_ok E st'"
proof -
  from F have S: "slots_ok E (sys_reactor st) (sys_futures st)" and O: "owners_ok (sys_futures st)"
    by (simp_all add: futures_ok_def)
  from step ok show ?thesis
  proof (cases rule: sys_step_split)
    case quiet
    with slots_ok_same [OF S, of "sys_reactor st'"] O show ?thesis
      by (simp add: quiet_step_def Let_def futures_ok_def)
  next
    case (opened g res)
    have "slots_ok E (sys_reactor st') (sys_futures st)"
      using insert_io_keeps_live [OF ok _ opened(1)] by (intro slots_ok_live [OF S])
    with O show ?thesis by (subst opened(2)) (simp add: futures_ok_def)
  next
    case (closed a s res)
    show ?thesis using close_keeps_slots [OF ok S closed(1-3)] O by (subst closed(4)) (simp add: futures_ok_def)
  next
    case (polled a s d cx res)
    show ?thesis using poll_keeps_slots [OF ok S polled(1,2)] O by (subst polled(3)) (simp add: futures_ok_def)
  next
    case (future_new a s i d)
    with future_new_keeps [OF reactor_ok_parts(3) [OF ok] S O future_new(1)] show ?thesis
      by (simp add: futures_ok_def)
  next
    case (future_polled i a f cx res f')
    show ?thesis using future_poll_keeps [OF ok S O future_polled(1,2)] by (subst future_polled(3)) (simp add: futures_ok_def)
  next
    case (future_dropped i a f)
    show ?thesis using future_drop_keeps [OF ok S O future_dropped(1,2)] by (subst future_dropped(3)) (simp add: futures_ok_def)
  next
    case (event tk ev evs ws res ws')
    with deliver_one_slots [OF ok S event(2)] O show ?thesis by (simp add: futures_ok_def)
  qed
qed

section \<open>The poller stays armed\<close>

abbreviation exempt_keys :: "('p, 'sw, 'ss, 'q, 'reg) sys \<Rightarrow> slab_key set" where
  "exempt_keys st \<equiv> sys_lost st \<union> pending_keys (sys_phase st)"

context interest_backend begin

lemma deliver_one_failed_armed:
  assumes I: "armed K r" and S: "sources_ok E r" and K: "ev_key ev \<in> K"
    and del: "deliver_events E tk [ev] ws r = (Inl e, ws', r')"
  shows "armed K r'"
proof -
  have okp: "ok (poller r)" using I by (rule interest_ok_poller)
  then have slab: "slab_ok (wslab E)" using slabs by blast
  from S slab show ?thesis
  proof (cases rule: deliver_events_step [where ev = ev and tk = tk and evs = "[]" and ws = ws])
    case unknown
    with del show ?thesis by simp
  next
    case (failed s s1 ws1 r1 e1)
    with del have r1: "r1 = r'" by simp
    from failed(3) r1 have at': "source_at E r' = (source_at E r)(ev_key ev \<mapsto> s1)"
      by (simp add: stored_at_def)
    have mod: "reg_modify (reg_calls E) (registration s1) (interest_event E s1) (poller r) =
        (Inl e1, poller r')" using failed(5) unfolding r1 .
    have s1: "registration s1 = registration s"
      using deliver_source_keys [OF slab failed(2)] by simp
    show ?thesis
      using modify_err [OF okp mod] K
      by (intro quiet_store [OF I failed(1) at' s1]) auto
  next
    case (passed s s1 ws1 r1)
    with del show ?thesis by simp
  qed
qed

text \<open>Calls that leave the store of sources and the poller's table alone.\<close>

lemma insert_timer_armed:
  assumes ok: "reactor_ok E items r" and I: "armed K r" and ins: "insert_timer E t w r = Some (Inr (i, r'))"
  shows "armed K r'"
proof -
  note P = reactor_ok_parts(1) [OF ok] and okp = interest_ok_poller [OF I]
  from P obtain r1 where "insert_timer E t w r = Some (Inr (id_generator r, r1))" "same_io r r1"
    by (rule ts.insert_cases)
  with ins have same: "same_io r r'" by simp
  obtain nres p where n: "po_notify (poll_calls E) (poller r) = (nres, p)" by force
  have "ok (poller r')" "table (poller r') = table (poller r)"
    using insert_timer_poller [OF P ins] notify_law [OF okp n] n by simp_all
  then show ?thesis by (rule interest_ok_cong [OF I source_at_same_io [OF same]])
qed

lemma remove_timer_armed:
  assumes ok: "reactor_ok E items r" and I: "armed K r" and rem: "remove_timer E t i r = Some (Inr r')"
  shows "armed K r'"
proof -
  note P = reactor_ok_parts(1) [OF ok]
  from P obtain r1 where "remove_timer E t i r = Some (Inr r1)" "same_io r r1" by (rule ts.remove_cases)
  with rem have same: "same_io r r'" by simp
  have "poller r' = poller r" using remove_timer_poller [OF P rem] .
  then show ?thesis using interest_ok_poller [OF I] by (intro interest_ok_cong [OF I source_at_same_io [OF same]]) simp_all
qed

lemma quiet_round_armed:
  assumes ok: "reactor_ok E items r" and I: "armed K r" and ev: "events r = []" and now: "now < instant_max"
    and wait: "react_wait E t r = (res, r1)" "\<forall>n. res \<noteq> Inr (Suc n)"
    and fin: "react_finish E now t tk ws res r1 = Inr (out, r')"
  shows "armed K r'"
proof -
  note Q = react_quiet [OF wait_buffer(1) [OF wait(1) ok] now _ fin]
  have "case res of Inl _ \<Rightarrow> True | Inr _ \<Rightarrow> events r1 = []"
  proof (cases res)
    case (Inr n)
    with wait(2) have "res = Inr 0" by (cases n) auto
    with react_wait_ok(2) [OF wait(1) reactor_ok_parts(5) [OF ok] ev] Inr show ?thesis by simp
  qed simp
  with react_wait_armed [OF I wait(1)] have I1: "armed K r1" by (auto split: sum.splits)
  have "source_at E r' = source_at E r1" by (rule source_at_cong) (use Q(3,4) wait(2) in auto)
  then show ?thesis using Q(6) wait(2) interest_ok_poller [OF I1] by (intro interest_ok_cong [OF I1]) simp_all
qed

lemma step_armed:
  assumes step: "sys_step E io st st'" and ok: "reactor_ok E items (sys_reactor st)"
    and F: "futures_ok E st" and R: "rounds_ok st"
    and I: "armed (exempt_keys st) (sys_reactor st)"
    and io: "\<And>p p'. io p p' \<Longrightarrow> ok p \<Longrightarrow> ok p' \<and> table p' = table p"
  shows "armed (exempt_keys st') (sys_reactor st')"
proof -
  note P = reactor_ok_parts [OF ok]
  have okp: "ok (poller (sys_reactor st))" using I by (rule interest_ok_poller)
  from step show ?thesis
  proof (cases rule: sys_step.cases)
    case (step_io p)
    with io [OF step_io(2) okp] show ?thesis by (simp add: interest_ok_cong [OF I])
  next
    case (step_open g res r')
    have "armed (exempt_keys st) r'"
      by (rule insert_io_armed [OF I P(2) _ step_open(2)]) (use step_open(3) in blast)
    with step_open(1) show ?thesis by simp
  next
    case (step_close a s res r')
    from remove_io_armed [OF I P(2) live_source_at [OF step_close(2)] step_close(4)]
    have "armed (exempt_keys st') r'"
      by (rule interest_ok_mono) (auto simp: step_close(1))
    with step_close(1) show ?thesis by simp
  next
    case (step_poll a s d cx res r')
    from poll_source_armed [OF ok step_poll(2) I step_poll(3)]
    have "armed (exempt_keys st') r'"
      by (rule interest_ok_mono) (simp add: step_poll(1) lose_union)
    with step_poll(1) show ?thesis by simp
  next
    case (step_future_poll i a f s cx res f' r')
    from futures_okD [OF F step_future_poll(2)] live_unique [OF step_future_poll(3)]
    have "future_ok E f (rf_dir f) s" by blast
    from poll_future_armed [OF ok step_future_poll(3) this I step_future_poll(4)]
    have "armed (exempt_keys st') r'"
      by (rule interest_ok_mono) (simp add: step_future_poll(1) lose_union)
    with step_future_poll(1) show ?thesis by simp
  next
    case (step_future_drop i a f r')
    from futures_okD [OF F step_future_drop(2)] obtain s where "live E (sys_reactor st) a s" by blast
    from drop_future_armed [OF ok this I step_future_drop(3)] step_future_drop(1) show ?thesis
      by simp
  next
    case (step_timer_insert t w i r')
    with insert_timer_armed [OF ok I] show ?thesis by simp
  next
    case (step_timer_remove t i r')
    with remove_timer_armed [OF ok I] show ?thesis by simp
  next
    case (step_prepare now timeout t tk ws r')
    note Q = react_prepare_reactor_ok [OF ok step_prepare(3,4)]
    have "source_at E r' = source_at E (sys_reactor st)" by (rule source_at_cong) (simp_all add: Q)
    with Q okp step_prepare(1,2) interest_ok_cong [OF I] show ?thesis by simp
  next
    case (step_wait t tk ws n r')
    with react_wait_armed [OF I step_wait(3)] show ?thesis by simp
  next
    case (step_quiet t tk ws now res r1 out r')
    have "events (sys_reactor st) = []" using R step_quiet(2) by (simp add: rounds_ok_def)
    with quiet_round_armed [OF ok I _ step_quiet(3-6)] step_quiet(1,2) show ?thesis by simp
  next
    case (step_event tk ev evs ws ws' r')
    have "exempt_keys st \<subseteq> (sys_lost st - {ev_key ev} \<union> ev_key ` set evs) \<union> ev_key ` set [ev]"
      using step_event(2) by auto
    with I have "armed ((sys_lost st - {ev_key ev} \<union> ev_key ` set evs) \<union> ev_key ` set [ev]) (sys_reactor st)"
      by (rule interest_ok_mono)
    from deliver_events_armed [OF this P(2) step_event(3)] step_event(1) show ?thesis by simp
  next
    case (step_event_failed tk ev evs ws e ws' r')
    have "armed (exempt_keys st) r'"
      using step_event_failed(2) by (intro deliver_one_failed_armed [OF I P(2) _ step_event_failed(3)]) simp
    with step_event_failed(1,2) show ?thesis by simp
  next
    case (step_done tk ws)
    then have "armed (exempt_keys st) (wake_all ws (sys_reactor st))"
      using okp by (intro interest_ok_cong [OF I]) simp_all
    with step_done show ?thesis by simp
  qed (use I in auto)
qed

end

section \<open>Runs\<close>

text \<open>The invariant that does not speak of the poller.\<close>

definition sys_ok :: "('p, 'sw, 'ss, 'q, 'reg) crates \<Rightarrow> ('q \<Rightarrow> timer_op list) \<Rightarrow>
    ('p, 'sw, 'ss, 'q, 'reg) sys \<Rightarrow> bool" where
  "sys_ok E items st \<longleftrightarrow> reactor_ok E items (sys_reactor st) \<and> futures_ok E st \<and> rounds_ok st"

lemma sys_ok_init:
  assumes "crates_ok E items"
  shows "sys_ok E items (sys_init E p)"
  using reactor_ok_new(1) [OF assms, of p]
  by (simp add: sys_ok_def sys_init_def futures_ok_def slots_ok_def owners_ok_def rounds_ok_def
      ticks_follow_def reactor_new_def)

lemma sys_ok_step:
  assumes "sys_ok E items st" "sys_step E io st st'"
  shows "sys_ok E items st'"
proof -
  from assms(1) have R: "reactor_ok E items (sys_reactor st)" and F: "futures_ok E st"
    and T: "rounds_ok st" by (simp_all add: sys_ok_def)
  show ?thesis
    unfolding sys_ok_def
    using step_reactor_ok [OF assms(2) R futures_okD [OF F]] step_futures_ok [OF assms(2) R F]
      step_rounds_ok [OF assms(2) R futures_okD [OF F] T] by simp
qed

lemma sys_ok_steps: "sys_steps E io st st' \<Longrightarrow> sys_ok E items st \<Longrightarrow> sys_ok E items st'"
  by (induction rule: sys_steps.induct) (auto intro: sys_ok_step)

context interest_backend begin

lemma steps_armed:
  assumes "sys_steps E io st st'" "sys_ok E items st" "armed (exempt_keys st) (sys_reactor st)"
    and io: "\<And>p p'. io p p' \<Longrightarrow> ok p \<Longrightarrow> ok p' \<and> table p' = table p"
  shows "armed (exempt_keys st') (sys_reactor st')"
  using assms(1-3)
proof (induction rule: sys_steps.induct)
  case (steps_step st st' st'')
  then have "sys_ok E items st'" using sys_ok_steps by blast
  with steps_step step_armed [OF steps_step(2), of items] io show ?case by (simp add: sys_ok_def)
qed

lemma init_armed:
  assumes "crates_ok E items" "ok p"
  shows "armed (exempt_keys (sys_init E p)) (sys_reactor (sys_init E p))"
  using reactor_ok_new(3) [OF assms(1), of p] assms(2)
  by (simp add: interest_ok_def sys_init_def) (simp add: reactor_new_def)

end

section \<open>Old and new events\<close>

text \<open>The round of a direction's last event never changes to an earlier one than the current.\<close>

lemma step_last:
  assumes "sys_step E io st st'"
  shows "sys_round st \<le> sys_round st'"
    and "sys_last st' a d = sys_last st a d \<or> sys_last st' a d = sys_round st"
  using assms by (cases rule: sys_step.cases; auto simp: log_event_def)+

lemma steps_last:
  "sys_steps E io st st' \<Longrightarrow> sys_round st \<le> sys_round st' \<and>
     (sys_last st' a d = sys_last st a d \<or> sys_round st \<le> sys_last st' a d)"
proof (induction rule: sys_steps.induct)
  case (steps_step st st' st'')
  with step_last(1) [OF steps_step(2)] step_last(2) [OF steps_step(2), of a d] show ?case by auto
qed simp

lemma sys_ok_tick:
  assumes "sys_ok E items st" "live E (sys_reactor st) a s"
  shows "tick (src_state s d) = of_nat (sys_last st a d)" "sys_last st a d \<le> sys_round st"
    and "ticker (sys_reactor st) = of_nat (sys_round st)"
  using assms by (simp_all add: sys_ok_def rounds_ok_def ticks_follow_def live_def)

text \<open>
  A wait that remembers the ticks of a moment is over exactly when an event of a later round
  than that moment's has reached its direction.
\<close>

lemma fresh_iff_newer:
  assumes m: "sys_last st a d \<le> sys_round st"
    and hist: "sys_last st' a d = sys_last st a d \<or> sys_round st \<le> sys_last st' a d"
    and near: "sys_last st' a d - sys_last st a d < 2 ^ 64"
  shows "fresh_event (Some (of_nat (sys_round st), of_nat (sys_last st a d)))
      (of_nat (sys_last st' a d)) \<longleftrightarrow> sys_round st < sys_last st' a d"
proof (cases "sys_round st < sys_last st' a d")
  case True
  have "sys_last st' a d - sys_round st < 2 ^ 64" using m near by linarith
  with True m near have "(of_nat (sys_last st' a d) :: usize) \<noteq> of_nat (sys_round st)"
    "(of_nat (sys_last st' a d) :: usize) \<noteq> of_nat (sys_last st a d)"
    using of_nat_usize_eq_iff [of "sys_round st" "sys_last st' a d"]
      of_nat_usize_eq_iff [of "sys_last st a d" "sys_last st' a d"] by auto
  with True show ?thesis by simp
next
  case False
  with hist m have "sys_last st' a d = sys_last st a d \<or> sys_last st' a d = sys_round st" by auto
  then show ?thesis
  proof
    assume "sys_last st' a d = sys_last st a d"
    then show ?thesis using False by simp
  next
    assume "sys_last st' a d = sys_round st"
    then show ?thesis using False by simp
  qed
qed

text \<open>The first poll of a future that waits remembers the ticks of the moment.\<close>

lemma first_poll_ticks:
  assumes f: "future_ok E f d s" "rf_index f = None"
    and poll: "ready_poll E f cx s r = Inr (Poll_Pending, f', s', r')"
  shows "rf_ticks f' = Some (ticker r, tick (src_state s d))" "rf_dir f' = d"
proof -
  have "rf_ticks f' = Some (ticker r, tick (src_state s d)) \<and> rf_dir f' = d"
    using f(1)
  proof (cases rule: ready_poll_cases [of E f d s cx r])
    case fresh
    with poll show ?thesis by simp
  next
    case (stored res1 r1 s1 f1 i sl)
    with poll have "f1 = f'" by simp
    with stored(4,6) f(2) have "f' = f\<lparr>rf_index := Some i,
        rf_ticks := Some (ticker r, tick (src_state s d))\<rparr>" "rf_dir f' = d" by simp_all
    then show ?thesis by simp
  qed
  then show "rf_ticks f' = Some (ticker r, tick (src_state s d))" "rf_dir f' = d" by simp_all
qed

lemma poll_future_done_iff:
  assumes "reactor_ok E items r" "live E r a s" "future_ok E f d s"
  shows "(\<exists>f' r'. poll_future E f cx a r = Inr (Poll_Ready (Inr ()), f', r')) \<longleftrightarrow>
    fresh_event (rf_ticks f) (tick (src_state s d))"
  using assms
proof (cases rule: poll_future_cases [where cx = cx])
  case (1 res f' s' p r')
  show ?thesis
  proof
    assume "\<exists>f' r'. poll_future E f cx a r = Inr (Poll_Ready (Inr ()), f', r')"
    with 1 have "ready_poll E f cx s r = Inr (Poll_Ready (Inr ()), f', s', r\<lparr>poller := p\<rparr>)" by auto
    then show "fresh_event (rf_ticks f) (tick (src_state s d))"
      using rp.only_fresh [OF assms(3)] by (simp add: ready_poll_as_def)
  next
    assume "fresh_event (rf_ticks f) (tick (src_state s d))"
    with 1 rp.completes [OF assms(3), of cx r]
    show "\<exists>f' r'. poll_future E f cx a r = Inr (Poll_Ready (Inr ()), f', r')"
      by (auto simp: ready_poll_as_def)
  qed
qed

end
