(* ===== verification/Reactor_Properties.thy ===== *)
theory Reactor_Properties
  imports Sim_Crates Rounds
begin

text \<open>
  The properties of the reactor and its sources. Each one with hypotheses is followed by its
  application to the concrete crates of \<open>Sim_Crates\<close>.
\<close>

section \<open>Runs of the concrete reactor\<close>

text \<open>A source on descriptor 3, a reader that waits on it, and a round that brings its event.\<close>

definition ev_read :: event where
  "ev_read = \<lparr>ev_key = 0, ev_readable = True, ev_writable = False\<rparr>"

definition run_opened :: sim_reactor where
  "run_opened = (case insert_io sim \<lparr>raw = 3\<rparr> (sim_reactor [Inr [ev_read]] []) of
     Inr (_, r) \<Rightarrow> r | Inl _ \<Rightarrow> sim_reactor [] [])"

lemma run_opened_eq:
  "insert_io sim \<lparr>raw = 3\<rparr> (sim_reactor [Inr [ev_read]] []) = Inr (Inr 0, run_opened)"
  by (simp add: run_opened_def insert_io_def sim_reactor_def reactor_new_def Let_def
      sim_insert_def sim_vacant_def unix_registration_defs sim_fd_calls_def sim_poller_new_def)

definition source3 :: "(sim_sw, registration_unix) source" where
  "source3 = \<lparr>registration = \<lparr>raw = 3\<rparr>, src_key = 0, src_state = \<lambda>_. direction_default sim\<rparr>"

lemma run_opened_simps:
  "heap run_opened 0 = Some source3" "sources run_opened = [Some 0]" "timers run_opened = []"
  "timer_ops run_opened = []" "ticker run_opened = 0" "woken run_opened = []"
  "next_addr run_opened = 1"
  "poller run_opened = \<lparr>sp_watched = [3 \<mapsto> event_none 0], sp_script = [Inr [ev_read]], sp_refuse = [],
     sp_notified = 0,
     sp_nonblock = (\<lambda>_. False), sp_data = (\<lambda>_. []), sp_open = [], sp_closed = []\<rparr>"
  by (simp_all add: run_opened_def insert_io_def sim_reactor_def reactor_new_def Let_def
      sim_insert_def sim_vacant_def unix_registration_defs sim_fd_calls_def sim_poller_new_def
      sim_set_def source3_def sim_queue_def)

text \<open>The reader has polled and waits.\<close>

definition run_polled :: sim_reactor where
  "run_polled = (case poll_source sim READ 7 0 run_opened of
     Inr (_, r) \<Rightarrow> r | Inl _ \<Rightarrow> run_opened)"

lemmas sim_eval = run_opened_simps source3_def poll_source_def deref_def put_source_def
  poll_ready_def update_interest_def dir_is_empty_def interest_event_def event_none_def
  direction_default_def sim_iter_def enumerate_eq_zip set_dir_def reactor_ticker_def
  unix_registration_defs sim_fd_calls_def sim_set_def Let_def

lemma run_polled_eq: "poll_source sim READ 7 0 run_opened = Inr (Poll_Pending, run_polled)"
  by (simp add: run_polled_def sim_eval)

definition source3_waits :: "(sim_sw, registration_unix) source" where
  "source3_waits = set_dir READ \<lparr>tick = 0, ticks = Some (0, 0), dwaker = Some 7, wakers = []\<rparr> source3"

lemma run_polled_simps:
  "heap run_polled 0 = Some source3_waits" "sources run_polled = [Some 0]"
  "timers run_polled = []" "timer_ops run_polled = []" "ticker run_polled = 0"
  "woken run_polled = []"
  "poller run_polled = \<lparr>sp_watched = [3 \<mapsto> ev_read], sp_script = [Inr [ev_read]], sp_refuse = [],
     sp_notified = 0,
     sp_nonblock = (\<lambda>_. False), sp_data = (\<lambda>_. []), sp_open = [], sp_closed = []\<rparr>"
  by (simp_all add: run_polled_def sim_eval source3_waits_def ev_read_def)

lemma run_opened_ok [simp]: "reactor_ok sim id run_opened"
  using insert_io_reactor_ok(1) [OF sim_reactor_ok run_opened_eq] .

lemma run_opened_live: "live sim run_opened 0 source3"
  by (simp add: live_def run_opened_simps source3_def sim_get_def)

lemma run_polled_live: "live sim run_polled 0 source3_waits"
  by (simp add: live_def run_polled_simps source3_waits_def source3_def sim_get_def)

lemma run_polled_ok [simp]: "reactor_ok sim id run_polled"
  using poll_source_reactor_ok [OF run_opened_ok run_opened_live run_polled_eq] .

definition sys_polled :: "(sim_poller, sim_sw, sim_ss, timer_op list, registration_unix) sys" where
  "sys_polled = (sys_init sim (sim_poller_new [Inr [ev_read]] []))\<lparr>sys_reactor := run_polled\<rparr>"

text \<open>The tasks' calls leave what the poller watches alone.\<close>

definition sim_io :: "sim_poller \<Rightarrow> sim_poller \<Rightarrow> bool" where
  "sim_io p p' \<longleftrightarrow> sp_watched p' = sp_watched p"

lemma sys_polled_steps: "sys_steps sim sim_io (sys_init sim (sim_poller_new [Inr [ev_read]] [])) sys_polled"
proof -
  let ?s = "sys_init sim (sim_poller_new [Inr [ev_read]] [])"
  have "sys_step sim sim_io ?s (?s\<lparr>sys_reactor := run_opened\<rparr>)"
  proof (rule step_open)
    show "insert_io sim \<lparr>raw = 3\<rparr> (sys_reactor ?s) = Inr (Inr 0, run_opened)"
      using run_opened_eq by (simp add: sys_init_def sim_reactor_def)
  qed (simp add: sys_init_def reactor_new_def source_at_def sim_get_def)
  moreover have "sys_step sim sim_io (?s\<lparr>sys_reactor := run_opened\<rparr>)
      (?s\<lparr>sys_reactor := run_opened, sys_reactor := run_polled, sys_lost :=
        lose sim READ source3 (Poll_Pending :: unit io_result poll) (sys_lost (?s\<lparr>sys_reactor := run_opened\<rparr>))\<rparr>)"
    by (rule step_poll [where a = 0 and d = READ and cx = 7]) (simp_all add: run_opened_live run_polled_eq)
  moreover have "?s\<lparr>sys_reactor := run_opened, sys_reactor := run_polled, sys_lost :=
        lose sim READ source3 (Poll_Pending :: unit io_result poll) (sys_lost (?s\<lparr>sys_reactor := run_opened\<rparr>))\<rparr>
      = sys_polled"
    by (simp add: sys_polled_def sys_init_def lose_def)
  ultimately show ?thesis by (metis sys_steps.intros)
qed

subsection \<open>A round for a future\<close>

text \<open>The same with a \<open>readable()\<close> future, and the round that brings its event.\<close>

definition future_waits :: ready_future where
  "future_waits = \<lparr>rf_dir = READ, rf_ticks = Some (0, 0), rf_index = Some 0\<rparr>"

definition run_future :: sim_reactor where
  "run_future = (case poll_future sim (source_ready READ) 7 0 run_opened of
     Inr (_, _, r) \<Rightarrow> r | Inl _ \<Rightarrow> run_opened)"

lemmas future_eval = poll_future_def ready_poll_def source_ready_def future_waits_def
  sim_insert_def sim_vacant_def sim_put_def sim_get_def

lemma run_future_eq:
  "poll_future sim (source_ready READ) 7 0 run_opened = Inr (Poll_Pending, future_waits, run_future)"
  by (simp add: run_future_def sim_eval future_eval)

definition source3_future :: "(sim_sw, registration_unix) source" where
  "source3_future =
     set_dir READ \<lparr>tick = 0, ticks = None, dwaker = None, wakers = [Some (Some 7)]\<rparr> source3"

lemma run_future_simps:
  "heap run_future 0 = Some source3_future" "sources run_future = [Some 0]"
  "timers run_future = []" "timer_ops run_future = []" "ticker run_future = 0"
  "woken run_future = []" "events run_future = []"
  "poller run_future = \<lparr>sp_watched = [3 \<mapsto> ev_read], sp_script = [Inr [ev_read]], sp_refuse = [],
     sp_notified = 0,
     sp_nonblock = (\<lambda>_. False), sp_data = (\<lambda>_. []), sp_open = [], sp_closed = []\<rparr>"
  using run_opened_def
  by (simp_all add: run_future_def sim_eval future_eval source3_future_def ev_read_def)
    (simp_all add: run_opened_def insert_io_def sim_reactor_def reactor_new_def Let_def
      sim_insert_def sim_vacant_def unix_registration_defs sim_fd_calls_def sim_poller_new_def)

definition run_prepared :: sim_reactor where
  "run_prepared = run_future\<lparr>ticker := 1, events := []\<rparr>"

lemma run_prepared_eq:
  "react_prepare sim 10 None run_future = Inr (None, 1, [], run_prepared)"
proof -
  have "process_timers sim 10 [] run_future =
      Inr (None, [], run_future\<lparr>timer_ops := [], timers := []\<rparr>)"
    by (simp add: sim_process_timers run_future_simps early_instant btree_split_off_def
        btree_first_key_def)
  moreover have "run_future\<lparr>timer_ops := [], timers := []\<rparr> = run_future"
    using run_future_simps by (cases run_future) simp
  ultimately show ?thesis
    by (simp add: react_prepare_def run_prepared_def run_future_simps)
qed

definition run_waited :: sim_reactor where
  "run_waited = snd (react_wait sim None run_prepared)"

lemma run_waited_eq: "react_wait sim None run_prepared = (Inr 1, run_waited)"
  by (simp add: run_waited_def react_wait_def run_prepared_def run_future_simps
      sim_polling_def sim_wait_def)

lemma run_waited_simps:
  "heap run_waited 0 = Some source3_future" "sources run_waited = [Some 0]"
  "ticker run_waited = 1" "woken run_waited = []" "events run_waited = [ev_read]"
  "poller run_waited = \<lparr>sp_watched = [3 \<mapsto> event_none 0], sp_script = [], sp_refuse = [],
     sp_notified = 0,
     sp_nonblock = (\<lambda>_. False), sp_data = (\<lambda>_. []), sp_open = [], sp_closed = []\<rparr>"
  by (auto simp: run_waited_def react_wait_def run_prepared_def run_future_simps fun_eq_iff
      sim_polling_def sim_wait_def sim_disarm_def ev_read_def)

definition run_event :: sim_reactor where
  "run_event = snd (snd (deliver_events sim 1 [ev_read] [] run_waited))"

definition source3_served :: "(sim_sw, registration_unix) source" where
  "source3_served =
     set_dir READ \<lparr>tick = 1, ticks = None, dwaker = None, wakers = [Some None]\<rparr> source3"

lemma run_event_eq: "deliver_events sim 1 [ev_read] [] run_waited = (Inr (), [7], run_event)"
  by (simp add: run_event_def run_waited_simps ev_read_def sim_get_def source3_future_def
      deliver_source_def deliver_dir_def drain_into_def dir_is_empty_def sim_eval)

lemma run_event_simps:
  "heap run_event 0 = Some source3_served" "sources run_event = [Some 0]" "ticker run_event = 1"
  by (simp_all add: run_event_def run_waited_simps ev_read_def sim_get_def source3_future_def
      deliver_source_def deliver_dir_def drain_into_def dir_is_empty_def sim_eval source3_served_def)

lemma run_future_live: "live sim run_future 0 source3_future"
  by (simp add: live_def run_future_simps source3_future_def source3_def sim_get_def)

lemma run_future_ok [simp]: "reactor_ok sim id run_future"
  using run_opened_ok run_opened_live future_ok_new [of sim READ source3]
  by (cases rule: poll_future_cases [where cx = 7 and f = "source_ready READ"])
    (use run_future_eq in auto)

text \<open>The run as steps of the system, from the first state to the served future.\<close>

definition sys_opened :: "(sim_poller, sim_sw, sim_ss, timer_op list, registration_unix) sys" where
  "sys_opened = (sys_init sim (sim_poller_new [Inr [ev_read]] []))
     \<lparr>sys_reactor := run_opened, sys_futures := [0 \<mapsto> (0, source_ready READ)]\<rparr>"

definition sys_waiting :: "(sim_poller, sim_sw, sim_ss, timer_op list, registration_unix) sys" where
  "sys_waiting = sys_opened\<lparr>sys_reactor := run_future,
     sys_futures := (sys_futures sys_opened)(0 \<mapsto> (0, future_waits)), sys_lost := {}\<rparr>"

definition sys_served :: "(sim_poller, sim_sw, sim_ss, timer_op list, registration_unix) sys" where
  "sys_served = sys_waiting\<lparr>sys_round := 1, sys_reactor := run_event,
     sys_phase := Delivering 1 [] [7], sys_last := (\<lambda>a d. if a = 0 \<and> d = READ then 1 else 0)\<rparr>"

lemma sys_opened_steps: "sys_steps sim sim_io (sys_init sim (sim_poller_new [Inr [ev_read]] [])) sys_opened"
proof -
  let ?s = "sys_init sim (sim_poller_new [Inr [ev_read]] [])"
  have "sys_step sim sim_io ?s (?s\<lparr>sys_reactor := run_opened\<rparr>)"
  proof (rule step_open)
    show "insert_io sim \<lparr>raw = 3\<rparr> (sys_reactor ?s) = Inr (Inr 0, run_opened)"
      using run_opened_eq by (simp add: sys_init_def sim_reactor_def)
  qed (simp add: sys_init_def reactor_new_def source_at_def sim_get_def)
  moreover have "sys_step sim sim_io (?s\<lparr>sys_reactor := run_opened\<rparr>) (?s\<lparr>sys_reactor := run_opened,
      sys_futures := (sys_futures (?s\<lparr>sys_reactor := run_opened\<rparr>))(0 \<mapsto> (0, source_ready READ))\<rparr>)"
    by (rule step_future_new [where s = source3]) (simp_all add: run_opened_live sys_init_def)
  then have "sys_step sim sim_io (?s\<lparr>sys_reactor := run_opened\<rparr>) sys_opened"
    by (simp add: sys_opened_def sys_init_def)
  ultimately show ?thesis by (metis sys_steps.intros)
qed

lemma sys_served_steps: "sys_steps sim sim_io sys_waiting sys_served"
proof -
  let ?s1 = "sys_waiting\<lparr>sys_reactor := run_prepared, sys_phase := Waiting None 1 [], sys_round := 1\<rparr>"
  let ?s2 = "?s1\<lparr>sys_reactor := run_waited, sys_phase := Delivering 1 (events run_waited) []\<rparr>"
  have zero: "sys_round sys_waiting = 0" "sys_last sys_waiting = (\<lambda>_ _. 0)"
    "sys_phase sys_waiting = Idle" "sys_reactor sys_waiting = run_future" "sys_lost sys_waiting = {}"
    by (simp_all add: sys_waiting_def sys_opened_def sys_init_def)
  have "sys_step sim sim_io sys_waiting (sys_waiting\<lparr>sys_reactor := run_prepared,
      sys_phase := Waiting None 1 [], sys_round := Suc (sys_round sys_waiting)\<rparr>)"
    by (rule step_prepare [where now = 10 and timeout = None])
      (simp_all add: zero run_prepared_eq early_instant)
  then have a: "sys_step sim sim_io sys_waiting ?s1" by (simp add: zero)
  have b: "sys_step sim sim_io ?s1 ?s2"
    by (rule step_wait [where n = 0 and t = None]) (simp_all add: run_waited_eq)
  have "sys_step sim sim_io ?s2 (?s2\<lparr>sys_reactor := run_event, sys_phase := Delivering 1 [] [7],
      sys_last := log_event sim (sys_reactor ?s2) ev_read (sys_round ?s2) (sys_last ?s2),
      sys_lost := sys_lost ?s2 - {ev_key ev_read}\<rparr>)"
    by (rule step_event [where ev = ev_read and ws = "[]"])
      (simp_all add: run_waited_simps run_event_eq del: deliver_events.simps)
  moreover have "log_event sim run_waited ev_read 1 (\<lambda>_ _. 0) =
      (\<lambda>a d. if a = 0 \<and> d = READ then 1 else 0)"
  proof (intro ext)
    show "log_event sim run_waited ev_read 1 (\<lambda>_ _. 0) a d = (if a = 0 \<and> d = READ then 1 else 0)" for a d
      by (cases d) (simp_all add: log_event_def run_waited_simps ev_read_def sim_get_def)
  qed
  ultimately have c: "sys_step sim sim_io ?s2 sys_served"
    by (simp add: sys_served_def sys_waiting_def sys_opened_def sys_init_def)
  show ?thesis
    by (rule steps_step [OF steps_step [OF steps_step [OF steps_refl a] b] c])
qed

subsection \<open>A reader, a writer and a timer\<close>

text \<open>
  A reader and a writer wait on descriptor 3 and a timer is set for 5. The next round reports the
  descriptor readable; whether the poller then takes the re-registration for the writer is a
  parameter.
\<close>

definition source3_both :: "(sim_sw, registration_unix) source" where
  "source3_both = \<lparr>registration = \<lparr>raw = 3\<rparr>, src_key = 0, src_state = (\<lambda>d.
     \<lparr>tick = 0, ticks = Some (0, 0), dwaker = Some (case d of READ \<Rightarrow> 7 | WRITE \<Rightarrow> 8),
      wakers = []\<rparr>)\<rparr>"

definition run_two :: "io_error option \<Rightarrow> sim_reactor" where
  "run_two err = (sim_reactor [Inr [ev_read]] [err])
     \<lparr>poller := \<lparr>sp_watched = [3 \<mapsto> \<lparr>ev_key = 0, ev_readable = True, ev_writable = True\<rparr>],
        sp_script = [Inr [ev_read]], sp_refuse = [err], sp_notified = 1,
     sp_nonblock = (\<lambda>_. False), sp_data = (\<lambda>_. []), sp_open = [], sp_closed = []\<rparr>,
      sources := [Some 0], heap := [0 \<mapsto> source3_both], next_addr := 1,
      timer_ops := [Timer_Insert 5 1 9], id_generator := 2\<rparr>"

lemma run_two_simps:
  "heap (run_two err) = [0 \<mapsto> source3_both]" "sources (run_two err) = [Some 0]"
  "timers (run_two err) = []" "timer_ops (run_two err) = [Timer_Insert 5 1 9]"
  "ticker (run_two err) = 0" "woken (run_two err) = []" "next_addr (run_two err) = 1"
  "poller (run_two err) =
     \<lparr>sp_watched = [3 \<mapsto> \<lparr>ev_key = 0, ev_readable = True, ev_writable = True\<rparr>],
        sp_script = [Inr [ev_read]], sp_refuse = [err], sp_notified = 1,
     sp_nonblock = (\<lambda>_. False), sp_data = (\<lambda>_. []), sp_open = [], sp_closed = []\<rparr>"
  by (simp_all add: run_two_def sim_reactor_def reactor_new_def)

lemma sim_get_singleton: "sim_get k [x] = (if k = 0 then x else None)"
  by (simp add: sim_get_def)

lemma run_two_ok [simp]: "reactor_ok sim id (run_two err)"
  by (simp add: reactor_ok_def timers_ok_def sources_ok_def run_two_simps timer_queue_size_def
      sim_get_singleton slot_ok_def source3_both_def)

lemma run_two_view: "timer_view id (run_two err) = [(5, 1) \<mapsto> 9]"
  by (simp add: timer_view_def run_two_simps)

definition run_two_prepared :: "io_error option \<Rightarrow> sim_reactor" where
  "run_two_prepared err = (run_two err)\<lparr>timer_ops := [], timers := [], ticker := 1, events := []\<rparr>"

lemma run_two_prepare:
  "react_prepare sim 10 None (run_two err) = Inr (Some 0, 1, [9], run_two_prepared err)"
  by (simp add: react_prepare_def sim_process_timers run_two_simps early_instant
      btree_split_off_def run_two_prepared_def less_prod_def timer_queue_size_def)

definition run_two_waited :: "io_error option \<Rightarrow> sim_reactor" where
  "run_two_waited err = snd (react_wait sim (Some 0) (run_two_prepared err))"

lemma run_two_wait:
  "react_wait sim (Some 0) (run_two_prepared err) = (Inr (Suc 0), run_two_waited err)"
  by (simp add: run_two_waited_def react_wait_def run_two_prepared_def run_two_simps
      sim_polling_def sim_wait_def)

lemma run_two_waited_simps:
  "heap (run_two_waited err) = [0 \<mapsto> source3_both]" "sources (run_two_waited err) = [Some 0]"
  "events (run_two_waited err) = [ev_read]" "woken (run_two_waited err) = []"
  "sp_watched (poller (run_two_waited err)) 3 = Some (event_none 0)"
  "sp_refuse (poller (run_two_waited err)) = [err]"
  by (simp_all add: run_two_waited_def react_wait_def run_two_prepared_def run_two_simps
      sim_polling_def sim_wait_def sim_disarm_def ev_read_def)

text \<open>The poller refuses: the loop ends with the wakers of the timer and of the reader.\<close>

lemma run_two_refused:
  "\<exists>r3. deliver_events sim 1 [ev_read] [9] (run_two_waited (Some (Os_Error 5))) =
     (Inl (Os_Error 5), [9, 7], r3)"
  by (simp add: run_two_waited_simps ev_read_def sim_get_singleton source3_both_def
      deliver_source_def deliver_dir_def drain_into_def dir_is_empty_def sim_eval)

text \<open>The poller agrees.\<close>

lemma run_two_agreed:
  "\<exists>r3. deliver_events sim 1 [ev_read] [9] (run_two_waited None) = (Inr (), [9, 7], r3)"
  by (simp add: run_two_waited_simps ev_read_def sim_get_singleton source3_both_def
      deliver_source_def deliver_dir_def drain_into_def dir_is_empty_def sim_eval)

section \<open>No wake-up is lost\<close>

text \<open>
  C1. On Unix: in every state the reactor and its tasks can reach, a source that a task waits on is
  registered with the poller under its own key for the direction the task waits on, unless its key
  is exempt. A key is exempt while an event with that key is among those the round at hand has yet
  to handle. It also is after the poller has refused a poll that wanted to register the source, and after a round
  has ended with an error at an event with that key or before it came to it; then until a poll of
  a direction in which nobody waits registers the source, a later event of it is handled, or the
  source is closed.
\<close>

theorem waiters_are_armed:
  assumes "crates_ok E items" "platform_ok E (unix_registration P) watched" "fd_calls_ok P watched"
    and "\<And>p p'. io p p' \<Longrightarrow> watched p' = watched p" "sys_steps E io (sys_init E p) st"
    and "live E (sys_reactor st) a s" "src_key s \<notin> exempt_keys st"
    and "w \<in> waiting E (src_state s d)"
  shows "\<exists>e. watched (poller (sys_reactor st)) (raw (registration s)) = Some e \<and>
    ev_key e = src_key s \<and> emitted e d"
proof -
  have "unix_interest.armed E watched P (exempt_keys st) (sys_reactor st)"
    using assms(1-4) unix_interest.init_armed [of E items P watched p]
    by (intro unix_interest.steps_armed [OF assms(5) sys_ok_init [OF assms(1)]]) (simp_all add: unix_table_def fun_eq_iff)
  then obtain e where "unix_table watched (poller (sys_reactor st)) (registration s) = Some e"
    "ev_key e = src_key s" "arms E (\<lambda>_. True) e s"
    using live_source_at [OF assms(6)] assms(7) by (blast elim: interest_okD)
  with assms(8) show ?thesis by (cases d) (auto simp: unix_table_def arms_def)
qed

theorem waiters_are_armed_witness:
  "\<exists>e. sp_watched (poller run_polled) 3 = Some e \<and> ev_key e = 0 \<and> emitted e READ"
proof -
  have "7 \<in> waiting sim (src_state source3_waits READ)"
    by (simp add: waiting_def source3_waits_def)
  moreover have "src_key source3_waits \<notin> exempt_keys sys_polled"
    by (simp add: sys_polled_def sys_init_def)
  moreover have "live sim (sys_reactor sys_polled) 0 source3_waits"
    using run_polled_live by (simp add: sys_polled_def)
  moreover have "sp_watched p' = sp_watched p" if "sim_io p p'" for p p' using that by (simp add: sim_io_def)
  ultimately have "\<exists>e. sp_watched (poller (sys_reactor sys_polled)) (raw (registration source3_waits)) = Some e \<and>
      ev_key e = src_key source3_waits \<and> emitted e READ"
    using waiters_are_armed [OF sim_ok sim_platform_ok sim_fd_calls_ok _ sys_polled_steps] by blast
  then show ?thesis by (simp add: sys_polled_def source3_waits_def source3_def)
qed

section \<open>Waits end with newer events\<close>

text \<open>
  C2. A \<open>readable()\<close> or \<open>writable()\<close> future that has registered itself completes exactly when
  the source has since been given an event of a round that started after the registration: an
  event that was on its way at the time does not count, and no newer one is missed. The bound
  is the wrap-around of the 64-bit ticker.
\<close>

theorem wait_ends_with_newer_event:
  assumes "crates_ok E items" "sys_steps E io (sys_init E p) st"
    and "sys_futures st i = Some (a, f)" "rf_index f = None"
    and "poll_future E f cx a (sys_reactor st) = Inr (Poll_Pending, f', r')"
    and "sys_steps E io (st\<lparr>sys_reactor := r', sys_futures := (sys_futures st)(i \<mapsto> (a, f')), sys_lost := L\<rparr>) st2"
    and "sys_futures st2 i = Some (a, f')"
    and "sys_last st2 a (rf_dir f) - sys_last st a (rf_dir f) < 2 ^ 64"
  shows "(\<exists>f2 r2. poll_future E f' cx2 a (sys_reactor st2) = Inr (Poll_Ready (Inr ()), f2, r2)) \<longleftrightarrow>
    sys_round st < sys_last st2 a (rf_dir f)"
proof -
  let ?d = "rf_dir f"
  let ?st1 = "st\<lparr>sys_reactor := r', sys_futures := (sys_futures st)(i \<mapsto> (a, f')), sys_lost := L\<rparr>"
  have ok: "sys_ok E items st" using sys_ok_steps [OF assms(2) sys_ok_init [OF assms(1)]] .
  then have R: "reactor_ok E items (sys_reactor st)" and F: "futures_ok E st"
    by (simp_all add: sys_ok_def)
  from futures_okD [OF F assms(3)] obtain s where
    s: "live E (sys_reactor st) a s" "future_ok E f ?d s" by blast
  from R s assms(5) obtain s' p' where
    poll: "ready_poll E f cx s (sys_reactor st) = Inr (Poll_Pending, f', s', (sys_reactor st)\<lparr>poller := p'\<rparr>)"
    by (rule poll_future_store) blast
  note first = first_poll_ticks [OF s(2) assms(4) poll]
  let ?st0 = "st\<lparr>sys_reactor := r', sys_futures := (sys_futures st)(i \<mapsto> (a, f')),
    sys_lost := lose E ?d s (Poll_Pending :: unit io_result poll) (sys_lost st)\<rparr>"
  have "sys_step E io st ?st0" by (rule step_future_poll [where s = s]) (use assms s in simp_all)
  then have "sys_ok E items ?st0" by (rule sys_ok_step [OF ok])
  then have ok1: "sys_ok E items ?st1" by (simp add: sys_ok_def futures_ok_def rounds_ok_def)
  then have ok2: "sys_ok E items st2" using sys_ok_steps [OF assms(6)] by blast
  then have R2: "reactor_ok E items (sys_reactor st2)" and F2: "futures_ok E st2"
    by (simp_all add: sys_ok_def)
  from futures_okD [OF F2 assms(7)] first(2) obtain s2 where
    s2: "live E (sys_reactor st2) a s2" "future_ok E f' ?d s2" by auto
  note t = sys_ok_tick(1,2) [OF ok s(1), where d = "?d"] sys_ok_tick(3) [OF ok s(1)]
    and t2 = sys_ok_tick(1) [OF ok2 s2(1), where d = "?d"]
  have hist: "sys_last st2 a ?d = sys_last st a ?d \<or> sys_round st \<le> sys_last st2 a ?d"
    using steps_last [OF assms(6), where a = a and d = "?d"] by simp
  show ?thesis
    unfolding poll_future_done_iff [OF R2 s2] first(1) t(1,3) t2
    by (rule fresh_iff_newer [OF t(2) hist assms(8)])
qed

theorem wait_ends_with_newer_event_witness:
  "\<exists>f2 r2. poll_future sim future_waits 9 0 run_event = Inr (Poll_Ready (Inr ()), f2, r2)"
proof -
  have futures: "sys_futures sys_opened 0 = Some (0, source_ready READ)" "sys_futures sys_served 0 = Some (0, future_waits)"
    by (simp_all add: sys_opened_def sys_served_def sys_waiting_def)
  have new: "rf_index (source_ready READ) = None" by (simp add: source_ready_def)
  have polled: "poll_future sim (source_ready READ) 7 0 (sys_reactor sys_opened) = Inr (Poll_Pending, future_waits, run_future)"
    using run_future_eq by (simp add: sys_opened_def)
  have last: "sys_last sys_served 0 (rf_dir (source_ready READ)) - sys_last sys_opened 0 (rf_dir (source_ready READ)) < 2 ^ 64"
    by (simp add: sys_served_def sys_opened_def sys_init_def source_ready_def)
  have "sys_round sys_opened < sys_last sys_served 0 (rf_dir (source_ready READ))"
    by (simp add: sys_served_def sys_opened_def sys_init_def source_ready_def)
  then have "\<exists>f2 r2. poll_future sim future_waits 9 0 (sys_reactor sys_served) = Inr (Poll_Ready (Inr ()), f2, r2)"
    by (rule wait_ends_with_newer_event [OF sim_ok sys_opened_steps futures(1) new polled
        sys_served_steps [unfolded sys_waiting_def] futures(2) last, THEN iffD2])
  then show ?thesis by (simp add: sys_served_def)
qed

section \<open>Rounds of the reactor\<close>

text \<open>A round cut at its wait.\<close>

lemma react_eq:
  assumes "react_prepare E now timeout r = Inr (t, tk, tws, r1)" "react_wait E t r1 = (res, r2)"
  shows "react E now now' timeout r = react_finish E now' t tk tws res r2"
  using assms by (simp add: react_def)

text \<open>
  C6. A round that ends without an error wakes every waker that waited on a direction its events
  name, empties the direction and stamps it with the round's tick.
\<close>

theorem react_wakes_waiters:
  assumes "reactor_ok E items r" "now < instant_max" "now' < instant_max"
    and "react_prepare E now timeout r = Inr (t, tk, tws, r1)"
    and "react_wait E t r1 = (Inr (Suc n), r2)"
    and "react E now now' timeout r = Inr (Inr (), r')"
    and "source_at E r (ev_key ev) = Some s" "ev \<in> set (events r2)" "emitted ev d"
  shows "\<exists>ws s'. woken r' = woken r @ ws \<and> waiting E (src_state s d) \<subseteq> set ws \<and>
    source_at E r' (ev_key ev) = Some s' \<and> tick (src_state s' d) = ticker r + 1 \<and>
    waiting E (src_state s' d) = {}"
proof -
  note Q = react_prepare_reactor_ok [OF assms(1,2,4)]
  note W = react_wait_ok(1) [OF assms(5)]
  have ok2: "reactor_ok E items r2" using Q(1) W reactor_ok_buffer(1) by metis
  have store: "sources r2 = sources r" "heap r2 = heap r" and woken: "woken r2 = woken r"
    using Q(5,6,9) arg_cong [OF W, of sources] arg_cong [OF W, of heap] arg_cong [OF W, of woken] by simp_all
  note same = woken source_at_cong [OF store, of E]
  have "react_finish E now' t tk tws (Inr (Suc n)) r2 = Inr (Inr (), r')"
    using react_eq [OF assms(4,5)] assms(6) by simp
  with ok2 assms(3) obtain ws where S: "woken r' = woken r2 @ ws"
      "loop_served E tk (events r2) (Inr ()) ws r2 r'"
    by (cases rule: react_finish_cases [where res = "Inr (Suc n)" and t = t and tk = tk and ws = tws])
      auto
  have d: "d \<in> emitted_dirs (events r2) (ev_key ev)"
    using assms(8,9) by (auto simp: emitted_dirs_def)
  have "key_served E tk (emitted_dirs (events r2) (ev_key ev)) (Inr ()) ws
      (Some s) (source_at E r' (ev_key ev))"
    using S(2) [unfolded loop_served_def, rule_format, of "ev_key ev"] assms(7) same by simp
  then obtain s' D where "source_at E r' (ev_key ev) = Some s'"
      "Inr () = (Inr () :: unit io_result) \<longrightarrow> D = emitted_dirs (events r2) (ev_key ev)"
      "served E tk D ws s s'"
    by (rule key_served_SomeE)
  with d Q(2) S(1) same(1) show ?thesis by (auto simp: served_def delivered_def)
qed

theorem react_wakes_waiters_witness:
  "\<exists>r' ws s'. react sim 10 11 None run_future = Inr (Inr (), r') \<and> woken r' = ws \<and> 7 \<in> set ws \<and>
    source_at sim r' 0 = Some s' \<and> tick (src_state s' READ) = 1"
proof -
  have fin: "react_finish sim 11 None 1 [] (Inr (Suc 0)) run_waited = Inr (Inr (), wake_all [7] run_event)"
    using run_event_eq by (simp add: react_finish_def run_waited_simps del: deliver_events.simps)
  have wait: "react_wait sim None run_prepared = (Inr (Suc 0), run_waited)"
    using run_waited_eq by simp
  have react: "react sim 10 11 None run_future = Inr (Inr (), wake_all [7] run_event)"
    using react_eq [OF run_prepared_eq wait] fin by simp
  have "source_at sim run_future (ev_key ev_read) = Some source3_future"
    by (simp add: source_at_def run_future_simps ev_read_def sim_get_def)
  moreover have "ev_read \<in> set (events run_waited)" "emitted ev_read READ"
    by (simp_all add: run_waited_simps ev_read_def)
  ultimately have "\<exists>ws s'. woken (wake_all [7] run_event) = woken run_future @ ws \<and>
      waiting sim (src_state source3_future READ) \<subseteq> set ws \<and>
      source_at sim (wake_all [7] run_event) (ev_key ev_read) = Some s' \<and>
      tick (src_state s' READ) = ticker run_future + 1 \<and> waiting sim (src_state s' READ) = {}"
    using react_wakes_waiters [OF run_future_ok early_instant early_instant run_prepared_eq wait react]
    by simp
  moreover have "7 \<in> waiting sim (src_state source3_future READ)"
    by (auto simp: waiting_def source3_future_def sim_get_def intro!: exI [of _ 0])
  ultimately show ?thesis
    unfolding react by (auto simp: run_future_simps ev_read_def)
qed

text \<open>
  C7. A round that ends without an error wakes every timer that was due when it started and
  forgets it, and keeps every timer that is due neither then nor after the wait.
\<close>

theorem react_fires_due_timers:
  assumes "reactor_ok E items r" "now < instant_max" "now' < instant_max"
    and "react E now now' timeout r = Inr (Inr (), r')"
  shows "\<exists>ws. woken r' = woken r @ ws \<and>
    (\<forall>t i w. timer_view items r (t, i) = Some w \<and> t \<le> now \<longrightarrow>
       w \<in> set ws \<and> timer_view items r' (t, i) = None) \<and>
    (\<forall>t i. now < t \<and> now' < t \<longrightarrow> timer_view items r' (t, i) = timer_view items r (t, i))"
proof -
  from assms(1) have T: "timers_ok E items r" by (simp add: reactor_ok_def)
  then obtain dur and ready :: timer_map and r1 where P:
    "react_prepare E now timeout r = Inr (react_timeout dur timeout, ticker r + 1, map snd ready, r1)"
    "btree_ok ready" "map_of ready = due now (timer_view items r)"
    "timer_view items r1 = not_due now (timer_view items r)" "woken r1 = woken r"
    using assms(2) by (rule react_prepare_ok [where timeout = timeout]) blast
  let ?t = "react_timeout dur timeout" and ?V = "timer_view items r"
  obtain res r2 where wait: "react_wait E ?t r1 = (res, r2)" by force
  note W = react_wait_ok(1) [OF wait]
  have ok2: "reactor_ok E items r2"
    using react_prepare_reactor_ok(1) [OF assms(1,2) P(1)] W reactor_ok_buffer(1) by metis
  have V2: "timer_view items r2 = not_due now ?V" "woken r2 = woken r"
    using P(4,5) arg_cong [OF W, of woken] arg_cong [OF W, of "timer_view items"]
    by (simp_all add: reactor_ok_buffer(2))
  have fin: "react_finish E now' ?t (ticker r + 1) (map snd ready) res r2 = Inr (Inr (), r')"
    using react_eq [OF P(1) wait] assms(4) by simp
  have "\<exists>ws. woken r' = woken r @ ws \<and> set (map snd ready) \<subseteq> set ws \<and>
      (timer_view items r' = not_due now ?V \<or> timer_view items r' = not_due now' (not_due now ?V))"
    using ok2 assms(3)
    by (cases rule: react_finish_cases [where res = res and t = "?t" and tk = "ticker r + 1"
          and ws = "map snd ready"]) (use fin V2 in auto)
  then obtain ws where ws: "woken r' = woken r @ ws" "set (map snd ready) \<subseteq> set ws"
      "timer_view items r' = not_due now ?V \<or> timer_view items r' = not_due now' (not_due now ?V)"
    by blast
  have "w \<in> set ws" if "?V (t, i) = Some w" "t \<le> now" for t i w
  proof -
    from that P(3) have "map_of ready (t, i) = Some w" by (simp add: due_def)
    then have "((t, i), w) \<in> set ready" by (rule map_of_SomeD)
    with ws(2) show ?thesis by force
  qed
  with ws(1,3) show ?thesis by (auto simp: not_due_def)
qed

theorem react_fires_due_timers_witness:
  "\<exists>r'. react sim 10 11 None (run_two None) = Inr (Inr (), r') \<and> 9 \<in> set (woken r') \<and>
    timer_view id r' (5, 1) = None"
proof -
  obtain r3 where "deliver_events sim 1 [ev_read] [9] (run_two_waited None) = (Inr (), [9, 7], r3)"
    using run_two_agreed by blast
  then have react: "react sim 10 11 None (run_two None) = Inr (Inr (), wake_all [9, 7] r3)"
    using react_eq [OF run_two_prepare run_two_wait]
    by (simp add: react_finish_def run_two_waited_simps del: deliver_events.simps)
  from react_fires_due_timers [OF run_two_ok early_instant early_instant react]
  show ?thesis using react run_two_view by (force simp: run_two_simps)
qed

text \<open>
  C8. The wait of a round never lasts beyond the caller's timeout or the earliest timer, and is
  not cut short by anything else.
\<close>

theorem react_timeout_exact:
  assumes "reactor_ok E items r" "now < instant_max"
    and "react_prepare E now timeout r = Inr (t, tk, tws, r1)"
  shows "(t = None \<longleftrightarrow> timeout = None \<and> timer_view items r = Map.empty) \<and>
    (\<forall>n. t = Some n \<longrightarrow> (\<forall>c. timeout = Some c \<longrightarrow> n \<le> c) \<and>
       (\<forall>u i. timer_view items r (u, i) \<noteq> None \<longrightarrow> n \<le> nat (u - now)) \<and>
       (timeout = Some n \<or> (\<exists>u i. timer_view items r (u, i) \<noteq> None \<and> n = nat (u - now))))"
proof -
  from assms(1) have "timers_ok E items r" by (simp add: reactor_ok_def)
  then obtain dur and ready :: timer_map and r1' where
    "react_prepare E now timeout r = Inr (react_timeout dur timeout, ticker r + 1, map snd ready, r1')"
    and wait: "shortest_wait now (timer_view items r) dur"
    using assms(2) by (rule react_prepare_ok [where timeout = timeout]) blast
  with assms(3) have t: "t = react_timeout dur timeout" by simp
  show ?thesis
  proof (cases dur)
    case None
    with wait have "timer_view items r = Map.empty" by (simp add: shortest_wait_def)
    with None t show ?thesis by (cases timeout) auto
  next
    case (Some n)
    from wait obtain u i where ui: "timer_view items r (u, i) \<noteq> None" "n = nat (u - now)"
      and least: "\<forall>u i. timer_view items r (u, i) \<noteq> None \<longrightarrow> n \<le> nat (u - now)"
      unfolding Some shortest_wait_def option.case by blast
    have least': "m \<le> nat (x - now)" if "timer_view items r (x, j) \<noteq> None" "m \<le> n" for m x j
      using least that order_trans by blast
    from ui(1) have view: "timer_view items r \<noteq> Map.empty" by auto
    show ?thesis
    proof (cases timeout)
      case None
      with t Some ui view least show ?thesis by auto
    next
      case (Some c)
      with t \<open>dur = Some n\<close> have m: "t = Some (min n c)" by simp
      have "min n c = c \<or> (\<exists>u i. timer_view items r (u, i) \<noteq> None \<and> min n c = nat (u - now))"
        using ui by (metis min_def)
      with view least' [OF _ min.cobounded1] show ?thesis
        unfolding m Some by auto (metis option.distinct(1))
    qed
  qed
qed

theorem react_timeout_exact_witness:
  "(5 :: instant, 1) \<in> dom (timer_view id (run_two None)) \<and>
    (\<exists>tk tws r1. react_prepare sim 10 None (run_two None) = Inr (Some 0, tk, tws, r1)) \<and>
    0 \<le> nat (5 - 10)"
  using react_timeout_exact [OF run_two_ok early_instant run_two_prepare, of None]
    run_two_prepare [of None] run_two_view [of None] by simp

text \<open>
  C9. A round always returns, whatever the poller does, and leaves the reactor well formed with
  the next tick, as long as the clock has not reached the last representable instant.
\<close>

theorem react_total:
  assumes "reactor_ok E items r" "now < instant_max" "now' < instant_max"
  shows "\<exists>res r'. react E now now' timeout r = Inr (res, r') \<and> reactor_ok E items r' \<and>
    ticker r' = ticker r + 1 \<and> id_generator r' = id_generator r"
proof -
  from assms(1) have "timers_ok E items r" by (simp add: reactor_ok_def)
  then obtain dur and ready :: timer_map and r1 where P:
    "react_prepare E now timeout r = Inr (react_timeout dur timeout, ticker r + 1, map snd ready, r1)"
    "ticker r1 = ticker r + 1" "id_generator r1 = id_generator r"
    using assms(2) by (rule react_prepare_ok [where timeout = timeout]) blast
  let ?t = "react_timeout dur timeout"
  obtain res r2 where wait: "react_wait E ?t r1 = (res, r2)" by force
  note W = react_wait_ok(1) [OF wait]
  have ok2: "reactor_ok E items r2"
    using react_prepare_reactor_ok(1) [OF assms(1,2) P(1)] W reactor_ok_buffer(1) by metis
  have r2: "ticker r2 = ticker r + 1" "id_generator r2 = id_generator r"
    using P(2,3) arg_cong [OF W, of ticker] arg_cong [OF W, of id_generator] by simp_all
  from ok2 assms(3) show ?thesis
    unfolding react_eq [OF P(1) wait]
    by (cases rule: react_finish_cases [where res = res and t = "?t" and tk = "ticker r + 1"
          and ws = "map snd ready"]) (use ok2 r2 in auto)
qed

theorem react_total_witness:
  "\<exists>res r'. react sim 10 11 None (run_two (Some (Os_Error 5))) = Inr (res, r') \<and>
    reactor_ok sim id r' \<and> ticker r' = 1"
  using react_total [OF run_two_ok early_instant early_instant, of 10 11 None "Some (Os_Error 5)"]
  by (auto simp: run_two_simps)

text \<open>
  C10. When the poller refuses to re-register a source, the round ends at once: the wakers collected
  so far, the due timers' among them, are dropped without being woken, although the timers are
  gone from the reactor and the sources' waiters are cleared.
\<close>

theorem react_error_drops_wakers:
  assumes "reactor_ok E items r" "now < instant_max" "now' < instant_max"
    and "react_prepare E now timeout r = Inr (t, tk, tws, r1)"
    and "react_wait E t r1 = (Inr (Suc n), r2)"
    and "deliver_events E tk (events r2) tws r2 = (Inl e, ws, r3)"
  shows "react E now now' timeout r = Inr (Inl e, r3) \<and> woken r3 = woken r \<and>
    (\<forall>u i w. timer_view items r (u, i) = Some w \<and> u \<le> now \<longrightarrow>
       w \<in> set ws \<and> timer_view items r3 (u, i) = None)"
proof -
  from assms(1) have "timers_ok E items r" by (simp add: reactor_ok_def)
  then obtain dur and ready :: timer_map and r1' where P:
    "react_prepare E now timeout r = Inr (react_timeout dur timeout, ticker r + 1, map snd ready, r1')"
    "map_of ready = due now (timer_view items r)"
    "timer_view items r1' = not_due now (timer_view items r)" "woken r1' = woken r"
    using assms(2) by (rule react_prepare_ok [where timeout = timeout]) blast
  with assms(4) have eqs: "r1' = r1" "tws = map snd ready" by simp_all
  note W = react_wait_ok(1) [OF assms(5)]
  have ok2: "reactor_ok E items r2"
    using react_prepare_reactor_ok(1) [OF assms(1,2,4)] W reactor_ok_buffer(1) by metis
  have r2: "timer_view items r2 = not_due now (timer_view items r)" "woken r2 = woken r"
    using P(3,4) eqs arg_cong [OF W, of woken] arg_cong [OF W, of "timer_view items"]
    by (simp_all add: reactor_ok_buffer(2))
  have fin: "react_finish E now' t tk tws (Inr (Suc n)) r2 = Inr (Inl e, r3)"
    using assms(6) by (simp add: react_finish_def)
  from ok2 assms(3) have out: "woken r3 = woken r2" "set tws \<subseteq> set ws"
      "timer_view items r3 = timer_view items r2"
    by (cases rule: react_finish_cases [where res = "Inr (Suc n)" and t = t and tk = tk
          and ws = tws]; use fin assms(6) in auto)+
  have fired: "\<forall>u i w. timer_view items r (u, i) = Some w \<and> u \<le> now \<longrightarrow>
      w \<in> set ws \<and> timer_view items r3 (u, i) = None"
  proof (intro allI impI)
    fix u i w assume that: "timer_view items r (u, i) = Some w \<and> u \<le> now"
    with P(2) have "map_of ready (u, i) = Some w" by (simp add: due_def)
    then have "((u, i), w) \<in> set ready" by (rule map_of_SomeD)
    then have "w \<in> set tws" by (force simp: eqs)
    with out r2 that show "w \<in> set ws \<and> timer_view items r3 (u, i) = None"
      by (auto simp: not_due_def)
  qed
  have "react E now now' timeout r = Inr (Inl e, r3)"
    using react_eq [OF assms(4,5)] fin by simp
  with fired out(1) r2(2) show ?thesis by simp
qed

theorem react_error_drops_wakers_witness:
  "\<exists>r3. react sim 10 11 None (run_two (Some (Os_Error 5))) = Inr (Inl (Os_Error 5), r3) \<and>
    woken r3 = [] \<and> timer_view id r3 (5, 1) = None"
proof -
  let ?e = "Some (Os_Error 5)"
  obtain r3 where "deliver_events sim 1 (events (run_two_waited ?e)) [9] (run_two_waited ?e) =
      (Inl (Os_Error 5), [9, 7], r3)"
    using run_two_refused by (auto simp: run_two_waited_simps)
  note D = react_error_drops_wakers [OF run_two_ok early_instant early_instant run_two_prepare
      run_two_wait this, of 11, simplified]
  have "timer_view id (run_two ?e) (5, 1) = Some 9" by (simp add: run_two_view)
  with D have "timer_view id r3 (5, 1) = None" by simp
  with D show ?thesis by (auto simp: run_two_simps)
qed

section \<open>Registering timers\<close>

text \<open>
  C16. Inserting and removing a timer return, even when the queue of operations is full, and act on
  the reactor's timers as an update of one entry; the rest of the reactor stays.
\<close>

theorem timer_operations_refine_map:
  assumes "timers_ok E items r"
  shows "(\<exists>r'. insert_timer E t w r = Some (Inr (id_generator r, r')) \<and> timers_ok E items r' \<and>
      timer_view items r' = (timer_view items r)((t, id_generator r) \<mapsto> w) \<and>
      id_generator r' = id_generator r + 1 \<and> same_io r r') \<and>
    (\<exists>r'. remove_timer E t i r = Some (Inr r') \<and> timers_ok E items r' \<and>
      timer_view items r' = (timer_view items r)((t, i) := None) \<and>
      id_generator r' = id_generator r \<and> same_io r r')"
  using ts.insert_law [OF assms, of t w] ts.remove_law [OF assms, of t i] by blast

text \<open>A reactor whose queue is full of operations.\<close>

definition full_reactor :: sim_reactor where
  "full_reactor = (sim_reactor [] [])
     \<lparr>timer_ops := Timer_Insert 50 1 9 # replicate 999 (Timer_Remove 20 0), id_generator := 2\<rparr>"

lemma full_reactor_ok: "timers_ok sim id full_reactor"
  by (simp add: timers_ok_def full_reactor_def sim_reactor_def reactor_new_def timer_queue_size_def)

theorem timer_operations_refine_map_witness:
  "\<exists>r'. insert_timer sim 70 8 full_reactor = Some (Inr (2, r')) \<and> timer_view id r' (70, 2) = Some 8"
proof -
  have "id_generator full_reactor = 2" by (simp add: full_reactor_def)
  with timer_operations_refine_map [OF full_reactor_ok, of 70 8 0] show ?thesis by auto
qed

section \<open>Opening and closing sources\<close>

text \<open>
  Registering a source never panics: it adds exactly that source under a vacant key, with
  nobody waiting on it, or reports the poller's error and leaves the sources as they were.
\<close>

theorem insert_io_all_or_nothing:
  assumes "reactor_ok E items r"
  shows "\<exists>res r'. insert_io E g r = Inr (res, r') \<and> reactor_ok E items r' \<and>
    timer_view items r' = timer_view items r \<and>
    (case res of
       Inl e \<Rightarrow> source_at E r' = source_at E r
     | Inr a \<Rightarrow> \<exists>s. live E r' a s \<and> registration s = g \<and> (\<forall>d. waiting E (src_state s d) = {}) \<and>
         source_at E r (src_key s) = None \<and> source_at E r' = (source_at E r)(src_key s \<mapsto> s))"
proof -
  note P = reactor_ok_parts [OF assms]
  from P(2,4,3) show ?thesis
  proof (cases rule: insert_io_cases [where g = g])
    case (added p ss r')
    have "live E r' (next_addr r) (new_source E g r)"
      using added(3,6) by (simp add: live_def)
    with added insert_io_reactor_ok [OF assms added(2)] P(3,4) show ?thesis
      by (auto simp: source_at_vacant intro!: exI [of _ "new_source E g r"])
  next
    case (failed e p ss r')
    with insert_io_reactor_ok [OF assms failed(2)] show ?thesis by auto
  qed
qed

theorem insert_io_all_or_nothing_witness:
  "\<exists>res r'. insert_io sim \<lparr>raw = 3\<rparr> run_opened = Inr (Inl res, r') \<and>
    source_at sim r' = source_at sim run_opened"
proof -
  have "\<exists>e r'. insert_io sim \<lparr>raw = 3\<rparr> run_opened = Inr (Inl e, r')"
    by (simp add: insert_io_def Let_def sim_insert_def sim_vacant_def sim_eval sim_remove_def
        sim_get_def)
  then obtain e r' where eq: "insert_io sim \<lparr>raw = 3\<rparr> run_opened = Inr (Inl e, r')" by blast
  with insert_io_all_or_nothing [OF run_opened_ok, of "\<lparr>raw = 3\<rparr>"] show ?thesis by simp
qed

text \<open>
  Registering a source and then deregistering it gives back the sources and the poller's
  table as they were. (Unix.)
\<close>

theorem open_close_roundtrip:
  assumes "reactor_ok E items r" "reg_calls E = unix_registration P" "fd_calls_ok P watched"
    and "watched (poller r) (raw g) = None"
    and "insert_io E g r = Inr (Inr a, r1)" "heap r1 a = Some s"
    and "remove_io E s r1 = Inr (Inr (), r2)"
  shows "source_at E r2 = source_at E r \<and> watched (poller r2) = watched (poller r)"
proof -
  note P = reactor_ok_parts [OF assms(1)]
  from P(2,4,3) show ?thesis
  proof (cases rule: insert_io_cases [where g = g])
    case (added p ss r')
    from added(2) assms(5) have r': "r' = r1" "a = next_addr r" by simp_all
    with added(3) assms(6) have s: "s = new_source E g r" by auto
    have "source_at E r1 (src_key s) \<noteq> None" using added(5) r' s by simp
    with added(4) P(4) show ?thesis
      unfolding r'
    proof (cases rule: remove_io_cases)
      case (1 res p2 ss2 r2')
      with assms(7) have r2: "r2' = r2" "res = Inr ()" by simp_all
      have "source_at E r2 = source_at E r"
        using 1(5) r2 added(5) r' s source_at_vacant [OF P(4), of r] by (auto simp: fun_eq_iff)
      moreover have "unix_table watched p2 = unix_table watched (poller r)"
      proof (rule unix_backend.add_delete)
        show "unix_table watched (poller r) g = None" using assms(4) by (simp add: unix_table_def)
        show "reg_add (unix_registration P) g (sl_vacant_key (sslab E) (sources r)) (poller r) =
            (Inr (), p)" using added(1) assms(2) by simp
        show "reg_delete (unix_registration P) g p = (Inr (), p2)"
          using 1(1) r2 s added(3) r' assms(2) by simp
      qed (rule assms(3))
      then have "unix_table watched p2 \<lparr>raw = fd\<rparr> = unix_table watched (poller r) \<lparr>raw = fd\<rparr>" for fd
        by simp
      then have "watched p2 = watched (poller r)" by (simp add: unix_table_def fun_eq_iff)
      ultimately show ?thesis using 1(3) r2 by auto
    qed
  next
    case (failed e p ss r')
    with assms(5) show ?thesis by simp
  qed
qed

theorem open_close_roundtrip_witness:
  "\<exists>r2. remove_io sim source3 run_opened = Inr (Inr (), r2) \<and>
    sp_watched (poller r2) = Map.empty"
proof -
  have rem: "\<exists>r2. remove_io sim source3 run_opened = Inr (Inr (), r2)"
    by (simp add: remove_io_def sim_eval sim_remove_def sim_get_def)
  then obtain r2 where r2: "remove_io sim source3 run_opened = Inr (Inr (), r2)" ..
  have new: "sp_watched (poller (sim_reactor [Inr [ev_read]] [])) = Map.empty"
    by (simp add: sim_reactor_def reactor_new_def sim_poller_new_def)
  have "sp_watched (poller r2) = sp_watched (poller (sim_reactor [Inr [ev_read]] []))"
    using open_close_roundtrip [OF sim_reactor_ok sim_simps(6) sim_fd_calls_ok _ run_opened_eq
        run_opened_simps(1) r2] new by simp
  with r2 new show ?thesis by simp
qed

section \<open>Waiting\<close>

text \<open>
  When another task takes over the waker slot of a direction, the task that held it is woken:
  two tasks that poll the same direction keep waking each other, and none is forgotten.
\<close>

theorem displaced_task_is_woken:
  assumes "reactor_ok E items r" "live E r a s"
    and "dwaker (src_state s d) = Some w" "\<not> will_wake E w cx"
    and "poll_source E d cx a r = Inr (Poll_Pending, r')"
  shows "woken r' = woken r @ [w] \<and>
    (\<exists>s'. live E r' a s' \<and> dwaker (src_state s' d) = Some cx)"
  using assms(1,2)
proof (cases rule: poll_source_cases [where d = d and cx = cx])
  case (1 res s' p ws r1)
  with assms(5) have out: "res = Poll_Pending" "r1 = r'" by simp_all
  from 1(1) out show ?thesis
  proof (cases rule: poll_ready_cases [of s d E cx r])
    case fresh
    with 1(1) out show ?thesis by simp
  next
    case (same v)
    with assms(3,4) show ?thesis by simp
  next
    case (registered res1 r2 s1)
    with 1(1) have eqs: "s1 = s'" "r2 = r\<lparr>poller := p, woken := woken r @ ws\<rparr>" by simp_all
    have "woken r2 = woken r @ [w]"
      using update_interest_woken [OF registered(4)] assms(3) by simp
    then have "woken r' = woken r @ [w]"
      using 1(3) out unfolding eqs by (simp add: put_source_def)
    moreover have "dwaker (src_state s' d) = Some cx" using registered(3) eqs by simp
    ultimately show ?thesis using 1(5) out by blast
  qed
qed

theorem displaced_task_is_woken_witness:
  "\<exists>r'. poll_source sim READ 8 0 run_polled = Inr (Poll_Pending, r') \<and> woken r' = [7]"
proof -
  have "\<exists>r'. poll_source sim READ 8 0 run_polled = Inr (Poll_Pending, r')"
    by (simp add: sim_eval run_polled_simps source3_waits_def)
  then obtain r' where r': "poll_source sim READ 8 0 run_polled = Inr (Poll_Pending, r')" ..
  have "dwaker (src_state source3_waits READ) = Some 7" "\<not> will_wake sim 7 8"
    by (simp_all add: source3_waits_def)
  from displaced_task_is_woken [OF run_polled_ok run_polled_live this r'] r'
  show ?thesis by (simp add: run_polled_simps)
qed

text \<open>
  C17. A poll that fails because the poller refuses the registration leaves its waker behind. The
  task's next poll of the direction then finds it and waits, although nothing is registered:
  the poller's table is what it was before the first poll.
\<close>

theorem failed_poll_leaves_waiter:
  assumes "reactor_ok E items r" "live E r a s"
    and "reg_calls E = unix_registration P" "fd_calls_ok P watched"
    and "poll_source E d cx a r = Inr (Poll_Ready (Inl e), r')" "will_wake E cx cx2"
  shows "poll_source E d cx2 a r' = Inr (Poll_Pending, r') \<and>
    watched (poller r') = watched (poller r)"
  using assms(1,2)
proof (cases rule: poll_source_cases [where d = d and cx = cx])
  case (1 res s' p ws r1)
  with assms(5) have out: "res = Poll_Ready (Inl e)" "r1 = r'" by simp_all
  show ?thesis
  proof (cases rule: poll_ready_cases [of s d E cx r])
    case fresh
    with 1(1) out show ?thesis by simp
  next
    case (same v)
    with 1(1) out show ?thesis by simp
  next
    case (registered res1 r2 s1)
    with 1(1) out have eqs: "s1 = s'" "res1 = Poll_Ready (Inl e)"
      "r2 = r\<lparr>poller := p, woken := woken r @ ws\<rparr>" by simp_all
    have "reg_modify (reg_calls E) (registration s') (interest_event E s') (poller r) = (Inl e, p)"
      using update_interest_failed [OF registered(4) [unfolded eqs]] by simp
    then have "unix_table watched p = unix_table watched (poller r)"
      using unix_backend.modify_err [of P watched] assms(3,4) by metis
    then have "unix_table watched p \<lparr>raw = fd\<rparr> = unix_table watched (poller r) \<lparr>raw = fd\<rparr>" for fd
      by simp
    then have table: "watched p = watched (poller r)" by (simp add: unix_table_def fun_eq_iff)
    have heap: "heap r' a = Some s'" using 1(3) out by (simp add: put_source_def)
    have "poll_ready E d cx2 s' r' = (Poll_Pending, s', r')"
      using registered(3) eqs assms(6) by (simp add: poll_ready_def Let_def)
    with heap have "poll_source E d cx2 a r' = Inr (Poll_Pending, put_source a s' r')"
      by (simp add: poll_source_def deref_def)
    moreover have "put_source a s' r' = r'"
      using heap by (simp add: put_source_def fun_upd_idem)
    ultimately show ?thesis using table 1(3) out by (simp add: put_source_def)
  qed
qed

text \<open>The poller refuses the reader's registration once.\<close>

definition run_refused :: sim_reactor where
  "run_refused = run_opened\<lparr>poller := (poller run_opened)\<lparr>sp_refuse := [Some (Os_Error 5)]\<rparr>\<rparr>"

theorem failed_poll_leaves_waiter_witness:
  "\<exists>r'. poll_source sim READ 7 0 run_refused = Inr (Poll_Ready (Inl (Os_Error 5)), r') \<and>
    poll_source sim READ 7 0 r' = Inr (Poll_Pending, r') \<and>
    sp_watched (poller r') 3 = Some (event_none 0)"
proof -
  have "reactor_ok sim id run_refused"
    using run_opened_ok by (simp add: run_refused_def reactor_ok_def timers_ok_def sources_ok_def)
  moreover have "live sim run_refused 0 source3"
    using run_opened_live by (simp add: live_def run_refused_def)
  moreover have "\<exists>r'. poll_source sim READ 7 0 run_refused = Inr (Poll_Ready (Inl (Os_Error 5)), r')"
    by (simp add: run_refused_def sim_eval)
  then obtain r' where r': "poll_source sim READ 7 0 run_refused =
      Inr (Poll_Ready (Inl (Os_Error 5)), r')" ..
  moreover have "sp_watched (poller run_refused) 3 = Some (event_none 0)"
    by (simp add: run_refused_def run_opened_simps)
  moreover have "will_wake sim 7 7" by simp
  ultimately show ?thesis
    using failed_poll_leaves_waiter [OF _ _ sim_simps(6) sim_fd_calls_ok r'] by auto
qed

text \<open>
  C14. In every reachable state, polling or dropping any future a task owns goes through: none of
  the slab accesses of \<open>Ready\<close> can panic, and a drop frees the future's slot and no slot
  that another future of the same direction owns.
\<close>

theorem futures_never_panic:
  assumes "crates_ok E items" "sys_steps E io (sys_init E p) st"
    and "sys_futures st i = Some (a, f)"
  shows "(\<exists>res f' r'. poll_future E f cx a (sys_reactor st) = Inr (res, f', r')) \<and>
    (\<exists>r' s'. drop_future E f a (sys_reactor st) = Inr r' \<and> live E r' a s' \<and>
       (\<forall>k. rf_index f = Some k \<longrightarrow> sl_get (wslab E) k (wakers (src_state s' (rf_dir f))) = None) \<and>
       (\<forall>j g. j \<noteq> i \<longrightarrow> sys_futures st j = Some (a, g) \<longrightarrow> future_ok E g (rf_dir g) s'))"
proof -
  have ok: "sys_ok E items st" using sys_ok_steps [OF assms(2) sys_ok_init [OF assms(1)]] .
  then have R: "reactor_ok E items (sys_reactor st)" and F: "futures_ok E st"
    by (simp_all add: sys_ok_def)
  note slab = reactor_ok_parts(3) [OF R]
  from futures_okD [OF F assms(3)] obtain s where
    s: "live E (sys_reactor st) a s" "future_ok E f (rf_dir f) s" by blast
  obtain res f' r' where poll: "poll_future E f cx a (sys_reactor st) = Inr (res, f', r')"
    using R s by (rule poll_future_cases [where cx = cx])
  obtain s' r2 where D: "ready_drop E f s = Inr s'" "drop_future E f a (sys_reactor st) = Inr r2"
    "live E r2 a s'"
    using R s(1) by (rule drop_future_cases [where f = f])
  have gone: "sl_get (wslab E) k (wakers (src_state s' (rf_dir f))) = None" if "rf_index f = Some k" for k
    using slab
  proof (cases rule: ready_drop_spec [where f = f and s = s])
    case (1 t)
    with D(1) that show ?thesis by simp
  qed
  have others: "future_ok E g (rf_dir g) s'" if "j \<noteq> i" "sys_futures st j = Some (a, g)" for j g
  proof -
    from futures_okD [OF F that(2)] live_unique [OF s(1)] have g: "future_ok E g (rf_dir g) s" by blast
    from F have "owners_ok (sys_futures st)" by (simp add: futures_ok_def)
    with that assms(3) have "rf_dir f = rf_dir g \<Longrightarrow> rf_index f \<noteq> None \<Longrightarrow> rf_index f \<noteq> rf_index g"
      unfolding owners_ok_def by metis
    with drop_future_keeps [OF slab D(1) g] show ?thesis by blast
  qed
  from poll D(2,3) gone others show ?thesis by blast
qed

theorem futures_never_panic_witness:
  "\<exists>res f' r'. poll_future sim future_waits 8 0 run_future = Inr (res, f', r')"
proof -
  have "sys_step sim sim_io sys_opened (sys_opened\<lparr>sys_reactor := run_future,
      sys_futures := (sys_futures sys_opened)(0 \<mapsto> (0, future_waits)),
      sys_lost := lose sim (rf_dir (source_ready READ)) source3 (Poll_Pending :: unit io_result poll) (sys_lost sys_opened)\<rparr>)"
    by (rule step_future_poll [where s = source3 and f = "source_ready READ" and cx = 7])
      (simp_all add: sys_opened_def run_opened_live run_future_eq)
  then have "sys_step sim sim_io sys_opened sys_waiting" by (simp add: sys_waiting_def sys_opened_def sys_init_def split: if_splits)
  with sys_opened_steps
  have "sys_steps sim sim_io (sys_init sim (sim_poller_new [Inr [ev_read]] [])) sys_waiting"
    by (rule steps_step)
  from futures_never_panic [OF sim_ok this, of 0 0 future_waits]
  show ?thesis by (simp add: sys_waiting_def)
qed

end
