(* ===== verification/Async.thy ===== *)
theory Async
  imports Sim_Crates Handles
begin

text \<open>
  \<open>Async\<close> of \<open>src/src/lib.rs\<close>: creating a handle, giving it up, and the operations on it:
  \<open>poll_readable\<close> and \<open>poll_writable\<close>, the asynchronous \<open>read_with\<close> and \<open>write_with\<close>, and
  the poll functions of \<open>AsyncRead\<close> and \<open>AsyncWrite\<close>.

  The calls of the operating system are parameters. As in \<open>Crates\<close>, the poller's state stands for
  the operating system: a call takes it and returns it.
\<close>

section \<open>Targets and system calls\<close>

datatype target = Linux | Android | Dragonfly | Freebsd | Fuchsia | Illumos | Netbsd | Openbsd
  | Solaris | Apple | Aix | Espidf | Haiku | Windows | Other_Unix

text \<open>The errors of \<open>rustix\<close> that the code tells apart, and their conversion to \<open>io::Error\<close>.\<close>

datatype errno = INPROGRESS | AGAIN | WOULDBLOCK | INTR | Errno nat

fun io_error_of :: "errno \<Rightarrow> io_error" where
  "io_error_of AGAIN = WouldBlock"
| "io_error_of WOULDBLOCK = WouldBlock"
| "io_error_of INTR = Interrupted"
| "io_error_of INPROGRESS = Os_Error 115"
| "io_error_of (Errno n) = Os_Error n"

type_synonym oflags = "32 word"

text \<open>
  The calls on an I/O handle (\<open>'h\<close>) and on its descriptor (\<open>'fd\<close>). \<open>os_registration\<close> is
  \<open>Registration::new\<close> of the platform; \<open>os_close\<close> is what dropping the handle does.
\<close>

record ('h, 'fd, 'reg, 'p) os_calls =
  os_target :: target
  os_as_fd :: "'h \<Rightarrow> 'fd"
  os_registration :: "'fd \<Rightarrow> 'reg"
  os_fionbio :: "'fd \<Rightarrow> bool \<Rightarrow> 'p \<Rightarrow> (errno + unit) \<times> 'p"
  os_getfl :: "'fd \<Rightarrow> 'p \<Rightarrow> (errno + oflags) \<times> 'p"
  os_setfl :: "'fd \<Rightarrow> oflags \<Rightarrow> 'p \<Rightarrow> (errno + unit) \<times> 'p"
  os_nonblock :: oflags
  os_close :: "'h \<Rightarrow> 'p \<Rightarrow> 'p"

definition set_nonblocking :: "('h, 'fd, 'reg, 'p) os_calls \<Rightarrow> 'fd \<Rightarrow> 'p \<Rightarrow> unit io_result \<times> 'p" where
  "set_nonblocking S fd p =
     (if os_target S = Windows \<or> os_target S = Linux
      then case os_fionbio S fd True p of
          (Inl e, p) \<Rightarrow> (Inl (io_error_of e), p)
        | (Inr _, p) \<Rightarrow> (Inr (), p)
      else case os_getfl S fd p of
          (Inl e, p) \<Rightarrow> (Inl (io_error_of e), p)
        | (Inr previous, p) \<Rightarrow>
            let new = or previous (os_nonblock S)
            in if new \<noteq> previous
               then (case os_setfl S fd new p of
                   (Inl e, p) \<Rightarrow> (Inl (io_error_of e), p)
                 | (Inr _, p) \<Rightarrow> (Inr (), p))
               else (Inr (), p))"

section \<open>The handle\<close>

record 'h async =
  as_source :: addr
  as_io :: "'h option"

definition drop_handle :: "('h, 'fd, 'reg, 'p) os_calls \<Rightarrow> 'h \<Rightarrow>
    ('p, 'sw, 'ss, 'q, 'reg) reactor \<Rightarrow> ('p, 'sw, 'ss, 'q, 'reg) reactor" where
  "drop_handle S h r = r\<lparr>poller := os_close S h (poller r)\<rparr>"

text \<open>On an error the handle is dropped with the frame that owns it.\<close>

definition async_new_nonblocking :: "('h, 'fd, 'reg, 'p) os_calls \<Rightarrow>
    ('p, 'sw, 'ss, 'q, 'reg) crates \<Rightarrow> 'h \<Rightarrow> ('p, 'sw, 'ss, 'q, 'reg) reactor \<Rightarrow>
    panic + 'h async io_result \<times> ('p, 'sw, 'ss, 'q, 'reg) reactor" where
  "async_new_nonblocking S E h r =
     rbind (insert_io E (os_registration S (os_as_fd S h)) r) (\<lambda>(res, r').
       Inr (case res of
           Inl e \<Rightarrow> (Inl e, drop_handle S h r')
         | Inr a \<Rightarrow> (Inr \<lparr>as_source = a, as_io = Some h\<rparr>, r')))"

definition async_new :: "('h, 'fd, 'reg, 'p) os_calls \<Rightarrow> ('p, 'sw, 'ss, 'q, 'reg) crates \<Rightarrow>
    'h \<Rightarrow> ('p, 'sw, 'ss, 'q, 'reg) reactor \<Rightarrow>
    panic + 'h async io_result \<times> ('p, 'sw, 'ss, 'q, 'reg) reactor" where
  "async_new S E h r = (case set_nonblocking S (os_as_fd S h) (poller r) of
       (Inl e, p) \<Rightarrow> Inr (Inl e, drop_handle S h (r\<lparr>poller := p\<rparr>))
     | (Inr _, p) \<Rightarrow> async_new_nonblocking S E h (r\<lparr>poller := p\<rparr>))"

definition async_get_ref :: "'h async \<Rightarrow> panic + 'h" where
  "async_get_ref a = or_panic Unwrap_None (as_io a)"

definition async_as_ref :: "'h async \<Rightarrow> panic + 'h" where
  "async_as_ref a = async_get_ref a"

text \<open>A mutable reference is the handle together with what writing through it does.\<close>

definition async_get_mut :: "'h async \<Rightarrow> panic + 'h \<times> ('h \<Rightarrow> 'h async)" where
  "async_get_mut a = rbind (or_panic Unwrap_None (as_io a)) (\<lambda>h. Inr (h, \<lambda>h'. a\<lparr>as_io := Some h'\<rparr>))"

text \<open>
  \<open>into_inner\<close> takes the handle out first, so that dropping what is left of \<open>self\<close> does nothing;
  when deregistering fails, the handle is dropped.
\<close>

definition async_into_inner :: "('h, 'fd, 'reg, 'p) os_calls \<Rightarrow> ('p, 'sw, 'ss, 'q, 'reg) crates \<Rightarrow>
    'h async \<Rightarrow> ('p, 'sw, 'ss, 'q, 'reg) reactor \<Rightarrow>
    panic + 'h io_result \<times> ('p, 'sw, 'ss, 'q, 'reg) reactor" where
  "async_into_inner S E a r =
     rbind (or_panic Unwrap_None (as_io a)) (\<lambda>h.
     rbind (deref (as_source a) r) (\<lambda>s.
     rbind (remove_io E s r) (\<lambda>(res, r').
       Inr (case res of
           Inl e \<Rightarrow> (Inl e, drop_handle S h r')
         | Inr _ \<Rightarrow> (Inr h, r')))))"

definition async_drop :: "('h, 'fd, 'reg, 'p) os_calls \<Rightarrow> ('p, 'sw, 'ss, 'q, 'reg) crates \<Rightarrow>
    'h async \<Rightarrow> ('p, 'sw, 'ss, 'q, 'reg) reactor \<Rightarrow> panic + ('p, 'sw, 'ss, 'q, 'reg) reactor" where
  "async_drop S E a r = (case as_io a of
       None \<Rightarrow> Inr r
     | Some h \<Rightarrow>
         rbind (deref (as_source a) r) (\<lambda>s.
         rbind (remove_io E s r) (\<lambda>(_, r'). Inr (drop_handle S h r'))))"

text \<open>The conversions: from and to an owned descriptor, and to a borrowed one.\<close>

definition async_try_from :: "('h, 'fd, 'reg, 'p) os_calls \<Rightarrow> ('p, 'sw, 'ss, 'q, 'reg) crates \<Rightarrow>
    ('v \<Rightarrow> 'h) \<Rightarrow> 'v \<Rightarrow> ('p, 'sw, 'ss, 'q, 'reg) reactor \<Rightarrow>
    panic + 'h async io_result \<times> ('p, 'sw, 'ss, 'q, 'reg) reactor" where
  "async_try_from S E into v r = async_new S E (into v) r"

definition owned_try_from :: "('h, 'fd, 'reg, 'p) os_calls \<Rightarrow> ('p, 'sw, 'ss, 'q, 'reg) crates \<Rightarrow>
    ('h \<Rightarrow> 'v) \<Rightarrow> 'h async \<Rightarrow> ('p, 'sw, 'ss, 'q, 'reg) reactor \<Rightarrow>
    panic + 'v io_result \<times> ('p, 'sw, 'ss, 'q, 'reg) reactor" where
  "owned_try_from S E into a r =
     rbind (async_into_inner S E a r) (\<lambda>(res, r'). Inr (map_sum id into res, r'))"

definition async_as_fd :: "('h, 'fd, 'reg, 'p) os_calls \<Rightarrow> 'h async \<Rightarrow> panic + 'fd" where
  "async_as_fd S a = rbind (async_get_ref a) (\<lambda>h. Inr (os_as_fd S h))"

section \<open>Waiting for readiness\<close>

definition async_poll_readable :: "('p, 'sw, 'ss, 'q, 'reg) crates \<Rightarrow> waker \<Rightarrow> 'h async \<Rightarrow>
    ('p, 'sw, 'ss, 'q, 'reg) reactor \<Rightarrow>
    panic + unit io_result poll \<times> ('p, 'sw, 'ss, 'q, 'reg) reactor" where
  "async_poll_readable E cx a r = poll_source E READ cx (as_source a) r"

definition async_poll_writable :: "('p, 'sw, 'ss, 'q, 'reg) crates \<Rightarrow> waker \<Rightarrow> 'h async \<Rightarrow>
    ('p, 'sw, 'ss, 'q, 'reg) reactor \<Rightarrow>
    panic + unit io_result poll \<times> ('p, 'sw, 'ss, 'q, 'reg) reactor" where
  "async_poll_writable E cx a r = poll_source E WRITE cx (as_source a) r"

definition async_readable :: "'h async \<Rightarrow> ready_future" where
  "async_readable a = source_readable"

definition async_readable_owned :: "'h async \<Rightarrow> ready_future" where
  "async_readable_owned a = source_readable_owned"

definition async_writable :: "'h async \<Rightarrow> ready_future" where
  "async_writable a = source_writable"

definition async_writable_owned :: "'h async \<Rightarrow> ready_future" where
  "async_writable_owned a = source_writable_owned"

section \<open>Operations on the handle\<close>

text \<open>
  One attempt of a non-blocking operation: it may change the handle, the caller's data (\<open>'b\<close>: a
  buffer, or what a closure captures) and the operating system.
\<close>

type_synonym ('h, 'b, 'p, 'x) io_op = "'h \<Rightarrow> 'b \<Rightarrow> 'p \<Rightarrow> 'x io_result \<times> 'h \<times> 'b \<times> 'p"

definition io_try :: "('h, 'b, 'p, 'x) io_op \<Rightarrow> 'h async \<Rightarrow> 'b \<Rightarrow>
    ('p, 'sw, 'ss, 'q, 'reg) reactor \<Rightarrow>
    panic + 'x io_result \<times> 'h async \<times> 'b \<times> ('p, 'sw, 'ss, 'q, 'reg) reactor" where
  "io_try op a b r = rbind (or_panic Unwrap_None (as_io a)) (\<lambda>h.
     case op h b (poller r) of (res, h', b', p) \<Rightarrow> Inr (res, a\<lparr>as_io := Some h'\<rparr>, b', r\<lparr>poller := p\<rparr>))"

text \<open>An operation through a shared reference leaves the handle as it is.\<close>

definition shared_op :: "('h \<Rightarrow> 'b \<Rightarrow> 'p \<Rightarrow> 'x io_result \<times> 'b \<times> 'p) \<Rightarrow> ('h, 'b, 'p, 'x) io_op" where
  "shared_op f h b p = (case f h b p of (res, b', p') \<Rightarrow> (res, h, b', p'))"

subsection \<open>Poll functions\<close>

text \<open>The loop of \<open>poll_read\<close>, \<open>poll_write\<close> and their kin.\<close>

partial_function (option) io_poll :: "('p, 'sw, 'ss, 'q, 'reg) crates \<Rightarrow> dir \<Rightarrow>
    ('h, 'b, 'p, 'x) io_op \<Rightarrow> waker \<Rightarrow> 'h async \<Rightarrow> 'b \<Rightarrow> ('p, 'sw, 'ss, 'q, 'reg) reactor \<Rightarrow>
    (panic + 'x io_result poll \<times> 'h async \<times> 'b \<times> ('p, 'sw, 'ss, 'q, 'reg) reactor) option" where
  "io_poll E d op cx a b r = (case io_try op a b r of
       Inl p \<Rightarrow> Some (Inl p)
     | Inr (res, a', b', r') \<Rightarrow>
         (if res \<noteq> Inl WouldBlock then Some (Inr (Poll_Ready res, a', b', r'))
          else case poll_source E d cx (as_source a') r' of
              Inl p \<Rightarrow> Some (Inl p)
            | Inr (ready, r'') \<Rightarrow> (case ready of
                  Poll_Pending \<Rightarrow> Some (Inr (Poll_Pending, a', b', r''))
                | Poll_Ready (Inl e) \<Rightarrow> Some (Inr (Poll_Ready (Inl e), a', b', r''))
                | Poll_Ready (Inr _) \<Rightarrow> io_poll E d op cx a' b' r'')))"

text \<open>
  The instances for \<open>Async<T>\<close>, with a mutable handle, and for \<open>&Async<T>\<close>. \<open>rd\<close> and \<open>rdv\<close>
  are \<open>read\<close> and \<open>read_vectored\<close> of the handle's type, \<open>wr\<close>, \<open>wrv\<close> and \<open>fl\<close> are \<open>write\<close>,
  \<open>write_vectored\<close> and \<open>flush\<close>.
\<close>

type_synonym byte = "8 word"

definition poll_read where
  "poll_read E rd cx a (buf :: byte list) r = io_poll E READ rd cx a buf r"

definition poll_read_vectored where
  "poll_read_vectored E rdv cx a (bufs :: byte list list) r = io_poll E READ rdv cx a bufs r"

definition poll_read_ref where
  "poll_read_ref E rd cx a (buf :: byte list) r = io_poll E READ (shared_op rd) cx a buf r"

definition poll_read_vectored_ref where
  "poll_read_vectored_ref E rdv cx a (bufs :: byte list list) r = io_poll E READ (shared_op rdv) cx a bufs r"

text \<open>A write does not change its buffer.\<close>

definition write_op :: "('h \<Rightarrow> 'b \<Rightarrow> 'p \<Rightarrow> 'x io_result \<times> 'h \<times> 'p) \<Rightarrow> ('h, 'b, 'p, 'x) io_op" where
  "write_op f h b p = (case f h b p of (res, h', p') \<Rightarrow> (res, h', b, p'))"

definition write_op_ref :: "('h \<Rightarrow> 'b \<Rightarrow> 'p \<Rightarrow> 'x io_result \<times> 'p) \<Rightarrow> ('h, 'b, 'p, 'x) io_op" where
  "write_op_ref f h b p = (case f h b p of (res, p') \<Rightarrow> (res, h, b, p'))"

definition poll_write where
  "poll_write E wr cx a (buf :: byte list) r = io_poll E WRITE (write_op wr) cx a buf r"

definition poll_write_vectored where
  "poll_write_vectored E wrv cx a (bufs :: byte list list) r = io_poll E WRITE (write_op wrv) cx a bufs r"

definition poll_flush where
  "poll_flush E fl cx a r = io_poll E WRITE (write_op (\<lambda>h _. fl h)) cx a () r"

definition poll_close where
  "poll_close E fl cx a r = poll_flush E fl cx a r"

definition poll_write_ref where
  "poll_write_ref E wr cx a (buf :: byte list) r = io_poll E WRITE (write_op_ref wr) cx a buf r"

definition poll_write_vectored_ref where
  "poll_write_vectored_ref E wrv cx a (bufs :: byte list list) r = io_poll E WRITE (write_op_ref wrv) cx a bufs r"

definition poll_flush_ref where
  "poll_flush_ref E fl cx a r = io_poll E WRITE (write_op_ref (\<lambda>h _. fl h)) cx a () r"

definition poll_close_ref where
  "poll_close_ref E fl cx a r = poll_flush_ref E fl cx a r"

subsection \<open>Asynchronous operations\<close>

text \<open>
  \<open>optimistic\<close> polls the future once; the next poll is ready whatever happened. An unpolled
  future is polled and marked; a polled one is not looked at again.
\<close>

definition optimistic_poll :: "('p, 'sw, 'ss, 'q, 'reg) crates \<Rightarrow> bool \<Rightarrow> ready_future \<Rightarrow> waker \<Rightarrow>
    addr \<Rightarrow> ('p, 'sw, 'ss, 'q, 'reg) reactor \<Rightarrow>
    panic + unit io_result poll \<times> bool \<times> ready_future \<times> ('p, 'sw, 'ss, 'q, 'reg) reactor" where
  "optimistic_poll E polled f cx x r =
     (if \<not> polled then rbind (poll_future E f cx x r) (\<lambda>(res, f', r'). Inr (res, True, f', r'))
      else Inr (Poll_Ready (Inr ()), True, f, r))"

text \<open>
  The future of \<open>read_with\<close>, \<open>write_with\<close> and their variants: about to try the operation, or
  waiting. The awaited future is dropped as soon as it is ready.
\<close>

datatype io_with = With_Try | With_Wait bool ready_future | With_Done

partial_function (option) io_with_poll :: "('p, 'sw, 'ss, 'q, 'reg) crates \<Rightarrow> dir \<Rightarrow>
    ('h, 'b, 'p, 'x) io_op \<Rightarrow> waker \<Rightarrow> io_with \<Rightarrow> 'h async \<Rightarrow> 'b \<Rightarrow>
    ('p, 'sw, 'ss, 'q, 'reg) reactor \<Rightarrow>
    (panic + 'x io_result poll \<times> io_with \<times> 'h async \<times> 'b \<times> ('p, 'sw, 'ss, 'q, 'reg) reactor) option" where
  "io_with_poll E d op cx st a b r = (case st of
       With_Try \<Rightarrow> (case io_try op a b r of
           Inl p \<Rightarrow> Some (Inl p)
         | Inr (res, a', b', r') \<Rightarrow>
             (if res \<noteq> Inl WouldBlock then Some (Inr (Poll_Ready res, With_Done, a', b', r'))
              else io_with_poll E d op cx (With_Wait False (source_ready d)) a' b' r'))
     | With_Wait polled f \<Rightarrow> (case optimistic_poll E polled f cx (as_source a) r of
           Inl p \<Rightarrow> Some (Inl p)
         | Inr (ready, polled', f', r') \<Rightarrow> (case ready of
               Poll_Pending \<Rightarrow> Some (Inr (Poll_Pending, With_Wait polled' f', a, b, r'))
             | Poll_Ready res \<Rightarrow> (case drop_future E f' (as_source a) r' of
                   Inl p \<Rightarrow> Some (Inl p)
                 | Inr r'' \<Rightarrow> (case res of
                       Inl e \<Rightarrow> Some (Inr (Poll_Ready (Inl e), With_Done, a, b, r''))
                     | Inr _ \<Rightarrow> io_with_poll E d op cx With_Try a b r''))))
     | With_Done \<Rightarrow> Some (Inl (Expect_Failed ''async fn resumed after completion'')))"

text \<open>Dropping the future while it waits drops the future it awaits.\<close>

definition io_with_drop :: "('p, 'sw, 'ss, 'q, 'reg) crates \<Rightarrow> io_with \<Rightarrow> 'h async \<Rightarrow>
    ('p, 'sw, 'ss, 'q, 'reg) reactor \<Rightarrow> panic + ('p, 'sw, 'ss, 'q, 'reg) reactor" where
  "io_with_drop E st a r = (case st of
       With_Wait _ f \<Rightarrow> drop_future E f (as_source a) r
     | _ \<Rightarrow> Inr r)"

definition read_with_poll where
  "read_with_poll E op cx st a b r = io_with_poll E READ (shared_op op) cx st a b r"

definition read_with_mut_poll where
  "read_with_mut_poll E op cx st a b r = io_with_poll E READ op cx st a b r"

definition write_with_poll where
  "write_with_poll E op cx st a b r = io_with_poll E WRITE (shared_op op) cx st a b r"

definition write_with_mut_poll where
  "write_with_mut_poll E op cx st a b r = io_with_poll E WRITE op cx st a b r"

end
