(* ===== verification/Async_Ops.thy ===== *)
theory Async_Ops
  imports Async
begin

text \<open>
  What the operations of \<open>Async\<close> guarantee: the poll functions of \<open>AsyncRead\<close> and
  \<open>AsyncWrite\<close>, and the futures of \<open>read_with\<close> and \<open>write_with\<close>.
\<close>

section \<open>Attempts\<close>

lemma io_try_eq:
  assumes "as_io a = Some h" "op h b (poller r) = (res, h', b', p)"
  shows "io_try op a b r = Inr (res, a\<lparr>as_io := Some h'\<rparr>, b', r\<lparr>poller := p\<rparr>)"
  using assms by (simp add: io_try_def)

section \<open>Polling a direction\<close>

text \<open>
  A poll that is ready has consumed its event: a second one can only wait, or fail. The reactor's
  poller is not touched then.
\<close>

definition task_waits :: "('p, 'sw, 'ss, 'q, 'reg) crates \<Rightarrow> dir \<Rightarrow> waker \<Rightarrow> ('sw, 'reg) source \<Rightarrow> bool" where
  "task_waits E d cx s \<longleftrightarrow> (\<exists>w \<in> waiting E (src_state s d). wakes_task E w cx)"

lemma poll_source_outcomes:
  assumes ok: "reactor_ok E items r" and x: "live E r x s"
  obtains (pending) r' s' where "poll_source E d cx x r = Inr (Poll_Pending, r')"
      "reactor_ok E items r'" "live E r' x s'" "task_waits E d cx s'"
  | (failed) e r' s' where "poll_source E d cx x r = Inr (Poll_Ready (Inl e), r')"
      "reactor_ok E items r'" "live E r' x s'"
  | (ready) r' s' where "poll_source E d cx x r = Inr (Poll_Ready (Inr ()), r')"
      "reactor_ok E items r'" "live E r' x s'" "ticks (src_state s d) \<noteq> None"
      "ticks (src_state s' d) = None" "poller r' = poller r"
  using ok x
proof (cases rule: poll_source_cases [where d = d and cx = cx])
  case (1 res s' p ws r1)
  from ok have "sources_ok E r" by (simp add: reactor_ok_def)
  then have slot: "slot_ok E d s" using x by (rule live_slot_ok)
  consider "res = Poll_Pending" | e where "res = Poll_Ready (Inl e)" | "res = Poll_Ready (Inr ())"
    by (cases res; cases "case res of Poll_Ready y \<Rightarrow> y"; auto split: poll.splits)
  then show thesis
  proof cases
    case a: 1
    then have "poll_ready_as E () d cx s r = Inr (Poll_Pending, (), s', r\<lparr>poller := p, woken := woken r @ ws\<rparr>)"
      using 1(1) by (simp add: poll_ready_as_def)
    with pr.pending [OF slot] have "task_waits E d cx s'" unfolding task_waits_def by blast
    with a 1 show thesis by (intro pending) simp_all
  next
    case (2 e)
    with 1 show thesis by (intro failed) simp_all
  next
    case 3
    then have as: "poll_ready E d cx s r = (Poll_Ready (Inr ()), s', r\<lparr>poller := p, woken := woken r @ ws\<rparr>)"
      using 1(1) by simp
    then have "fresh_event (ticks (src_state s d)) (tick (src_state s d))"
      using pr.only_fresh [OF slot, of "()" cx r] by (simp add: poll_ready_as_def)
    with as have "ticks (src_state s d) \<noteq> None" "ticks (src_state s' d) = None" "poller r = p"
      by (cases "ticks (src_state s d)"; auto simp: poll_ready_def Let_def dest: arg_cong [where f = poller])+
    with 3 1 show thesis by (intro ready [of r1 s']) (simp_all add: put_source_def)
  qed
qed

section \<open>The poll functions\<close>

lemma io_poll_done:
  assumes "as_io a = Some h" "op h b (poller r) = (res, h', b', p)" "res \<noteq> Inl WouldBlock"
  shows "io_poll E d op cx a b r = Some (Inr (Poll_Ready res, a\<lparr>as_io := Some h'\<rparr>, b', r\<lparr>poller := p\<rparr>))"
  using assms by (subst io_poll.simps) (simp add: io_try_eq)

lemma io_poll_blocked:
  assumes "as_io a = Some h" "op h b (poller r) = (Inl WouldBlock, h', b', p)"
    and "poll_source E d cx (as_source a) (r\<lparr>poller := p\<rparr>) = Inr (ready, r')"
  shows "io_poll E d op cx a b r = (case ready of
      Poll_Pending \<Rightarrow> Some (Inr (Poll_Pending, a\<lparr>as_io := Some h'\<rparr>, b', r'))
    | Poll_Ready (Inl e) \<Rightarrow> Some (Inr (Poll_Ready (Inl e), a\<lparr>as_io := Some h'\<rparr>, b', r'))
    | Poll_Ready (Inr _) \<Rightarrow> io_poll E d op cx (a\<lparr>as_io := Some h'\<rparr>) b' r')"
  using assms by (subst io_poll.simps) (simp add: io_try_eq)

text \<open>What a poll function has done when it returns, in terms of its last attempt.\<close>

definition poll_outcome where
  "poll_outcome E items d cx res h' a out a' r' \<longleftrightarrow>
     a' = a\<lparr>as_io := Some h'\<rparr> \<and> reactor_ok E items r' \<and> (\<exists>s'. live E r' (as_source a) s' \<and>
       (if res = Inl WouldBlock
        then out = Poll_Pending \<and> task_waits E d cx s' \<or> (\<exists>e. out = Poll_Ready (Inl e))
        else out = Poll_Ready res))"

lemma io_poll_settled:
  assumes ok: "reactor_ok E items r" and x: "live E r (as_source a) s" and h: "as_io a = Some h"
    and out: "op h b (poller r) = (res, h', b', p)" and t: "ticks (src_state s d) = None"
  shows "\<exists>out a' r'. io_poll E d op cx a b r = Some (Inr (out, a', b', r')) \<and>
    poll_outcome E items d cx res h' a out a' r'"
proof (cases "res = Inl WouldBlock")
  case False
  then show ?thesis using io_poll_done [where E = E and d = d and cx = cx and op = op and b = b and r = r, OF h out False] ok x
    by (auto simp: poll_outcome_def)
next
  case True
  from ok have ok1: "reactor_ok E items (r\<lparr>poller := p\<rparr>)" by simp
  from x have x1: "live E (r\<lparr>poller := p\<rparr>) (as_source a) s" by simp
  show ?thesis
    using io_poll_blocked [where E = E and d = d and cx = cx and op = op and b = b and r = r, OF h out [unfolded True]] True t
    by (cases rule: poll_source_outcomes [OF ok1 x1, where d = d and cx = cx]) (auto simp: poll_outcome_def)
qed

lemma io_poll_returns:
  assumes ok: "reactor_ok E items r" and x: "live E r (as_source a) s" and h: "as_io a = Some h"
  shows "\<exists>out a' b' r' res h' p. io_poll E d op cx a b r = Some (Inr (out, a', b', r')) \<and>
    poll_outcome E items d cx res h' a out a' r' \<and>
    (op h b (poller r) = (res, h', b', p) \<or>
     (\<exists>h1 b1 p1. op h b (poller r) = (Inl WouldBlock, h1, b1, p1) \<and> op h1 b1 p1 = (res, h', b', p)))"
proof -
  obtain res h' b' p where out: "op h b (poller r) = (res, h', b', p)" using prod_cases4 by blast
  show ?thesis
  proof (cases "res = Inl WouldBlock")
    case False
    have "poll_outcome E items d cx res h' a (Poll_Ready res) (a\<lparr>as_io := Some h'\<rparr>) (r\<lparr>poller := p\<rparr>)"
      using ok x False by (auto simp: poll_outcome_def)
    with io_poll_done [where E = E and d = d and cx = cx and op = op and b = b and r = r, OF h out False] out show ?thesis by blast
  next
    case True
    note blocked = io_poll_blocked [where E = E and d = d and cx = cx and op = op and b = b and r = r, OF h out [unfolded True]]
    from ok have ok1: "reactor_ok E items (r\<lparr>poller := p\<rparr>)" by simp
    from x have x1: "live E (r\<lparr>poller := p\<rparr>) (as_source a) s" by simp
    show ?thesis
      using ok1 x1
    proof (cases rule: poll_source_outcomes [where d = d and cx = cx])
      case (pending r' s')
      then have "poll_outcome E items d cx res h' a Poll_Pending (a\<lparr>as_io := Some h'\<rparr>) r'"
        using True by (auto simp: poll_outcome_def)
      with pending blocked out show ?thesis by fastforce
    next
      case (failed e r' s')
      then have "poll_outcome E items d cx res h' a (Poll_Ready (Inl e)) (a\<lparr>as_io := Some h'\<rparr>) r'"
        using True by (auto simp: poll_outcome_def)
      with failed blocked out show ?thesis by fastforce
    next
      case (ready r' s')
      obtain res2 h2 b2 p2 where out2: "op h' b' p = (res2, h2, b2, p2)" using prod_cases4 by blast
      have "op h' b' (poller r') = (res2, h2, b2, p2)" using ready(6) out2 by simp
      then have "\<exists>out a' r''. io_poll E d op cx (a\<lparr>as_io := Some h'\<rparr>) b' r' = Some (Inr (out, a', b2, r'')) \<and>
          poll_outcome E items d cx res2 h2 (a\<lparr>as_io := Some h'\<rparr>) out a' r''"
        using ready by (intro io_poll_settled) simp_all
      then obtain o2 a2 r2 where "io_poll E d op cx (a\<lparr>as_io := Some h'\<rparr>) b' r' = Some (Inr (o2, a2, b2, r2))"
          "poll_outcome E items d cx res2 h2 a o2 a2 r2" by (auto simp: poll_outcome_def)
      with ready blocked out out2 True show ?thesis by fastforce
    qed
  qed
qed

section \<open>The futures of \<open>read_with\<close> and \<open>write_with\<close>\<close>

text \<open>
  Between two polls the future is new, or it awaits a readiness future that it has polled once.
  \<open>with_index\<close> is the slot it holds.
\<close>

fun with_ok :: "('p, 'sw, 'ss, 'q, 'reg) crates \<Rightarrow> dir \<Rightarrow> io_with \<Rightarrow> ('sw, 'reg) source \<Rightarrow> bool" where
  "with_ok E d With_Try s = True"
| "with_ok E d (With_Wait polled f) s = (polled \<and> future_ok E f d s)"
| "with_ok E d With_Done s = False"

fun with_index :: "io_with \<Rightarrow> slab_key option" where
  "with_index (With_Wait polled f) = rf_index f"
| "with_index _ = None"

text \<open>\<open>frees E d j s s'\<close>: the slot \<open>j\<close> is free and every other slot of the direction as it was.\<close>

definition frees :: "('p, 'sw, 'ss, 'q, 'reg) crates \<Rightarrow> dir \<Rightarrow> slab_key option \<Rightarrow>
    ('sw, 'reg) source \<Rightarrow> ('sw, 'reg) source \<Rightarrow> bool" where
  "frees E d j s s' \<longleftrightarrow> src_key s' = src_key s \<and> (\<forall>k. sl_get (wslab E) k (wakers (src_state s' d)) =
     (if j = Some k then None else sl_get (wslab E) k (wakers (src_state s d))))"

lemma drop_future_frees:
  assumes ok: "reactor_ok E items r" and x: "live E r x s" and d: "rf_dir f = d"
  obtains s' r' where "drop_future E f x r = Inr r'" "reactor_ok E items r'" "live E r' x s'"
    "frees E d (rf_index f) s s'" "poller r' = poller r"
  using ok x
proof (cases rule: drop_future_cases [where f = f])
  case (1 s' r')
  from ok have slab: "slab_ok (wslab E)" by (auto simp: reactor_ok_def timers_ok_def)
  from slab obtain s1 where s1: "ready_drop E f s = Inr s1" "src_key s1 = src_key s"
    "\<And>k. sl_get (wslab E) k (wakers (src_state s1 (rf_dir f))) =
       (if rf_index f = Some k then None else sl_get (wslab E) k (wakers (src_state s (rf_dir f))))"
    using ready_drop_spec [of E f s] by metis
  with 1(1) have "frees E d (rf_index f) s s'" using d by (simp add: frees_def)
  with 1 show thesis by (intro that [of r' s']) (simp_all add: put_source_def)
qed

text \<open>The first poll of a fresh readiness future cannot complete.\<close>

lemma first_poll_outcomes:
  assumes ok: "reactor_ok E items r" and x: "live E r x s"
  obtains (pending) f' r' s' where
      "poll_future E (source_ready d) cx x r = Inr (Poll_Pending, f', r')"
      "reactor_ok E items r'" "live E r' x s'" "future_ok E f' d s'" "task_waits E d cx s'"
      "rf_index f' \<noteq> None" "frees E d (rf_index f') s' s"
  | (failed) e f' r' s' where
      "poll_future E (source_ready d) cx x r = Inr (Poll_Ready (Inl e), f', r')"
      "reactor_ok E items r'" "live E r' x s'" "rf_dir f' = d" "frees E d (rf_index f') s' s"
proof -
  from ok have slab: "slab_ok (wslab E)" by (auto simp: reactor_ok_def timers_ok_def)
  let ?f = "source_ready d"
  have f: "future_ok E ?f d s" using slab by simp
  from ok x f show thesis
  proof (cases rule: poll_future_cases [where cx = cx])
    case (1 res f' s' p r')
    show thesis
      using f
    proof (cases rule: ready_poll_cases [where cx = cx and r = r])
      case fresh
      then show thesis by (simp add: source_ready_def)
    next
      case (stored res1 r1 s1 f1 i sl)
      with 1(1) have eqs: "res1 = res" "f1 = f'" "s1 = s'" by auto
      note S = stored [unfolded eqs]
      have s': "src_state s' d = (src_state s d)\<lparr>wakers := sl\<rparr>" "src_key s' = src_key s" by (simp_all add: S(2))
      have own: "sl_get (wslab E) i sl = Some (Some cx)" using S(3) [of i] by simp
      have fr: "frees E d (rf_index f') s' s" using S(3, 5, 8) s' by (simp add: frees_def source_ready_def)
      have ok': "future_ok E f' d s'" using S(5-7) s' slab own by (simp add: future_ok_def)
      have "cx \<in> waiting E (src_state s' d)" using own by (auto simp: s' waiting_def)
      then have waits: "task_waits E d cx s'" by (auto simp: task_waits_def wakes_task_def)
      show thesis
      proof (cases rule: update_interest_cases [of E "dir_is_empty E (src_state s d)" s' r])
        case (pending p1)
        with S(10) have "res = Poll_Pending" by simp
        with \<open>poll_future E ?f cx x r = Inr (res, f', r')\<close> show thesis
          using \<open>reactor_ok E items r'\<close> \<open>live E r' x s'\<close> ok' waits S(5) fr
          by (intro that(1) [of f' r' s']) simp_all
      next
        case (failed p1 e)
        with S(10) have "res = Poll_Ready (Inl e)" by simp
        with \<open>poll_future E ?f cx x r = Inr (res, f', r')\<close> show thesis
          using \<open>reactor_ok E items r'\<close> \<open>live E r' x s'\<close> S(6) fr by (intro that(2) [of e f' r' s']) simp_all
      qed
    qed
  qed
qed

section \<open>One attempt per poll\<close>

lemma io_with_try:
  assumes "as_io a = Some h" "op h b (poller r) = (res, h', b', p)"
  shows "io_with_poll E d op cx With_Try a b r =
    (if res \<noteq> Inl WouldBlock then Some (Inr (Poll_Ready res, With_Done, a\<lparr>as_io := Some h'\<rparr>, b', r\<lparr>poller := p\<rparr>))
     else io_with_poll E d op cx (With_Wait False (source_ready d)) (a\<lparr>as_io := Some h'\<rparr>) b' (r\<lparr>poller := p\<rparr>))"
  using assms by (subst io_with_poll.simps) (simp add: io_try_eq)

lemma io_with_first_wait:
  assumes "poll_future E f cx (as_source a) r = Inr (ready, f', r')"
  shows "io_with_poll E d op cx (With_Wait False f) a b r = (case ready of
      Poll_Pending \<Rightarrow> Some (Inr (Poll_Pending, With_Wait True f', a, b, r'))
    | Poll_Ready res \<Rightarrow> (case drop_future E f' (as_source a) r' of
          Inl p \<Rightarrow> Some (Inl p)
        | Inr r'' \<Rightarrow> (case res of
              Inl e \<Rightarrow> Some (Inr (Poll_Ready (Inl e), With_Done, a, b, r''))
            | Inr _ \<Rightarrow> io_with_poll E d op cx With_Try a b r'')))"
  using assms by (subst io_with_poll.simps) (simp add: optimistic_poll_def)

lemma io_with_resume:
  assumes "drop_future E f (as_source a) r = Inr r'"
  shows "io_with_poll E d op cx (With_Wait True f) a b r = io_with_poll E d op cx With_Try a b r'"
  using assms by (subst io_with_poll.simps) (simp add: optimistic_poll_def)

text \<open>What a poll has done when it returns, in terms of its one attempt, which gave \<open>res\<close>.\<close>

definition with_outcome where
  "with_outcome E items d cx j s res h' a out st' a' r' \<longleftrightarrow>
     a' = a\<lparr>as_io := Some h'\<rparr> \<and> reactor_ok E items r' \<and> (\<exists>s'. live E r' (as_source a) s' \<and>
       (if res = Inl WouldBlock
        then out = Poll_Pending \<and> with_ok E d st' s' \<and> task_waits E d cx s' \<or>
          (\<exists>e. out = Poll_Ready (Inl e)) \<and> st' = With_Done \<and> frees E d j s s'
        else out = Poll_Ready res \<and> st' = With_Done \<and> frees E d j s s'))"

lemma frees_trans:
  "frees E d j s s1 \<Longrightarrow> frees E d i s2 s1 \<Longrightarrow> frees E d i s2 s3 \<Longrightarrow> frees E d j s s3"
  by (simp add: frees_def)

lemma frees_refl: "frees E d None s s"
  by (simp add: frees_def)

lemma io_with_try_returns:
  assumes ok: "reactor_ok E items r" and x: "live E r (as_source a) s1" and h: "as_io a = Some h"
    and out: "op h b (poller r) = (res, h', b', p)" and fr: "frees E d j s s1"
  shows "\<exists>out st' a' r'. io_with_poll E d op cx With_Try a b r = Some (Inr (out, st', a', b', r')) \<and>
    with_outcome E items d cx j s res h' a out st' a' r'"
proof (cases "res = Inl WouldBlock")
  case False
  then show ?thesis
    using io_with_try [where E = E and d = d and cx = cx and op = op and b = b and r = r, OF h out] ok x fr
    by (auto simp: with_outcome_def)
next
  case True
  let ?a = "a\<lparr>as_io := Some h'\<rparr>" and ?r = "r\<lparr>poller := p\<rparr>"
  have tried: "io_with_poll E d op cx With_Try a b r =
      io_with_poll E d op cx (With_Wait False (source_ready d)) ?a b' ?r"
    using io_with_try [where E = E and d = d and cx = cx and op = op and b = b and r = r, OF h out] True by simp
  from ok have ok1: "reactor_ok E items ?r" by simp
  from x have x1: "live E ?r (as_source a) s1" by simp
  show ?thesis
    using ok1 x1
  proof (cases rule: first_poll_outcomes [where d = d and cx = cx])
    case (pending f' r' s')
    have "with_outcome E items d cx j s res h' a Poll_Pending (With_Wait True f') ?a r'"
      using pending True by (auto simp: with_outcome_def)
    with tried pending(1) show ?thesis
      using io_with_first_wait [of E "source_ready d" cx ?a ?r Poll_Pending f' r' d op b'] by auto
  next
    case (failed e f' r' s')
    from failed(2-4) obtain s2 r2 where D: "drop_future E f' (as_source a) r' = Inr r2" "reactor_ok E items r2"
        "live E r2 (as_source a) s2" "frees E d (rf_index f') s' s2" by (rule drop_future_frees)
    have "with_outcome E items d cx j s res h' a (Poll_Ready (Inl e)) With_Done ?a r2"
      using D True frees_trans [OF fr failed(5) D(4)] by (auto simp: with_outcome_def)
    with tried failed(1) D(1) show ?thesis
      using io_with_first_wait [of E "source_ready d" cx ?a ?r "Poll_Ready (Inl e)" f' r' d op b'] by auto
  qed
qed

lemma io_with_returns:
  assumes ok: "reactor_ok E items r" and x: "live E r (as_source a) s" and h: "as_io a = Some h"
    and st: "with_ok E d st s" and out: "op h b (poller r) = (res, h', b', p)"
  shows "\<exists>out st' a' r'. io_with_poll E d op cx st a b r = Some (Inr (out, st', a', b', r')) \<and>
    with_outcome E items d cx (with_index st) s res h' a out st' a' r'"
proof (cases st)
  case With_Try
  then show ?thesis using io_with_try_returns [where op = op and b = b, OF ok x h out frees_refl] by simp
next
  case (With_Wait polled f)
  with st have f: "polled" "rf_dir f = d" by (auto simp: future_ok_def)
  from ok x f(2) obtain s1 r1 where D: "drop_future E f (as_source a) r = Inr r1" "reactor_ok E items r1"
      "live E r1 (as_source a) s1" "frees E d (rf_index f) s s1" "poller r1 = poller r" by (rule drop_future_frees)
  have "op h b (poller r1) = (res, h', b', p)" using out D(5) by simp
  from io_with_try_returns [where op = op and b = b, OF D(2,3) h this D(4)] io_with_resume [where d = d and op = op, OF D(1)]
  show ?thesis using With_Wait f(1) by simp
next
  case With_Done
  with st show ?thesis by simp
qed

end
