(* ===== verification/Async_Properties.thy ===== *)
theory Async_Properties
  imports Async_Ops
begin

text \<open>
  The properties of \<open>Async\<close>: what creating and giving up a handle does to the reactor and to
  the operating system, and what an operation on it guarantees.
\<close>

section \<open>The operating system\<close>

text \<open>
  What the calls document: the call that sets the mode sets it, reading the flags changes
  nothing, and none of them touches what the poller watches. \<open>nb p fd\<close> holds of a descriptor in
  non-blocking mode.
\<close>

definition os_ok :: "('h, 'fd, 'reg, 'p) os_calls \<Rightarrow> ('reg, 'p) registration_ops \<Rightarrow>
    ('p \<Rightarrow> 'w) \<Rightarrow> ('p \<Rightarrow> 'fd \<Rightarrow> bool) \<Rightarrow> bool" where
  "os_ok S R watched nb \<longleftrightarrow>
     (\<forall>fd p res p'. os_fionbio S fd True p = (res, p') \<longrightarrow>
        watched p' = watched p \<and> (res = Inr () \<longrightarrow> nb p' fd)) \<and>
     (\<forall>fd p res p'. os_getfl S fd p = (res, p') \<longrightarrow> watched p' = watched p \<and> nb p' = nb p \<and>
        (\<forall>fl. res = Inr fl \<longrightarrow> nb p fd = (or fl (os_nonblock S) = fl))) \<and>
     (\<forall>fd fl p res p'. os_setfl S fd fl p = (res, p') \<longrightarrow> watched p' = watched p \<and>
        (res = Inr () \<and> or fl (os_nonblock S) = fl \<longrightarrow> nb p' fd)) \<and>
     (\<forall>g k p. nb (snd (reg_add R g k p)) = nb p)"

lemma os_okD:
  assumes "os_ok S R watched nb"
  shows "os_fionbio S fd True p = (res, p') \<Longrightarrow> watched p' = watched p \<and> (res = Inr () \<longrightarrow> nb p' fd)"
    and "os_getfl S fd p = (res', p') \<Longrightarrow> watched p' = watched p \<and> nb p' = nb p \<and>
      (\<forall>fl. res' = Inr fl \<longrightarrow> nb p fd = (or fl (os_nonblock S) = fl))"
    and "os_setfl S fd fl p = (res, p') \<Longrightarrow> watched p' = watched p \<and>
      (res = Inr () \<and> or fl (os_nonblock S) = fl \<longrightarrow> nb p' fd)"
    and "reg_add R g k p = (ares, p') \<Longrightarrow> nb p' = nb p"
proof -
  show "reg_add R g k p = (ares, p') \<Longrightarrow> nb p' = nb p"
    using assms unfolding os_ok_def by (metis snd_conv)
qed (use assms in \<open>unfold os_ok_def, blast+\<close>)

text \<open>On every target, by either way.\<close>

lemma set_nonblocking_ok:
  assumes S: "os_ok S R watched nb" and set: "set_nonblocking S fd p = (res, p')"
  shows "watched p' = watched p \<and> (res = Inr () \<longrightarrow> nb p' fd)"
proof (cases "os_target S = Windows \<or> os_target S = Linux")
  case True
  obtain e p1 where call: "os_fionbio S fd True p = (e, p1)" by force
  from os_okD(1) [OF S call] True call set show ?thesis
    by (auto simp: set_nonblocking_def split: sum.splits)
next
  case False
  obtain e p1 where get: "os_getfl S fd p = (e, p1)" by force
  note G = os_okD(2) [OF S get]
  show ?thesis
  proof (cases e)
    case (Inl err)
    with G False get set show ?thesis by (auto simp: set_nonblocking_def)
  next
    case (Inr fl)
    let ?new = "or fl (os_nonblock S)"
    obtain e' p2 where call: "os_setfl S fd ?new p1 = (e', p2)" by force
    from os_okD(3) [OF S call] have "watched p2 = watched p1" "e' = Inr () \<longrightarrow> nb p2 fd" by simp_all
    with G Inr False get set call show ?thesis
      by (auto simp: set_nonblocking_def Let_def split: sum.splits if_splits)
  qed
qed

section \<open>An operating system to evaluate on\<close>

type_synonym sim_async = "raw_fd async"

definition sim_close :: "raw_fd \<Rightarrow> sim_poller \<Rightarrow> sim_poller" where
  "sim_close fd p = p\<lparr>sp_open := removeAll fd (sp_open p), sp_closed := sp_closed p @ [fd]\<rparr>"

definition sim_os :: "(raw_fd, raw_fd, registration_unix, sim_poller) os_calls" where
  "sim_os = \<lparr>os_target = Freebsd, os_as_fd = id, os_registration = unix_new,
     os_fionbio = (\<lambda>fd b p. (Inr (), p\<lparr>sp_nonblock := (sp_nonblock p)(fd := b)\<rparr>)),
     os_getfl = (\<lambda>fd p. (Inr (if sp_nonblock p fd then 4 else 0), p)),
     os_setfl = (\<lambda>fd fl p. (Inr (), p\<lparr>sp_nonblock := (sp_nonblock p)(fd := (or fl 4 = fl))\<rparr>)),
     os_nonblock = 4, os_close = sim_close\<rparr>"

lemma sim_os_ok [simp, intro]: "os_ok sim_os (unix_registration sim_fd_calls) sp_watched sp_nonblock"
  unfolding os_ok_def
proof (intro conjI allI)
  show "sp_nonblock (snd (reg_add (unix_registration sim_fd_calls) g k p)) = sp_nonblock p" for g k p
    by (simp add: unix_registration_defs sim_fd_calls_def sim_set_def)
qed (auto simp: sim_os_def)

section \<open>Opening and closing\<close>

lemma live_source_ne: "live E r x s \<Longrightarrow> source_at E r (src_key s) \<noteq> None"
  by (simp add: live_source_at)

text \<open>
  On any platform: a new handle is registered, or the handle that went in is closed. \<open>own\<close> is any other part
  of the operating system's state that setting the mode and registering leave alone.
\<close>

context registration_backend begin

lemma new_nonblocking_cases:
  assumes rok: "reactor_ok E items r" and E: "reg_calls E = R" and p: "ok (poller r)"
  obtains (opened) a s e g k r' where "async_new_nonblocking S E h r = Inr (Inr a, r')" "reactor_ok E items r'"
      "as_io a = Some h" "live E r' (as_source a) s" "registration s = os_registration S (os_as_fd S h)"
      "source_at E r (src_key s) = None" "source_at E r' = (source_at E r)(src_key s \<mapsto> s)"
      "table (poller r') = (table (poller r))(os_registration S (os_as_fd S h) \<mapsto> e)" "ev_key e = src_key s"
      "poller r' = snd (reg_add R g k (poller r))"
  | (refused) e r' g k p where "async_new_nonblocking S E h r = Inr (Inl e, r')" "reactor_ok E items r'"
      "source_at E r' = source_at E r" "poller r' = os_close S h p" "table p = table (poller r)"
      "p = snd (reg_add R g k (poller r))"
proof -
  from rok have slabs: "slab_ok (sslab E)" "slab_ok (wslab E)" and src: "sources_ok E r" and T: "timers_ok E items r"
    by (auto simp: reactor_ok_def timers_ok_def)
  let ?g = "os_registration S (os_as_fd S h)" and ?k = "sl_vacant_key (sslab E) (sources r)"
  have keep: "reactor_ok E items r1" if "sources_ok E r1" "timer_ops r1 = timer_ops r" "timers r1 = timers r" for r1
    using that timers_ok_cong [OF T, of r1] by (simp add: reactor_ok_def)
  from src slabs show thesis
  proof (cases rule: insert_io_cases [where g = ?g])
    case (added p' ss r')
    let ?s = "new_source E ?g r"
    have call: "reg_add R ?g ?k (poller r) = (Inr (), p')" using added(1) E by simp
    from add_ok [OF p call] obtain e where "table p' = (table (poller r))(?g \<mapsto> e)" "ev_key e = ?k" by blast
    moreover have "live E r' (next_addr r) ?s" using added(3, 6) by (simp add: live_def)
    moreover have "reactor_ok E items r'" using keep [of r'] added(3, 4) by simp
    ultimately show thesis
      using added call source_at_vacant [OF slabs(1), of r]
      by (intro opened [of "\<lparr>as_source = next_addr r, as_io = Some h\<rparr>" r' ?s e ?g ?k])
        (simp_all add: async_new_nonblocking_def)
  next
    case (failed e p' ss r')
    have call: "reg_add R ?g ?k (poller r) = (Inl e, p')" using failed(1) E by simp
    have "table p' = table (poller r)" using add_err [OF p call] by blast
    moreover have "reactor_ok E items r'" using keep [of r'] failed(3, 4) by simp
    moreover have "source_at E (drop_handle S h r') = source_at E r'"
      by (simp add: drop_handle_def source_at_def fun_eq_iff)
    ultimately show thesis
      using failed call by (intro refused [of e "drop_handle S h r'" p' ?g ?k]) (simp_all add: async_new_nonblocking_def drop_handle_def)
  qed
qed

lemma new_cases:
  assumes rok: "reactor_ok E items r" and E: "reg_calls E = R" and p: "\<And>p. ok p" and S: "os_ok S R table nb"
    and own: "\<And>fd p. own (snd (set_nonblocking S fd p)) = own p" "\<And>g k p. own (snd (reg_add R g k p)) = own p"
  obtains (opened) a s e r' where "async_new S E h r = Inr (Inr a, r')" "reactor_ok E items r'"
      "as_io a = Some h" "live E r' (as_source a) s" "registration s = os_registration S (os_as_fd S h)"
      "source_at E r (src_key s) = None" "source_at E r' = (source_at E r)(src_key s \<mapsto> s)"
      "table (poller r') = (table (poller r))(os_registration S (os_as_fd S h) \<mapsto> e)" "ev_key e = src_key s"
      "nb (poller r') (os_as_fd S h)" "own (poller r') = own (poller r)"
  | (refused) e r' p where "async_new S E h r = Inr (Inl e, r')" "reactor_ok E items r'"
      "source_at E r' = source_at E r" "poller r' = os_close S h p" "table p = table (poller r)"
      "own p = own (poller r)"
proof -
  obtain res q where set: "set_nonblocking S (os_as_fd S h) (poller r) = (res, q)" by force
  note N = set_nonblocking_ok [OF S set]
  have o: "own q = own (poller r)" using own(1) [of "os_as_fd S h" "poller r"] set by simp
  show thesis
  proof (cases res)
    case (Inl e)
    then have "async_new S E h r = Inr (Inl e, r\<lparr>poller := os_close S h q\<rparr>)"
      using set by (simp add: async_new_def drop_handle_def)
    with N rok o show thesis by (intro refused [of e "r\<lparr>poller := os_close S h q\<rparr>" q]) simp_all
  next
    case (Inr u)
    let ?r = "r\<lparr>poller := q\<rparr>"
    have new: "async_new S E h r = async_new_nonblocking S E h ?r" using Inr set by (simp add: async_new_def)
    from rok have "reactor_ok E items ?r" by simp
    from this E p show thesis
    proof (cases rule: new_nonblocking_cases [where S = S and h = h])
      case (opened a s e g k r')
      have "nb (poller r') (os_as_fd S h)"
        using os_okD(4) [OF S, of g k q] N Inr opened(10) by (cases "reg_add R g k q") auto
      moreover have "own (poller r') = own (poller r)" using own(2) [of g k q] opened(10) o by simp
      ultimately show thesis using opened new N by (intro that(1) [of a r' s e]) simp_all
    next
      case (refused e r' g k p')
      have "own p' = own (poller r)" using own(2) [of g k q] refused(6) o by simp
      with refused new N show thesis by (intro that(2) [of e r' p']) simp_all
    qed
  qed
qed

end

text \<open>On Unix, where the poller is asked about descriptors.\<close>

lemma unix_tableD:
  "unix_table w p' = unix_table w p \<Longrightarrow> w p' = w p"
  "unix_table w p' = (unix_table w p)(unix_new fd \<mapsto> e) \<Longrightarrow> w p' = (w p)(fd \<mapsto> e)"
proof -
  have at: "unix_table w q (unix_new x) = w q x" for q x by (simp add: unix_table_def unix_new_def)
  show "w p' = w p" if "unix_table w p' = unix_table w p"
    using that at by (metis ext)
  show "w p' = (w p)(fd \<mapsto> e)" if "unix_table w p' = (unix_table w p)(unix_new fd \<mapsto> e)"
  proof
    fix x
    from fun_cong [OF that, of "unix_new x"] show "w p' x = ((w p)(fd \<mapsto> e)) x"
      by (simp add: at fun_upd_def) (simp add: unix_new_def)
  qed
qed

lemma os_ok_unix_table: "os_ok S R watched nb \<Longrightarrow> os_ok S R (unix_table watched) nb"
  unfolding os_ok_def unix_table_def by (simp add: fun_eq_iff)

lemma async_new_nonblocking_ok:
  assumes ok: "reactor_ok E items r" and E: "reg_calls E = unix_registration P"
    and P: "fd_calls_ok P watched" and S: "os_registration S = unix_new"
  obtains (opened) a s e g k r' where "async_new_nonblocking S E h r = Inr (Inr a, r')" "reactor_ok E items r'"
      "as_io a = Some h" "live E r' (as_source a) s" "registration s = unix_new (os_as_fd S h)"
      "source_at E r (src_key s) = None" "source_at E r' = (source_at E r)(src_key s \<mapsto> s)"
      "watched (poller r') = (watched (poller r))(os_as_fd S h \<mapsto> e)" "ev_key e = src_key s"
      "poller r' = snd (reg_add (reg_calls E) g k (poller r))"
  | (refused) e r' g k p where "async_new_nonblocking S E h r = Inr (Inl e, r')" "reactor_ok E items r'"
      "source_at E r' = source_at E r" "poller r' = os_close S h p" "watched p = watched (poller r)"
      "p = snd (reg_add (reg_calls E) g k (poller r))"
  using ok E P
proof (cases rule: unix_backend.new_nonblocking_cases [where S = S and h = h])
  case (opened a s e g k r')
  with E S unix_tableD(2) [of watched "poller r'" "poller r" "os_as_fd S h" e] show thesis by (intro that(1) [of a r' s e g k]) simp_all
next
  case (refused e r' g k p)
  from refused(1-4) unix_tableD(1) [OF refused(5)] show thesis
    by (rule that(2) [of e r' p g k]) (use refused(6) E in simp)
qed

lemma async_new_cases:
  assumes ok: "reactor_ok E items r" and E: "reg_calls E = unix_registration P"
    and P: "fd_calls_ok P watched" and S: "os_ok S (unix_registration P) watched nb" "os_registration S = unix_new"
    and own: "\<And>fd p. own (snd (set_nonblocking S fd p)) = own p"
      "\<And>g k p. own (snd (reg_add (unix_registration P) g k p)) = own p"
  obtains (opened) a s e r' where "async_new S E h r = Inr (Inr a, r')" "reactor_ok E items r'"
      "as_io a = Some h" "live E r' (as_source a) s" "registration s = unix_new (os_as_fd S h)"
      "source_at E r (src_key s) = None" "source_at E r' = (source_at E r)(src_key s \<mapsto> s)"
      "watched (poller r') = (watched (poller r))(os_as_fd S h \<mapsto> e)" "ev_key e = src_key s"
      "nb (poller r') (os_as_fd S h)" "own (poller r') = own (poller r)"
  | (refused) e r' p where "async_new S E h r = Inr (Inl e, r')" "reactor_ok E items r'"
      "source_at E r' = source_at E r" "poller r' = os_close S h p" "watched p = watched (poller r)"
      "own p = own (poller r)"
  using ok E P os_ok_unix_table [OF S(1)] own
proof (cases rule: unix_backend.new_cases [where own = own and h = h])
  case (opened a s e r')
  with S(2) unix_tableD(2) [of watched "poller r'" "poller r" "os_as_fd S h" e] show thesis by (intro that(1) [of a r' s e]) simp_all
next
  case (refused e r' p)
  from refused(1-4) unix_tableD(1) [OF refused(5)] refused(6) show thesis by (rule that(2) [of e r' p])
qed

text \<open>Opening a handle leaves the other handles open.\<close>

lemma async_new_keeps_live:
  assumes ok: "reactor_ok E items r" and x: "live E r x s" and new: "async_new S E h r = Inr (res, r')"
  shows "live E r' x s"
proof -
  obtain sres p where set: "set_nonblocking S (os_as_fd S h) (poller r) = (sres, p)" by force
  let ?r = "r\<lparr>poller := p\<rparr>"
  from ok x have ok1: "reactor_ok E items ?r" and x1: "live E ?r x s" by simp_all
  show ?thesis
  proof (cases sres)
    case (Inl e)
    with set new x show ?thesis by (auto simp: async_new_def drop_handle_def)
  next
    case (Inr u)
    with set new have "async_new_nonblocking S E h ?r = Inr (res, r')" by (simp add: async_new_def)
    then obtain ires r1 where ins: "insert_io E (os_registration S (os_as_fd S h)) ?r = Inr (ires, r1)"
      and r': "(case ires of Inl e \<Rightarrow> (Inl e, drop_handle S h r1)
        | Inr a \<Rightarrow> (Inr \<lparr>as_source = a, as_io = Some h\<rparr>, r1)) = (res, r')"
      unfolding async_new_nonblocking_def rbind_eq_Inr_iff by (force split: prod.splits)
    from insert_io_keeps_live [OF ok1 x1 ins] r' show ?thesis
      by (cases ires) (auto simp: drop_handle_def)
  qed
qed

text \<open>What giving the handle up does before the handle is dropped, or returned.\<close>

lemma deregister_cases:
  assumes ok: "reactor_ok E items r" and x: "live E r x s" and E: "reg_calls E = unix_registration P"
    and P: "fd_calls_ok P watched"
  obtains res r' where "remove_io E s r = Inr (res, r')" "reactor_ok E items r'"
    "source_at E r' = (source_at E r)(src_key s := None)"
    "watched (poller r') = (if res = Inr () then (watched (poller r))(raw (registration s) := None) else watched (poller r))"
proof -
  from ok have slab: "slab_ok (sslab E)" and src: "sources_ok E r" and T: "timers_ok E items r"
    by (auto simp: reactor_ok_def timers_ok_def)
  from src slab live_source_ne [OF x] show thesis
  proof (cases rule: remove_io_cases)
    case (1 res p ss r')
    have call: "po_delete P (raw (registration s)) (poller r) = (res, p)"
      using 1(1) E by (simp add: unix_registration_defs)
    have "watched p = (if res = Inr () then (watched (poller r))(raw (registration s) := None) else watched (poller r))"
      using fd_call_okD(3) [OF P, of "raw (registration s)" "poller r"] call by (cases res) auto
    moreover have "reactor_ok E items r'" using timers_ok_cong [OF T, of r'] 1(3, 4) by (simp add: reactor_ok_def)
    ultimately show thesis using 1 by (intro that [of res r']) simp_all
  qed
qed

section \<open>An open handle to evaluate on\<close>

text \<open>The descriptor 7, just opened, with some bytes to read.\<close>

definition sim_open :: "(8 word) list \<Rightarrow> sim_reactor" where
  "sim_open bytes = (let r = sim_reactor [] []; s = new_source sim (unix_new 7) r in
     r\<lparr>sources := [Some 0], heap := [0 \<mapsto> s], next_addr := 1,
       poller := (poller r)\<lparr>sp_watched := [7 \<mapsto> event_none 0], sp_nonblock := (\<lambda>_. False)(7 := True),
         sp_data := (\<lambda>_. [])(7 := bytes)\<rparr>\<rparr>)"

definition sim_handle :: sim_async where
  "sim_handle = \<lparr>as_source = 0, as_io = Some 7\<rparr>"

definition sim_source :: "(sim_sw, registration_unix) source" where
  "sim_source = new_source sim (unix_new 7) (sim_reactor [] [])"

lemmas sim_open_defs = sim_open_def sim_handle_def sim_source_def sim_reactor_def reactor_new_def sim_poller_new_def
  new_source_def Let_def

lemma sim_handle_io: "as_io sim_handle = Some 7"
  by (simp add: sim_handle_def)

lemma sim_open_new: "async_new sim_os sim 7 (sim_reactor [] []) = Inr (Inr sim_handle, sim_open [])"
  by (simp add: sim_open_defs async_new_def set_nonblocking_def sim_os_def async_new_nonblocking_def insert_io_def
      sim_insert_def sim_vacant_def unix_registration_defs sim_fd_calls_def sim_set_def unix_new_def)
    (simp add: fun_eq_iff)

lemma sim_open_live: "live sim (sim_open bytes) (as_source sim_handle) sim_source"
  by (simp add: live_def sim_open_defs sim_get_def sim_vacant_def)

lemma sim_open_ok: "reactor_ok sim id (sim_open bytes)"
proof -
  let ?r = "(sim_reactor [] [])\<lparr>sources := [Some 0], heap := [0 \<mapsto> sim_source], next_addr := Suc 0\<rparr>"
  have "live sim ?r 0 sim_source" by (simp add: live_def sim_open_defs sim_get_def sim_vacant_def)
  moreover have "slot_ok sim d sim_source" for d by (simp add: sim_source_def)
  ultimately have "sources_ok sim ?r"
    by (auto simp: sources_ok_def live_def sim_get_def sim_open_defs split: if_splits)
  moreover have "timers_ok sim id ?r"
    using timers_ok_cong [OF sim_reactor_timers_ok, of ?r] by simp
  ultimately have "reactor_ok sim id ?r" by (simp add: reactor_ok_def)
  moreover have "sim_open bytes = ?r\<lparr>poller := poller (sim_open bytes)\<rparr>" by (simp add: sim_open_def sim_source_def Let_def)
  ultimately show ?thesis by (metis reactor_ok_poller)
qed

text \<open>Reading: what is there, as far as the buffer goes.\<close>

definition sim_read :: "(raw_fd, (8 word) list, sim_poller, nat) io_op" where
  "sim_read fd buf p = (case sp_data p fd of
       [] \<Rightarrow> (Inl WouldBlock, fd, buf, p)
     | bytes \<Rightarrow> let n = min (length buf) (length bytes) in
         (Inr n, fd, take n bytes @ drop n buf, p\<lparr>sp_data := (sp_data p)(fd := drop n bytes)\<rparr>))"

lemma sim_read_empty: "sim_read 7 buf (poller (sim_open [])) = (Inl WouldBlock, 7, buf, poller (sim_open []))"
  by (simp add: sim_read_def sim_open_defs)

lemma sim_read_bytes: "\<exists>p. sim_read 7 [0, 0] (poller (sim_open [5])) = (Inr 1, 7, [5, 0], p)"
  by (simp add: sim_read_def sim_open_defs)

section \<open>Properties\<close>

text \<open>
  C29. Creating a handle never panics. Either it succeeds: the handle is in non-blocking mode, on
  every target, and has a new source of its own, watched under its key; or it fails: the sources
  are as they were, and the handle is closed at a moment when it is not registered.
\<close>

theorem async_new_opens_or_closes:
  assumes "reactor_ok E items r" "reg_calls E = unix_registration P" "fd_calls_ok P watched"
    and "os_ok S (unix_registration P) watched nb" "os_registration S = unix_new"
  shows "\<exists>res r'. async_new S E h r = Inr (res, r') \<and> reactor_ok E items r' \<and> (case res of
      Inr a \<Rightarrow> as_io a = Some h \<and> nb (poller r') (os_as_fd S h) \<and>
        (\<exists>s e. live E r' (as_source a) s \<and> source_at E r (src_key s) = None \<and>
          source_at E r' = (source_at E r)(src_key s \<mapsto> s) \<and>
          watched (poller r') = (watched (poller r))(os_as_fd S h \<mapsto> e) \<and> ev_key e = src_key s)
    | Inl e \<Rightarrow> source_at E r' = source_at E r \<and>
        (\<exists>p. poller r' = os_close S h p \<and> watched p = watched (poller r)))"
  by (rule async_new_cases [where own = "\<lambda>_. ()" and h = h, OF assms]) auto

theorem async_new_opens_or_closes_witness:
  "\<exists>res r'. async_new sim_os sim 7 (sim_reactor [] []) = Inr (res, r') \<and> (\<forall>a. res = Inr a \<longrightarrow> sp_nonblock (poller r') 7)"
  using async_new_opens_or_closes [OF sim_reactor_ok _ sim_fd_calls_ok sim_os_ok, where h = 7]
  by (fastforce simp: sim_os_def split: sum.splits)

text \<open>
  C30. Dropping a handle never panics and removes its source, and the handle is closed only after
  it has been deregistered: at the moment of the close the poller does not watch it, unless the
  poller has refused to let it go.
\<close>

theorem async_drop_deregisters_first:
  assumes "reactor_ok E items r" "live E r (as_source a) s" "as_io a = Some h"
    and "reg_calls E = unix_registration P" "fd_calls_ok P watched"
  shows "\<exists>res r' r1. async_drop S E a r = Inr r' \<and> reactor_ok E items r' \<and>
    source_at E r' = (source_at E r)(src_key s := None) \<and>
    remove_io E s r = Inr (res, r1) \<and> poller r' = os_close S h (poller r1) \<and>
    watched (poller r1) = (if res = Inr () then (watched (poller r))(raw (registration s) := None)
      else watched (poller r))"
  using assms(1,2,4,5)
proof (cases rule: deregister_cases)
  case (1 res r1)
  have "async_drop S E a r = Inr (r1\<lparr>poller := os_close S h (poller r1)\<rparr>)"
    using assms(2,3) 1(1) by (simp add: async_drop_def drop_handle_def)
  with 1 show ?thesis by simp
qed

theorem async_drop_deregisters_first_witness:
  "\<exists>r'. async_drop sim_os sim sim_handle (sim_open []) = Inr r' \<and> source_at sim r' 0 = None"
  using async_drop_deregisters_first [OF sim_open_ok sim_open_live sim_handle_io _ sim_fd_calls_ok, where S = sim_os]
  by (fastforce simp: sim_source_def sim_reactor_def reactor_new_def sim_vacant_def)





text \<open>
  C32. The poll functions of \<open>AsyncRead\<close> and \<open>AsyncWrite\<close> return, after at most two attempts of
  the operation, and never panic. What the last attempt gave decides: any result but
  \<open>WouldBlock\<close> is returned as it is; after \<open>WouldBlock\<close> the poll is pending, with a waker of the
  task registered for the direction, or it returns the poller's error.
\<close>

theorem poll_functions_return:
  assumes "reactor_ok E items r" "live E r (as_source a) s" "as_io a = Some h"
  shows "\<exists>out a' b' r' res h' p. io_poll E d op cx a b r = Some (Inr (out, a', b', r')) \<and>
    (op h b (poller r) = (res, h', b', p) \<or>
     (\<exists>h1 b1 p1. op h b (poller r) = (Inl WouldBlock, h1, b1, p1) \<and> op h1 b1 p1 = (res, h', b', p))) \<and>
    a' = a\<lparr>as_io := Some h'\<rparr> \<and> reactor_ok E items r' \<and> (\<exists>s'. live E r' (as_source a) s' \<and>
      (if res = Inl WouldBlock
       then out = Poll_Pending \<and> task_waits E d cx s' \<or> (\<exists>e. out = Poll_Ready (Inl e))
       else out = Poll_Ready res))"
  using io_poll_returns [OF assms, of d op cx b] unfolding poll_outcome_def by fast

theorem poll_functions_return_witness:
  "\<exists>out a' b' r'. io_poll sim READ sim_read 3 sim_handle [0, 0] (sim_open []) = Some (Inr (out, a', b', r')) \<and>
    (out = Poll_Pending \<or> (\<exists>e. out = Poll_Ready (Inl e)))"
  using poll_functions_return [OF sim_open_ok sim_open_live sim_handle_io, where op = sim_read and b = "[0, 0]" and d = READ and cx = 3]
  by (fastforce simp: sim_read_empty split: if_splits)


text \<open>
  A poll of a \<open>read_with\<close> or \<open>write_with\<close> future tries the operation exactly once, on the
  handle and data as they are, returns, and does not panic. A result other than \<open>WouldBlock\<close>
  completes the future; after \<open>WouldBlock\<close> the task waits on the direction with a waker
  registered, and the next poll will try again without asking for readiness, or the poller's error
  completes the future. On completion the waker slots are those of before, less its own.
\<close>

theorem with_futures_try_once:
  assumes "reactor_ok E items r" "live E r (as_source a) s" "as_io a = Some h"
    and "with_ok E d st s" "op h b (poller r) = (res, h', b', p)"
  shows "\<exists>out st' a' r' s'. io_with_poll E d op cx st a b r = Some (Inr (out, st', a', b', r')) \<and>
    a' = a\<lparr>as_io := Some h'\<rparr> \<and> reactor_ok E items r' \<and> live E r' (as_source a) s' \<and>
    (if res = Inl WouldBlock
     then out = Poll_Pending \<and> with_ok E d st' s' \<and> task_waits E d cx s' \<or>
       (\<exists>e. out = Poll_Ready (Inl e)) \<and> st' = With_Done \<and> frees E d (with_index st) s s'
     else out = Poll_Ready res \<and> st' = With_Done \<and> frees E d (with_index st) s s')"
  using io_with_returns [where op = op and b = b, OF assms, of cx] unfolding with_outcome_def by fast

theorem with_futures_try_once_witness:
  "\<exists>a' r'. io_with_poll sim READ sim_read 3 With_Try sim_handle [0, 0] (sim_open [5]) =
     Some (Inr (Poll_Ready (Inr 1), With_Done, a', [5, 0], r'))"
proof -
  obtain p where "sim_read 7 [0, 0] (poller (sim_open [5])) = (Inr 1, 7, [5, 0], p)" using sim_read_bytes by blast
  with with_futures_try_once [OF sim_open_ok sim_open_live sim_handle_io, where op = sim_read and d = READ and st = With_Try]
  show ?thesis by (fastforce split: if_splits)
qed


text \<open>
  Cancelling: dropping a \<open>read_with\<close> or \<open>write_with\<close> future between two polls succeeds and
  frees exactly the waker slot that it holds.
\<close>

theorem with_future_drop_frees:
  assumes "reactor_ok E items r" "live E r (as_source a) s" "with_ok E d st s"
  shows "\<exists>r' s'. io_with_drop E st a r = Inr r' \<and> reactor_ok E items r' \<and> live E r' (as_source a) s' \<and>
    frees E d (with_index st) s s'"
proof (cases st)
  case (With_Wait polled f)
  with assms(3) have "rf_dir f = d" by (simp add: future_ok_def)
  from assms(1,2) this obtain s' r' where "drop_future E f (as_source a) r = Inr r'" "reactor_ok E items r'"
    "live E r' (as_source a) s'" "frees E d (rf_index f) s s'" "poller r' = poller r" by (rule drop_future_frees)
  with With_Wait show ?thesis by (auto simp: io_with_drop_def)
qed (use assms frees_refl in \<open>auto simp: io_with_drop_def\<close>)

theorem with_future_drop_frees_witness:
  "\<exists>r'. io_with_drop sim (With_Wait True (source_ready READ)) sim_handle (sim_open []) = Inr r' \<and> reactor_ok sim id r'"
  using with_future_drop_frees [OF sim_open_ok sim_open_live, where d = READ and st = "With_Wait True (source_ready READ)"]
  by (auto simp: future_ok_new)


end
