(* ===== verification/System.thy ===== *)
theory System
  imports Reactor_Properties Async_Properties
begin

text \<open>
  The parts together, under concurrency. A round of the reactor and the operations of a task on its
  handle are runs of the system of \<open>Rounds\<close>: what holds in every reachable state of that system
  holds when they are done, and between any two of their steps other threads may run.
\<close>

section \<open>Runs\<close>

lemma steps_one: "sys_step E io st st' \<Longrightarrow> sys_steps E io st st'"
  by (rule steps_step [OF steps_refl])

lemma steps_trans: "sys_steps E io st2 st3 \<Longrightarrow> sys_steps E io st1 st2 \<Longrightarrow> sys_steps E io st1 st3"
  by (induction rule: sys_steps.induct) (auto intro: steps_step)

lemma steps_then: "sys_step E io st1 st2 \<Longrightarrow> sys_steps E io st2 st3 \<Longrightarrow> sys_steps E io st1 st3"
  by (rule steps_trans [OF _ steps_one])

section \<open>A round\<close>

text \<open>The loop over the events, one event a step.\<close>

lemma deliver_run:
  assumes "deliver_events E tk evs ws (sys_reactor st) = (res, ws', r')" "sys_phase st = Delivering tk evs ws"
  shows "\<exists>st'. sys_steps E io st st' \<and> sys_reactor st' = r' \<and> sys_futures st' = sys_futures st \<and>
    sys_round st' = sys_round st \<and> sys_phase st' = (case res of Inl _ \<Rightarrow> Idle | Inr _ \<Rightarrow> Delivering tk [] ws')"
  using assms
proof (induction evs arbitrary: st ws)
  case Nil
  then show ?case by (intro exI [of _ st]) (auto intro: steps_refl)
next
  case (Cons ev evs)
  obtain res1 ws1 r1 where one: "deliver_events E tk [ev] ws (sys_reactor st) = (res1, ws1, r1)"
    using prod_cases3 by blast
  show ?case
  proof (cases res1)
    case (Inl e)
    with Cons.prems(1) one have out: "res = Inl e" "r' = r1" by (simp_all only: deliver_events_Cons [of E tk ev evs]) simp_all
    from step_event_failed [OF Cons.prems(2) one [unfolded Inl], of io] out show ?thesis
      by (intro exI) (rule conjI, erule steps_one, simp)
  next
    case (Inr u)
    let ?st = "st\<lparr>sys_reactor := r1, sys_phase := Delivering tk evs ws1,
      sys_last := log_event E (sys_reactor st) ev (sys_round st) (sys_last st),
      sys_lost := sys_lost st - {ev_key ev}\<rparr>"
    have step: "sys_step E io st ?st" using one Inr by (intro step_event [OF Cons.prems(2)]) simp
    have "deliver_events E tk evs ws1 (sys_reactor ?st) = (res, ws', r')"
      using Cons.prems(1) one Inr by (simp only: deliver_events_Cons [of E tk ev evs]) simp
    from Cons.IH [OF this] obtain st' where "sys_steps E io ?st st'" "sys_reactor st' = r'"
      "sys_futures st' = sys_futures st" "sys_round st' = sys_round st"
      "sys_phase st' = (case res of Inl _ \<Rightarrow> Idle | Inr _ \<Rightarrow> Delivering tk [] ws')" by auto
    with steps_then [OF step] show ?thesis by blast
  qed
qed

text \<open>What follows the wait.\<close>

lemma finish_run:
  assumes "sys_phase st = Waiting t tk ws" "now < instant_max" "react_wait E t (sys_reactor st) = (res, r1)"
    and fin: "react_finish E now t tk ws res r1 = Inr (out, r')"
  shows "\<exists>st'. sys_steps E io st st' \<and> sys_reactor st' = r' \<and> sys_phase st' = Idle \<and>
    sys_futures st' = sys_futures st \<and> sys_round st' = sys_round st"
proof (cases "\<exists>n. res = Inr (Suc n)")
  case False
  then have "sys_step E io st (st\<lparr>sys_reactor := r', sys_phase := Idle\<rparr>)"
    using assms by (intro step_quiet [OF assms(1-3)]) auto
  then show ?thesis by (intro exI) (rule conjI, erule steps_one, simp)
next
  case True
  then obtain n where res: "res = Inr (Suc n)" by blast
  let ?st = "st\<lparr>sys_reactor := r1, sys_phase := Delivering tk (events r1) ws\<rparr>"
  have step: "sys_step E io st ?st" using assms(3) res by (intro step_wait [OF assms(1)]) simp
  obtain dres ws' r2 where del: "deliver_events E tk (events r1) ws r1 = (dres, ws', r2)" using prod_cases3 by blast
  from deliver_run [of E tk "events r1" ws ?st dres ws' r2 io] del obtain st2 where
    st2: "sys_steps E io ?st st2" "sys_reactor st2 = r2" "sys_futures st2 = sys_futures st"
      "sys_round st2 = sys_round st" "sys_phase st2 = (case dres of Inl _ \<Rightarrow> Idle | Inr _ \<Rightarrow> Delivering tk [] ws')"
    by auto
  note run = steps_then [OF step st2(1)]
  show ?thesis
  proof (cases dres)
    case (Inl e)
    with fin res del have "r' = r2" by (simp add: react_finish_def)
    with run st2 Inl show ?thesis by auto
  next
    case (Inr u)
    with fin res del have r': "r' = wake_all ws' r2" by (simp add: react_finish_def)
    have "sys_step E io st2 (st2\<lparr>sys_reactor := wake_all ws' (sys_reactor st2), sys_phase := Idle\<rparr>)"
      using st2(5) Inr by (intro step_done) simp
    from steps_step [OF run this] st2(2-4) r' show ?thesis by (intro exI) (erule conjI, simp)
  qed
qed

text \<open>
  C11. \<open>react\<close> and the system agree: a call of \<open>react\<close> by itself is a run of the system's
  steps, from idle to idle, that ends in the state \<open>react\<close> returns, whatever its result. So the
  invariants of reachable states hold around whole rounds as well as within them.
\<close>

theorem react_is_a_run:
  assumes "sys_phase st = Idle" "now < instant_max" "now' < instant_max"
    and react: "react E now now' timeout (sys_reactor st) = Inr (out, r')"
  shows "\<exists>st'. sys_steps E io st st' \<and> sys_reactor st' = r' \<and> sys_phase st' = Idle \<and>
    sys_futures st' = sys_futures st \<and> sys_round st' = Suc (sys_round st)"
proof -
  from react obtain y where y: "react_prepare E now timeout (sys_reactor st) = Inr y"
    unfolding react_def rbind_eq_Inr_iff by blast
  obtain t tk ws r1 where "y = (t, tk, ws, r1)" using prod_cases4 by blast
  with y have prep: "react_prepare E now timeout (sys_reactor st) = Inr (t, tk, ws, r1)" by simp
  obtain res r2 where wait: "react_wait E t r1 = (res, r2)" by force
  have fin: "react_finish E now' t tk ws res r2 = Inr (out, r')" using react react_eq [OF prep wait] by metis
  let ?st = "st\<lparr>sys_reactor := r1, sys_phase := Waiting t tk ws, sys_round := Suc (sys_round st)\<rparr>"
  have step: "sys_step E io st ?st" by (rule step_prepare [OF assms(1,2) prep])
  from finish_run [of ?st t tk ws now' E res r2 out r' io] assms(3) wait fin obtain st' where
    "sys_steps E io ?st st'" "sys_reactor st' = r'" "sys_phase st' = Idle" "sys_futures st' = sys_futures st"
    "sys_round st' = Suc (sys_round st)" by auto
  with steps_then [OF step] show ?thesis by blast
qed

theorem react_is_a_run_witness:
  "\<exists>st'. sys_steps sim sim_io ((sys_init sim (sim_poller_new [] []))\<lparr>sys_reactor := run_two None\<rparr>) st' \<and>
    sys_phase st' = Idle \<and> sys_round st' = 1"
proof -
  let ?st = "(sys_init sim (sim_poller_new [] []))\<lparr>sys_reactor := run_two None\<rparr>"
  obtain r3 where "deliver_events sim 1 [ev_read] [9] (run_two_waited None) = (Inr (), [9, 7], r3)"
    using run_two_agreed by blast
  then have react: "react sim 10 20 None (sys_reactor ?st) = Inr (Inr (), wake_all [9, 7] r3)"
    using react_eq [OF run_two_prepare run_two_wait, of 20 None] run_two_waited_simps(3) [of None]
    by (simp add: react_finish_def del: deliver_events.simps)
  have "sys_phase ?st = Idle" by (simp add: sys_init_def)
  from react_is_a_run [OF this _ _ react] early_instant show ?thesis by (simp add: sys_init_def) blast
qed

section \<open>The operations of a task\<close>

text \<open>An attempt and a poll of a direction, as steps of the system.\<close>

definition io_respects :: "('p \<Rightarrow> 'p \<Rightarrow> bool) \<Rightarrow> ('h, 'b, 'p, 'x) io_op \<Rightarrow> bool" where
  "io_respects io op \<longleftrightarrow> (\<forall>h b p. io p (snd (snd (snd (op h b p)))))"

lemma try_run:
  assumes "sys_ok E items st" "live E (sys_reactor st) x s" "io_try op a b (sys_reactor st) = Inr (res, a', b', r')"
    and op: "io_respects io op"
  shows "sys_step E io st (st\<lparr>sys_reactor := r'\<rparr>)" "sys_ok E items (st\<lparr>sys_reactor := r'\<rparr>)" "live E r' x s"
    "as_source a' = as_source a"
proof -
  from assms(3) obtain h where h: "as_io a = Some h" by (cases "as_io a") (auto simp: io_try_def)
  obtain res1 h' b1 p where out: "op h b (poller (sys_reactor st)) = (res1, h', b1, p)" using prod_cases4 by blast
  with assms(3) h have eqs: "r' = (sys_reactor st)\<lparr>poller := p\<rparr>" "a' = a\<lparr>as_io := Some h'\<rparr>"
    by (simp_all add: io_try_def)
  have "io (poller (sys_reactor st)) (snd (snd (snd (op h b (poller (sys_reactor st))))))"
    using op unfolding io_respects_def by blast
  then have "io (poller (sys_reactor st)) p" using out by simp
  then show step: "sys_step E io st (st\<lparr>sys_reactor := r'\<rparr>)" unfolding eqs by (rule step_io)
  from sys_ok_step [OF assms(1) step] show "sys_ok E items (st\<lparr>sys_reactor := r'\<rparr>)" .
  show "live E r' x s" "as_source a' = as_source a" using assms(2) eqs by simp_all
qed

text \<open>The source stays the same object; a step that is quiet loses no source and leaves the round alone.\<close>

definition same_object :: "('sw, 'reg) source \<Rightarrow> ('sw, 'reg) source \<Rightarrow> bool" where
  "same_object s s' \<longleftrightarrow> src_key s' = src_key s \<and> registration s' = registration s"

definition quiet_for :: "('p, 'sw, 'ss, 'q, 'reg) sys \<Rightarrow> ('p, 'sw, 'ss, 'q, 'reg) sys \<Rightarrow> bool \<Rightarrow> bool" where
  "quiet_for st st' lossy \<longleftrightarrow> sys_phase st' = sys_phase st \<and> (sys_lost st' \<subseteq> sys_lost st \<or> lossy)"

lemma poll_source_run:
  assumes ok: "sys_ok E items st" and x: "live E (sys_reactor st) x s"
    and poll: "poll_source E d cx x (sys_reactor st) = Inr (res, r')"
  obtains st' s' where "sys_step E io st st'" "sys_ok E items st'" "sys_reactor st' = r'"
    "sys_futures st' = sys_futures st" "live E r' x s'" "same_object s s'" "quiet_for st st' (\<exists>e. res = Poll_Ready (Inl e))"
    "res = Poll_Pending \<Longrightarrow> task_waits E d cx s'"
    "res = Poll_Ready (Inr ()) \<Longrightarrow> ticks (src_state s d) \<noteq> None \<and> ticks (src_state s' d) = None"
proof -
  let ?st = "st\<lparr>sys_reactor := r', sys_lost := lose E d s res (sys_lost st)\<rparr>"
  have step: "sys_step E io st ?st" by (rule step_poll [OF x poll])
  from ok have R: "reactor_ok E items (sys_reactor st)" by (simp add: sys_ok_def)
  obtain s' p ws where S: "poll_ready E d cx s (sys_reactor st) = (res, s', (sys_reactor st)\<lparr>poller := p, woken := ws\<rparr>)"
    "r' = put_source x s' ((sys_reactor st)\<lparr>poller := p, woken := ws\<rparr>)" "src_key s' = src_key s"
    using poll_source_store [OF R x poll] by metis
  have x': "live E r' x s'" unfolding S(2) live_put_source [OF x S(3)] by simp
  have "(res = Poll_Pending \<longrightarrow> task_waits E d cx s') \<and> (res = Poll_Ready (Inr ()) \<longrightarrow>
      ticks (src_state s d) \<noteq> None \<and> ticks (src_state s' d) = None)"
    using R x
  proof (cases rule: poll_source_outcomes [where d = d and cx = cx])
    case (pending r1 s1)
    with poll live_unique [OF x'] show ?thesis by auto
  next
    case (failed e r1 s1)
    with poll show ?thesis by auto
  next
    case (ready r1 s1)
    with poll live_unique [OF x'] show ?thesis by auto
  qed
  with step sys_ok_step [OF ok step] x' poll_ready_frame(2,3) [OF S(1)] show thesis
    by (intro that [of ?st s']) (auto simp: same_object_def quiet_for_def dest!: lose_subset [THEN subsetD, rotated])
qed

subsection \<open>The poll functions\<close>

text \<open>What a run of an operation on the source \<open>x\<close> keeps, and what it leaves when it is pending.\<close>

definition op_run where
  "op_run E items io d cx x s st st' pend \<longleftrightarrow> sys_steps E io st st' \<and> sys_ok E items st' \<and> quiet_for st st' (\<not> pend) \<and>
     (\<exists>s'. live E (sys_reactor st') x s' \<and> same_object s s' \<and> (pend \<longrightarrow> task_waits E d cx s'))"

lemma op_run_after:
  assumes "sys_steps E io st st1" "quiet_for st st1 False" "same_object s s1" "op_run E items io d cx x s1 st1 st' pend"
  shows "op_run E items io d cx x s st st' pend"
  using assms steps_trans [of E io st1 st' st] by (fastforce simp: op_run_def quiet_for_def same_object_def)

lemma op_run_step:
  "sys_step E io st st1 \<Longrightarrow> quiet_for st st1 False \<Longrightarrow> op_run E items io d cx x s st1 st' pend \<Longrightarrow>
     op_run E items io d cx x s st st' pend"
  by (rule op_run_after [OF steps_one]) (simp_all add: same_object_def)

lemma op_run_one:
  assumes "sys_step E io st st'" "sys_ok E items st'" "quiet_for st st' (\<not> pend)"
    and "live E (sys_reactor st') x s'" "same_object s s'" "pend \<Longrightarrow> task_waits E d cx s'"
  shows "op_run E items io d cx x s st st' pend"
  unfolding op_run_def using assms steps_one [OF assms(1)] by blast

lemma io_poll_cases:
  assumes "io_poll E d op cx a b r = Some (Inr (out, a', b', r'))"
  obtains (settled) res where "io_try op a b r = Inr (res, a', b', r')" "out = Poll_Ready res"
  | (waited) r1 ready where "io_try op a b r = Inr (Inl WouldBlock, a', b', r1)"
      "poll_source E d cx (as_source a') r1 = Inr (ready, r')"
      "out = Poll_Pending \<Longrightarrow> ready = Poll_Pending"
  | (again) a1 b1 r1 r2 where "io_try op a b r = Inr (Inl WouldBlock, a1, b1, r1)"
      "poll_source E d cx (as_source a1) r1 = Inr (Poll_Ready (Inr ()), r2)"
      "io_poll E d op cx a1 b1 r2 = Some (Inr (out, a', b', r'))"
  using assms by (subst (asm) io_poll.simps) (auto split: sum.splits prod.splits if_splits poll.splits)

text \<open>An attempt that settles the poll, and one that is followed by a wait.\<close>

lemma settled_run:
  assumes "sys_ok E items st" "live E (sys_reactor st) (as_source a) s" "io_respects io op"
    and "io_try op a b (sys_reactor st) = Inr (res, a', b', r')"
  shows "\<exists>st'. op_run E items io d cx (as_source a) s st st' False \<and> sys_reactor st' = r' \<and>
    sys_futures st' = sys_futures st \<and> as_source a' = as_source a"
proof -
  note T = try_run [OF assms(1,2,4,3)]
  have "op_run E items io d cx (as_source a) s st (st\<lparr>sys_reactor := r'\<rparr>) False"
    using T by (intro op_run_one [where s' = s]) (simp_all add: quiet_for_def same_object_def)
  with T(4) show ?thesis by (intro exI [of _ "st\<lparr>sys_reactor := r'\<rparr>"]) simp
qed

lemma waited_run:
  assumes "sys_ok E items st" "live E (sys_reactor st) (as_source a) s" "io_respects io op"
    and att: "io_try op a b (sys_reactor st) = Inr (Inl WouldBlock, a', b', r1)"
    and poll: "poll_source E d cx (as_source a') r1 = Inr (ready, r')"
  obtains st' s' where "sys_steps E io st st'" "sys_ok E items st'" "sys_reactor st' = r'" "sys_futures st' = sys_futures st"
    "as_source a' = as_source a" "live E r' (as_source a) s'" "same_object s s'"
    "quiet_for st st' (\<exists>e. ready = Poll_Ready (Inl e))" "ready = Poll_Pending \<Longrightarrow> task_waits E d cx s'"
    "ready = Poll_Ready (Inr ()) \<Longrightarrow> ticks (src_state s d) \<noteq> None \<and> ticks (src_state s' d) = None"
proof -
  note T = try_run [OF assms(1,2) att assms(3)]
  let ?st = "st\<lparr>sys_reactor := r1\<rparr>"
  have x1: "live E (sys_reactor ?st) (as_source a') s"
    and poll1: "poll_source E d cx (as_source a') (sys_reactor ?st) = Inr (ready, r')"
    using T(3,4) poll by simp_all
  obtain st' s' where P: "sys_step E io ?st st'" "sys_ok E items st'" "sys_reactor st' = r'"
    "sys_futures st' = sys_futures ?st" "live E r' (as_source a') s'" "same_object s s'"
    "quiet_for ?st st' (\<exists>e. ready = Poll_Ready (Inl e))" "ready = Poll_Pending \<Longrightarrow> task_waits E d cx s'"
    "ready = Poll_Ready (Inr ()) \<Longrightarrow> ticks (src_state s d) \<noteq> None \<and> ticks (src_state s' d) = None"
    by (rule poll_source_run [OF T(2) x1 poll1]) blast
  with T(4) steps_then [OF T(1) steps_one [OF P(1)]] show thesis
    by (intro that [of st' s']) (simp_all add: quiet_for_def)
qed

lemma pending_run:
  assumes "sys_ok E items st" "live E (sys_reactor st) (as_source a) s" "io_respects io op"
    and "io_try op a b (sys_reactor st) = Inr (Inl WouldBlock, a', b', r1)"
    and "poll_source E d cx (as_source a') r1 = Inr (ready, r')" "pend \<Longrightarrow> ready = Poll_Pending"
  shows "\<exists>st'. op_run E items io d cx (as_source a) s st st' pend \<and> sys_reactor st' = r' \<and>
    sys_futures st' = sys_futures st \<and> as_source a' = as_source a"
  by (rule waited_run [OF assms(1-5)]) (use assms(6) in \<open>auto simp: op_run_def quiet_for_def\<close>)

lemma io_poll_settled_run:
  assumes "sys_ok E items st" "live E (sys_reactor st) (as_source a) s" "io_respects io op"
    and t: "ticks (src_state s d) = None"
    and poll: "io_poll E d op cx a b (sys_reactor st) = Some (Inr (out, a', b', r'))"
  shows "\<exists>st'. op_run E items io d cx (as_source a) s st st' (out = Poll_Pending) \<and> sys_reactor st' = r' \<and>
    sys_futures st' = sys_futures st \<and> as_source a' = as_source a"
  using poll
proof (cases rule: io_poll_cases)
  case (settled res)
  then show ?thesis using settled_run [OF assms(1-3) settled(1)] by simp
next
  case (waited r1 ready)
  then show ?thesis using pending_run [OF assms(1-3) waited] by blast
next
  case (again a1 b1 r1 r2)
  show ?thesis by (rule waited_run [OF assms(1-3) again(1,2)]) (use t in simp)
qed

lemma io_poll_run:
  assumes "sys_ok E items st" "live E (sys_reactor st) (as_source a) s" and op: "io_respects io op"
    and poll: "io_poll E d op cx a b (sys_reactor st) = Some (Inr (out, a', b', r'))"
  shows "\<exists>st'. op_run E items io d cx (as_source a) s st st' (out = Poll_Pending) \<and> sys_reactor st' = r' \<and>
    sys_futures st' = sys_futures st \<and> as_source a' = as_source a"
  using poll
proof (cases rule: io_poll_cases)
  case (settled res)
  then show ?thesis using settled_run [OF assms(1-3) settled(1)] by simp
next
  case (waited r1 ready)
  then show ?thesis using pending_run [OF assms(1-3) waited] by blast
next
  case (again a1 b1 r1 r2)
  obtain st1 s1 where W: "sys_steps E io st st1" "sys_ok E items st1" "sys_reactor st1 = r2" "sys_futures st1 = sys_futures st"
    "as_source a1 = as_source a" "live E r2 (as_source a) s1" "same_object s s1" "quiet_for st st1 False"
    "ticks (src_state s1 d) = None"
    by (rule waited_run [OF assms(1-3) again(1,2)]) auto
  have "live E (sys_reactor st1) (as_source a1) s1" "io_poll E d op cx a1 b1 (sys_reactor st1) = Some (Inr (out, a', b', r'))"
    using W again(3) by simp_all
  from io_poll_settled_run [OF W(2) this(1) op W(9) this(2)] obtain st' where
    S: "op_run E items io d cx (as_source a) s1 st1 st' (out = Poll_Pending)" "sys_reactor st' = r'"
      "sys_futures st' = sys_futures st" "as_source a' = as_source a" unfolding W(4,5) by blast
  from op_run_after [OF W(1,8,7) S(1)] S(2-4) show ?thesis by blast
qed

subsection \<open>The futures of \<open>read_with\<close> and \<open>write_with\<close>\<close>

text \<open>The readiness future that a suspended operation awaits is the task's future \<open>i\<close>.\<close>

fun with_owned :: "nat \<Rightarrow> addr \<Rightarrow> dir \<Rightarrow> io_with \<Rightarrow> (nat \<Rightarrow> (addr \<times> ready_future) option) \<Rightarrow> bool" where
  "with_owned i x d (With_Wait polled f) F = (polled \<and> rf_dir f = d \<and> F i = Some (x, f))"
| "with_owned i x d _ F = (F i = None)"

definition with_run where
  "with_run E items io d cx x s i st st' out w r \<longleftrightarrow> op_run E items io d cx x s st st' (out = Poll_Pending) \<and> sys_reactor st' = r \<and>
     with_owned i x d w (sys_futures st') \<and> (\<forall>j. j \<noteq> i \<longrightarrow> sys_futures st' j = sys_futures st j)"

lemma first_poll_run:
  assumes ok: "sys_ok E items st" and x: "live E (sys_reactor st) x s" and i: "sys_futures st i = None"
    and poll: "poll_future E (source_ready d) cx x (sys_reactor st) = Inr (res, f', r')"
    and waits: "res = Poll_Pending \<Longrightarrow> \<exists>s'. live E r' x s' \<and> task_waits E d cx s'"
  obtains st' where "op_run E items io d cx x s st st' (res = Poll_Pending)" "sys_reactor st' = r'"
    "sys_futures st' = (sys_futures st)(i \<mapsto> (x, f'))" "rf_dir f' = d"
proof -
  let ?f = "source_ready d"
  let ?st = "st\<lparr>sys_futures := (sys_futures st)(i \<mapsto> (x, ?f))\<rparr>"
  have new: "sys_step E io st ?st" by (rule step_future_new [OF x i])
  let ?st' = "?st\<lparr>sys_reactor := r', sys_futures := (sys_futures ?st)(i \<mapsto> (x, f')),
    sys_lost := lose E (rf_dir ?f) s res (sys_lost ?st)\<rparr>"
  have polled: "sys_step E io ?st ?st'" using x poll by (intro step_future_poll [where f = ?f]) simp_all
  from ok have R: "reactor_ok E items (sys_reactor st)" by (simp add: sys_ok_def)
  have f: "future_ok E ?f d s" using reactor_ok_parts(3) [OF R] by simp
  obtain s' p where S: "ready_poll E ?f cx s (sys_reactor st) = Inr (res, f', s', (sys_reactor st)\<lparr>poller := p\<rparr>)"
    "r' = put_source x s' ((sys_reactor st)\<lparr>poller := p, woken := woken (sys_reactor st)\<rparr>)" "src_key s' = src_key s"
    using poll_future_store [OF R x f poll] by metis
  have x': "live E r' x s'" unfolding S(2) live_put_source [OF x S(3)] by simp
  note frame = ready_poll_frame(2,3,4) [OF f S(1)]
  have "task_waits E d cx s'" if "res = Poll_Pending" using waits [OF that] live_unique [OF x'] by blast
  then have "op_run E items io d cx x s ?st ?st' (res = Poll_Pending)"
    using sys_ok_step [OF sys_ok_step [OF ok new] polled] x' frame
    by (intro op_run_one [OF polled, where s' = s']) (auto simp: quiet_for_def same_object_def dest!: lose_subset [THEN subsetD, rotated])
  from op_run_step [OF new _ this] frame show thesis by (intro that [of ?st']) (simp_all add: quiet_for_def)
qed

lemma drop_run:
  assumes ok: "sys_ok E items st" and i: "sys_futures st i = Some (x, f)" and x: "live E (sys_reactor st) x s"
    and drop: "drop_future E f x (sys_reactor st) = Inr r'"
  obtains st' s' where "sys_step E io st st'" "sys_ok E items st'" "sys_reactor st' = r'"
    "sys_futures st' = (sys_futures st)(i := None)" "live E r' x s'" "same_object s s'" "quiet_for st st' False"
proof -
  let ?st = "st\<lparr>sys_reactor := r', sys_futures := (sys_futures st)(i := None)\<rparr>"
  have step: "sys_step E io st ?st" by (rule step_future_drop [OF i drop])
  from ok have R: "reactor_ok E items (sys_reactor st)" by (simp add: sys_ok_def)
  from R x drop obtain s' where S: "ready_drop E f s = Inr s'"
    "r' = put_source x s' ((sys_reactor st)\<lparr>poller := poller (sys_reactor st), woken := woken (sys_reactor st)\<rparr>)"
    "src_key s' = src_key s" by (rule drop_future_store) blast
  have "live E r' x s'" unfolding S(2) live_put_source [OF x S(3)] by simp
  moreover have "registration s' = registration s"
    using reactor_ok_parts(3) [OF R] S(1) by (cases rule: ready_drop_spec [where f = f and s = s]) auto
  ultimately show thesis using step sys_ok_step [OF ok step] S(3)
    by (intro that [of ?st s']) (simp_all add: same_object_def quiet_for_def)
qed

lemma with_try_run:
  assumes ok: "sys_ok E items st" and x: "live E (sys_reactor st) (as_source a) s" and op: "io_respects io op"
    and i: "sys_futures st i = None"
    and poll: "io_with_poll E d op cx With_Try a b (sys_reactor st) = Some (Inr (out, w', a', b', r'))"
  shows "\<exists>st'. with_run E items io d cx (as_source a) s i st st' out w' r' \<and> as_source a' = as_source a"
proof -
  from poll obtain h where h: "as_io a = Some h"
    by (subst (asm) io_with_poll.simps) (cases "as_io a"; simp add: io_try_def)
  obtain res h' b1 p where o: "op h b (poller (sys_reactor st)) = (res, h', b1, p)" using prod_cases4 by blast
  let ?r1 = "(sys_reactor st)\<lparr>poller := p\<rparr>" and ?a = "a\<lparr>as_io := Some h'\<rparr>" and ?x = "as_source a"
  have att: "io_try op a b (sys_reactor st) = Inr (res, ?a, b1, ?r1)" using o h by (simp add: io_try_def)
  note tried = io_with_try [where op = op and E = E and d = d and cx = cx, OF h o]
  show ?thesis
  proof (cases "res = Inl WouldBlock")
    case False
    with poll tried have eqs: "out = Poll_Ready res" "w' = With_Done" "a' = ?a" "r' = ?r1" by simp_all
    from settled_run [OF ok x op att, of d cx] i eqs show ?thesis by (auto simp: with_run_def)
  next
    case True
    note T = try_run [OF ok x att op]
    let ?st = "st\<lparr>sys_reactor := ?r1\<rparr>"
    have R: "reactor_ok E items (sys_reactor ?st)" and x1: "live E (sys_reactor ?st) ?x s" and i1: "sys_futures ?st i = None"
      using T(2,3) i by (simp_all add: sys_ok_def)
    note waits = io_with_first_wait [where op = op and E = E and d = d and cx = cx and a = ?a and b = b1 and r = ?r1 and f = "source_ready d"]
    from R x1 show ?thesis
    proof (cases rule: first_poll_outcomes [where d = d and cx = cx])
      case (pending f' r2 s2)
      with poll tried waits [of Poll_Pending f' r2] True
      have eqs: "out = Poll_Pending" "w' = With_Wait True f'" "a' = ?a" "r' = r2" by simp_all
      obtain st' where "op_run E items io d cx ?x s ?st st' True" "sys_reactor st' = r2"
        "sys_futures st' = (sys_futures ?st)(i \<mapsto> (?x, f'))" "rf_dir f' = d"
        by (rule first_poll_run [OF T(2) x1 i1 pending(1)]) (use pending(3,5) in auto)
      moreover from op_run_step [OF T(1) _ this(1)] have "op_run E items io d cx ?x s st st' True"
        by (simp add: quiet_for_def)
      ultimately show ?thesis using eqs by (auto simp: with_run_def)
    next
      case (failed e f' r2 s2)
      obtain st1 where F: "op_run E items io d cx ?x s ?st st1 False" "sys_reactor st1 = r2"
        "sys_futures st1 = (sys_futures ?st)(i \<mapsto> (?x, f'))"
        by (rule first_poll_run [OF T(2) x1 i1 failed(1)]) auto
      from F(1) obtain s1 where st1: "sys_ok E items st1" "live E (sys_reactor st1) ?x s1" "same_object s s1"
        and quiet1: "sys_steps E io ?st st1" "sys_phase st1 = sys_phase ?st" by (auto simp: op_run_def quiet_for_def)
      from failed(2-4) obtain r3 where D: "drop_future E f' ?x r2 = Inr r3" by (rule drop_future_frees)
      with poll tried waits [of "Poll_Ready (Inl e)" f' r2] failed(1) True
      have eqs: "out = Poll_Ready (Inl e)" "w' = With_Done" "a' = ?a" "r' = r3" by simp_all
      have "sys_futures st1 i = Some (?x, f')" "drop_future E f' ?x (sys_reactor st1) = Inr r3" using F(2,3) D by simp_all
      from drop_run [OF st1(1) this(1) st1(2) this(2)] obtain st' s' where G: "sys_step E io st1 st'" "sys_ok E items st'"
        "sys_reactor st' = r3" "sys_futures st' = (sys_futures st1)(i := None)" "live E r3 ?x s'" "same_object s1 s'"
        "quiet_for st1 st' False" by blast
      have "sys_steps E io st st'" using steps_then [OF T(1) steps_step [OF quiet1(1) G(1)]] .
      with G F(3) st1(3) quiet1(2) eqs show ?thesis by (auto simp: with_run_def op_run_def quiet_for_def same_object_def)
    qed
  qed
qed

lemma with_poll_run:
  assumes ok: "sys_ok E items st" and x: "live E (sys_reactor st) (as_source a) s" and op: "io_respects io op"
    and i: "with_owned i (as_source a) d w (sys_futures st)"
    and poll: "io_with_poll E d op cx w a b (sys_reactor st) = Some (Inr (out, w', a', b', r'))"
  shows "\<exists>st'. with_run E items io d cx (as_source a) s i st st' out w' r' \<and> as_source a' = as_source a"
proof (cases w)
  case With_Try
  with with_try_run [OF ok x op] i poll show ?thesis by simp
next
  case (With_Wait polled f)
  with i have F: "polled" "sys_futures st i = Some (as_source a, f)" by simp_all
  from ok have R: "reactor_ok E items (sys_reactor st)" by (simp add: sys_ok_def)
  from R x obtain r1 where D: "drop_future E f (as_source a) (sys_reactor st) = Inr r1" by (rule drop_future_cases)
  obtain st1 s1 where G: "sys_step E io st st1" "sys_ok E items st1" "sys_reactor st1 = r1"
    "sys_futures st1 = (sys_futures st)(i := None)" "live E r1 (as_source a) s1" "same_object s s1" "quiet_for st st1 False"
    by (rule drop_run [OF ok F(2) x D])
  have try1: "io_with_poll E d op cx With_Try a b (sys_reactor st1) = Some (Inr (out, w', a', b', r'))"
    using poll With_Wait F(1) io_with_resume [OF D, of d op cx b] G(3) by simp
  have x1: "live E (sys_reactor st1) (as_source a) s1" and i1: "sys_futures st1 i = None" using G(3-5) by simp_all
  from with_try_run [OF G(2) x1 op i1 try1] obtain st' where
    W: "with_run E items io d cx (as_source a) s1 i st1 st' out w' r'" "as_source a' = as_source a"
    by blast
  then have "with_run E items io d cx (as_source a) s i st st' out w' r'"
    using op_run_after [OF steps_one [OF G(1)] G(7,6)] G(4) by (simp add: with_run_def)
  with W(2) show ?thesis by blast
next
  case With_Done
  with poll show ?thesis by (subst (asm) io_with_poll.simps) simp
qed


section \<open>A pending operation is waited for\<close>

context interest_backend begin

lemma pending_op_armed:
  assumes E: "crates_ok E items" "ok p" and io: "\<And>p p'. io p p' \<Longrightarrow> ok p \<Longrightarrow> ok p' \<and> table p' = table p"
    and run: "sys_steps E io (sys_init E p) st" and O: "op_run E items io d cx x s st st' True"
  shows "sys_steps E io (sys_init E p) st' \<and> exempt_keys st' \<subseteq> exempt_keys st \<and>
    (\<exists>s'. live E (sys_reactor st') x s' \<and> task_waits E d cx s' \<and>
      (src_key s \<notin> exempt_keys st' \<longrightarrow> (\<exists>e. table (poller (sys_reactor st')) (registration s) = Some e \<and>
         ev_key e = src_key s \<and> arms E duplex e s')))"
proof -
  from O obtain s' where S: "sys_steps E io st st'" "live E (sys_reactor st') x s'" "same_object s s'"
    "task_waits E d cx s'" "exempt_keys st' \<subseteq> exempt_keys st"
    by (auto simp: op_run_def quiet_for_def)
  have run': "sys_steps E io (sys_init E p) st'" by (rule steps_trans [OF S(1) run])
  have "armed (exempt_keys st') (sys_reactor st')"
    using io by (intro steps_armed [OF run' sys_ok_init [OF E(1)] init_armed [OF E]])
  then have "\<exists>e. table (poller (sys_reactor st')) (registration s') = Some e \<and> ev_key e = src_key s' \<and> arms E duplex e s'"
    if "src_key s' \<notin> exempt_keys st'" using that live_source_at [OF S(2)] by (blast elim: interest_okD)
  with run' S(2-5) show ?thesis unfolding same_object_def by metis
qed

end

lemma task_waits_nonempty: "task_waits E d cx s \<Longrightarrow> waiting E (src_state s d) \<noteq> {}"
  by (auto simp: task_waits_def)

text \<open>
  C3. On Unix, from the poll of an operation down to the poller, in any reachable state and whatever the
  other tasks and the reactor are doing: when a poll of a \<open>read_with\<close> or \<open>write_with\<close> future,
  or a poll function of \<open>AsyncRead\<close> or \<open>AsyncWrite\<close>, is pending, the state it leaves is
  reachable too and has no new exempt key, and the task waits on the handle's source for the direction. If
  the source's key is not exempt in that state, the poller watches the handle for the direction, under
  the key. As in C1, it is exempt while an event with that key has yet to be handled, and when it has
  lost its registration: a task waited already when the poller refused to register the source (C17), or
  when a round ended with an error before it was done with its event, and nothing has registered it since.
\<close>

theorem pending_operation_is_watched:
  assumes "crates_ok E items" "platform_ok E (unix_registration P) watched" "fd_calls_ok P watched"
    and io: "\<And>p p'. io p p' \<Longrightarrow> watched p' = watched p" and op: "io_respects io op"
    and run: "sys_steps E io (sys_init E p) st" and x: "live E (sys_reactor st) (as_source a) s"
    and i: "with_owned i (as_source a) d w (sys_futures st)"
    and poll: "io_with_poll E d op cx w a b (sys_reactor st) = Some (Inr (Poll_Pending, w', a', b', r')) \<or>
      io_poll E d op cx a b (sys_reactor st) = Some (Inr (Poll_Pending, a', b', r'))"
  shows "\<exists>st' s'. sys_steps E io (sys_init E p) st' \<and> sys_reactor st' = r' \<and>
    exempt_keys st' \<subseteq> exempt_keys st \<and> live E r' (as_source a) s' \<and> task_waits E d cx s' \<and>
    (src_key s \<notin> exempt_keys st' \<longrightarrow> (\<exists>e. watched (poller r') (raw (registration s)) = Some e \<and>
       ev_key e = src_key s \<and> emitted e d))"
proof -
  have ok: "sys_ok E items st" using sys_ok_steps [OF run sys_ok_init [OF assms(1)]] .
  obtain st' where O: "op_run E items io d cx (as_source a) s st st' True" "sys_reactor st' = r'"
    using poll
  proof
    assume "io_with_poll E d op cx w a b (sys_reactor st) = Some (Inr (Poll_Pending, w', a', b', r'))"
    from with_poll_run [OF ok x op i this] show thesis by (auto simp: with_run_def intro: that)
  next
    assume "io_poll E d op cx a b (sys_reactor st) = Some (Inr (Poll_Pending, a', b', r'))"
    from io_poll_run [OF ok x op this] show thesis by (auto intro: that)
  qed
  have "unix_table watched p' = unix_table watched p" if "io p p'" for p p'
    using io [OF that] by (simp add: unix_table_def fun_eq_iff)
  with assms(2,3) unix_interest.pending_op_armed [where E = E, OF assms(1) _ _ run O(1), of P watched]
  have "sys_steps E io (sys_init E p) st' \<and> exempt_keys st' \<subseteq> exempt_keys st \<and>
    (\<exists>s'. live E (sys_reactor st') (as_source a) s' \<and> task_waits E d cx s' \<and>
    (src_key s \<notin> exempt_keys st' \<longrightarrow> (\<exists>e. unix_table watched (poller (sys_reactor st')) (registration s) = Some e \<and>
       ev_key e = src_key s \<and> arms E (\<lambda>_. True) e s')))" by blast
  moreover have "emitted e d" if "arms E (\<lambda>_. True) e s'" "task_waits E d cx s'" for e s'
    using that task_waits_nonempty [OF that(2)] by (cases d) (auto simp: arms_def)
  ultimately show ?thesis using O(2) unfolding unix_table_def by (elim conjE exE) metis
qed

lemma sim_handle_steps:
  "sys_steps sim sim_io (sys_init sim (sim_poller_new [] []))
     ((sys_init sim (sim_poller_new [] []))\<lparr>sys_reactor := sim_open []\<rparr>)"
proof -
  let ?s = "sys_init sim (sim_poller_new [] [])"
  let ?p = "(sim_poller_new [] [])\<lparr>sp_nonblock := (\<lambda>_. False)(7 := True)\<rparr>"
  let ?s1 = "?s\<lparr>sys_reactor := (sys_reactor ?s)\<lparr>poller := ?p\<rparr>\<rparr>"
  have "sys_step sim sim_io ?s ?s1"
    by (rule step_io) (simp add: sim_io_def sys_init_def reactor_new_def sim_poller_new_def)
  moreover have "sys_step sim sim_io ?s1 (?s1\<lparr>sys_reactor := sim_open []\<rparr>)"
  proof (rule step_open [where g = "unix_new 7" and res = "Inr 0"])
    show "insert_io sim (unix_new 7) (sys_reactor ?s1) = Inr (Inr 0, sim_open [])"
      by (simp add: sys_init_def sim_open_defs insert_io_def sim_insert_def sim_vacant_def unix_registration_defs
          sim_fd_calls_def sim_set_def unix_new_def) (simp add: fun_eq_iff)
  qed (simp add: sys_init_def reactor_new_def source_at_def sim_get_def)
  ultimately have "sys_steps sim sim_io ?s (?s1\<lparr>sys_reactor := sim_open []\<rparr>)"
    by (blast intro: steps_then steps_one)
  then show ?thesis by simp
qed

theorem pending_operation_is_watched_witness:
  "\<exists>a' b' r' e. io_poll sim READ sim_read 3 sim_handle [0, 0] (sim_open []) = Some (Inr (Poll_Pending, a', b', r')) \<and>
    sp_watched (poller r') 7 = Some e \<and> ev_readable e"
proof -
  let ?st = "(sys_init sim (sim_poller_new [] []))\<lparr>sys_reactor := sim_open []\<rparr>"
  have op: "io_respects sim_io sim_read"
    by (auto simp: io_respects_def sim_io_def sim_read_def Let_def split: list.splits)
  have "sp_watched p' = sp_watched p" if "sim_io p p'" for p p' using that by (simp add: sim_io_def)
  moreover obtain r' where "poll_source sim READ 3 (as_source sim_handle) (sim_open []) = Inr (Poll_Pending, r')"
    by (simp add: sim_open_defs sim_eval unix_new_def sim_vacant_def)
  then have poll: "io_poll sim READ sim_read 3 sim_handle [0, 0] (sim_open []) = Some (Inr (Poll_Pending, sim_handle, [0, 0], r'))"
    using io_poll_blocked [where op = sim_read and b = "[0, 0]" and r = "sim_open []" and E = sim and d = READ and cx = 3,
        OF sim_handle_io sim_read_empty]
    by (simp add: sim_handle_def)
  moreover have "live sim (sys_reactor ?st) (as_source sim_handle) sim_source" using sim_open_live by simp
  ultimately have "\<exists>e. sp_watched (poller r') (raw (registration sim_source)) = Some e \<and> emitted e READ"
    using pending_operation_is_watched [OF sim_ok sim_platform_ok sim_fd_calls_ok _ op sim_handle_steps, where a = sim_handle
        and b = "[0, 0]" and d = READ and cx = 3 and a' = sim_handle and b' = "[0, 0]" and r' = r' and w = With_Try and i = 0 and s = sim_source]
    by (simp add: sys_init_def) blast
  with poll show ?thesis by (auto simp: sim_source_def unix_new_def)
qed

section \<open>A source stays what it was registered for\<close>

text \<open>An operation keeps registrations when no source that is in the store gets another one.\<close>

definition keeps_registrations :: "('p, 'sw, 'ss, 'q, 'reg) reactor \<Rightarrow> ('p, 'sw, 'ss, 'q, 'reg) reactor \<Rightarrow> bool" where
  "keeps_registrations r r' \<longleftrightarrow>
     (\<forall>a s. heap r a = Some s \<longrightarrow> (\<exists>s'. heap r' a = Some s' \<and> registration s' = registration s))"

lemma keeps_registrations_same [simp]: "heap r' = heap r \<Longrightarrow> keeps_registrations r r'"
  by (simp add: keeps_registrations_def)

lemma keeps_registrations_put:
  "live E r x s \<Longrightarrow> registration s' = registration s \<Longrightarrow> heap r1 = heap r \<Longrightarrow> keeps_registrations r (put_source x s' r1)"
  by (auto simp: keeps_registrations_def live_def put_source_def)

lemma insert_io_keeps_registrations:
  assumes ok: "reactor_ok E items r" and ins: "insert_io E g r = Inr (res, r')"
  shows "keeps_registrations r r'"
proof -
  note P = reactor_ok_parts [OF ok]
  have "heap r a = Some s \<longrightarrow> a \<noteq> next_addr r" for a s using sources_ok_heapD [OF P(2), of a] by auto
  then have new: "keeps_registrations r r'" if "heap r' = (heap r)(next_addr r \<mapsto> new_source E g r)"
    using that by (auto simp: keeps_registrations_def)
  from P(2,4,3) show ?thesis
  proof (cases rule: insert_io_cases [where g = g])
    case (added p ss r1)
    with ins have "r' = r1" by simp
    with added(3) show ?thesis by (intro new) simp
  next
    case (failed e p ss r1)
    with ins have "r' = r1" by simp
    with failed(3) show ?thesis by (intro new) simp
  qed
qed

lemma poll_source_keeps_registrations:
  assumes "reactor_ok E items r" "live E r x s" "poll_source E d cx x r = Inr (res, r')"
  shows "keeps_registrations r r'"
  by (rule poll_source_store [OF assms]) (auto intro!: keeps_registrations_put [OF assms(2) poll_ready_frame(3)])

lemma poll_future_keeps_registrations:
  assumes "reactor_ok E items r" "live E r x s" "future_ok E f (rf_dir f) s"
    and "poll_future E f cx x r = Inr (res, f', r')"
  shows "keeps_registrations r r'"
  by (rule poll_future_store [OF assms])
    (auto intro!: keeps_registrations_put [OF assms(2) ready_poll_frame(3) [OF assms(3)]])

lemma step_keeps_registrations:
  assumes step: "sys_step E io st st'" and ok: "sys_ok E items st"
  shows "keeps_registrations (sys_reactor st) (sys_reactor st')"
proof -
  from ok have R: "reactor_ok E items (sys_reactor st)" and F: "futures_ok E st" by (simp_all add: sys_ok_def)
  note P = reactor_ok_parts [OF R]
  from step R show ?thesis
  proof (cases rule: sys_step_split)
    case quiet
    then show ?thesis by (simp add: quiet_step_def Let_def)
  next
    case (opened g res)
    from R opened(1) show ?thesis by (rule insert_io_keeps_registrations)
  next
    case (closed x t res)
    from R closed(1,3) obtain p ss where "sys_reactor st' = (sys_reactor st)\<lparr>sources := ss, poller := p\<rparr>"
      by (rule remove_io_frame)
    then show ?thesis by simp
  next
    case (polled x t d cx res)
    from R polled(1,2) show ?thesis by (rule poll_source_keeps_registrations)
  next
    case (future_new x t i d)
    then show ?thesis by simp
  next
    case (future_polled i x f cx res f')
    from futures_okD [OF F future_polled(1)] obtain t where "live E (sys_reactor st) x t" "future_ok E f (rf_dir f) t" by blast
    from R this future_polled(2) show ?thesis by (rule poll_future_keeps_registrations)
  next
    case (future_dropped i x f)
    from futures_okD [OF F future_dropped(1)] obtain t where t: "live E (sys_reactor st) x t" by blast
    from R t show ?thesis
      by (rule drop_future_cases [where f = f]) (use future_dropped(2) in \<open>auto simp: keeps_registrations_put [OF t]\<close>)
  next
    case (event tk ev evs ws res ws')
    from P(2) event(2) show ?thesis
    proof (cases rule: deliver_one_cases)
      case (known x t t' p)
      then show ?thesis by (simp add: keeps_registrations_put [OF known(2) deliver_source_keys(2) [OF P(3) known(4)]])
    qed simp
  qed
qed

lemma steps_keep_registration:
  "sys_steps E io st st' \<Longrightarrow> sys_ok E items st \<Longrightarrow> heap (sys_reactor st) a = Some s \<Longrightarrow>
     \<exists>s'. heap (sys_reactor st') a = Some s' \<and> registration s' = registration s"
proof (induction rule: sys_steps.induct)
  case (steps_step st st1 st2)
  then obtain s1 where "heap (sys_reactor st1) a = Some s1" "registration s1 = registration s" by blast
  with step_keeps_registrations [OF steps_step(2) sys_ok_steps [OF steps_step(1) steps_step(4)]] show ?case
    unfolding keeps_registrations_def by metis
qed simp

end
