(* ===== verification/Timer.thy ===== *)
theory Timer
  imports Sim_Crates
begin

text \<open>
  \<open>Timer\<close> of \<open>src/src/lib.rs\<close>: its constructors, the operations that set and clear it, its
  \<open>Drop\<close>, \<open>Future\<close> and \<open>Stream\<close> implementations. Each reading of the clock is an argument.

  A timer owns at most one entry of the reactor's timers, \<open>own_key\<close>. The lemmas describe an
  operation by the entry it owns before and after and by \<open>release\<close>, the timers without that
  entry: nothing else may change, and nothing may be left behind.
\<close>

section \<open>The code\<close>

record timer =
  id_and_waker :: "(usize \<times> waker) option"
  timer_when :: "instant option"
  period :: duration

definition timer_never :: timer where
  "timer_never = \<lparr>id_and_waker = None, timer_when = None, period = duration_max\<rparr>"

definition timer_interval_at :: "instant \<Rightarrow> duration \<Rightarrow> timer" where
  "timer_interval_at start p = \<lparr>id_and_waker = None, timer_when = Some start, period = p\<rparr>"

definition timer_at :: "instant \<Rightarrow> timer" where
  "timer_at t = timer_interval_at t duration_max"

definition timer_after :: "instant \<Rightarrow> duration \<Rightarrow> timer" where
  "timer_after now d = (case checked_add now d of
       None \<Rightarrow> timer_never
     | Some t \<Rightarrow> timer_at t)"

definition timer_interval :: "instant \<Rightarrow> duration \<Rightarrow> timer" where
  "timer_interval now p = (case checked_add now p of
       None \<Rightarrow> timer_never
     | Some t \<Rightarrow> timer_interval_at t p)"

definition timer_will_fire :: "timer \<Rightarrow> bool" where
  "timer_will_fire t \<longleftrightarrow> timer_when t \<noteq> None"

text \<open>Operations on a timer return, may panic, and change the timer and the reactor.\<close>

type_synonym ('p, 'sw, 'ss, 'q, 'reg) timer_result =
  "(panic + timer \<times> ('p, 'sw, 'ss, 'q, 'reg) reactor) option"

definition timer_clear :: "('p, 'sw, 'ss, 'q, 'reg) crates \<Rightarrow> timer \<Rightarrow>
    ('p, 'sw, 'ss, 'q, 'reg) reactor \<Rightarrow> ('p, 'sw, 'ss, 'q, 'reg) timer_result" where
  "timer_clear E t r = (case (timer_when t, id_and_waker t) of
       (Some w, Some (i, _)) \<Rightarrow>
         obind (remove_timer E w i r) (\<lambda>r. Some (Inr (t\<lparr>timer_when := None\<rparr>, r)))
     | _ \<Rightarrow> Some (Inr (t\<lparr>timer_when := None\<rparr>, r)))"

text \<open>The common end of \<open>set_at\<close> and \<open>set_interval_at\<close>.\<close>

definition timer_reregister :: "('p, 'sw, 'ss, 'q, 'reg) crates \<Rightarrow> instant \<Rightarrow> timer \<Rightarrow>
    ('p, 'sw, 'ss, 'q, 'reg) reactor \<Rightarrow> ('p, 'sw, 'ss, 'q, 'reg) timer_result" where
  "timer_reregister E instant t r = (case id_and_waker t of
       None \<Rightarrow> Some (Inr (t, r))
     | Some (_, w) \<Rightarrow> obind (insert_timer E instant w r)
         (\<lambda>(i, r). Some (Inr (t\<lparr>id_and_waker := Some (i, w)\<rparr>, r))))"

definition timer_set_at :: "('p, 'sw, 'ss, 'q, 'reg) crates \<Rightarrow> instant \<Rightarrow> timer \<Rightarrow>
    ('p, 'sw, 'ss, 'q, 'reg) reactor \<Rightarrow> ('p, 'sw, 'ss, 'q, 'reg) timer_result" where
  "timer_set_at E instant t r = obind (timer_clear E t r) (\<lambda>(t, r).
     timer_reregister E instant (t\<lparr>timer_when := Some instant\<rparr>) r)"

definition timer_set_after :: "('p, 'sw, 'ss, 'q, 'reg) crates \<Rightarrow> instant \<Rightarrow> duration \<Rightarrow> timer \<Rightarrow>
    ('p, 'sw, 'ss, 'q, 'reg) reactor \<Rightarrow> ('p, 'sw, 'ss, 'q, 'reg) timer_result" where
  "timer_set_after E now d t r = (case checked_add now d of
       Some instant \<Rightarrow> timer_set_at E instant t r
     | None \<Rightarrow> timer_clear E t r)"

definition timer_set_interval_at :: "('p, 'sw, 'ss, 'q, 'reg) crates \<Rightarrow> instant \<Rightarrow> duration \<Rightarrow>
    timer \<Rightarrow> ('p, 'sw, 'ss, 'q, 'reg) reactor \<Rightarrow> ('p, 'sw, 'ss, 'q, 'reg) timer_result" where
  "timer_set_interval_at E start p t r = obind (timer_clear E t r) (\<lambda>(t, r).
     timer_reregister E start (t\<lparr>timer_when := Some start, period := p\<rparr>) r)"

definition timer_set_interval :: "('p, 'sw, 'ss, 'q, 'reg) crates \<Rightarrow> instant \<Rightarrow> duration \<Rightarrow>
    timer \<Rightarrow> ('p, 'sw, 'ss, 'q, 'reg) reactor \<Rightarrow> ('p, 'sw, 'ss, 'q, 'reg) timer_result" where
  "timer_set_interval E now p t r = (case checked_add now p of
       Some instant \<Rightarrow> timer_set_interval_at E instant p t r
     | None \<Rightarrow> timer_clear E t r)"

definition timer_drop :: "('p, 'sw, 'ss, 'q, 'reg) crates \<Rightarrow> timer \<Rightarrow>
    ('p, 'sw, 'ss, 'q, 'reg) reactor \<Rightarrow>
    (panic + ('p, 'sw, 'ss, 'q, 'reg) reactor) option" where
  "timer_drop E t r = (case (timer_when t, id_and_waker t) of
       (Some w, Some (i, _)) \<Rightarrow> remove_timer E w i r
     | _ \<Rightarrow> Some (Inr r))"

text \<open>\<open>Stream::poll_next\<close>. The clock is read once, and only if the timer is set.\<close>

definition timer_poll_next :: "('p, 'sw, 'ss, 'q, 'reg) crates \<Rightarrow> instant \<Rightarrow> waker \<Rightarrow> timer \<Rightarrow>
    ('p, 'sw, 'ss, 'q, 'reg) reactor \<Rightarrow>
    (panic + instant option poll \<times> timer \<times> ('p, 'sw, 'ss, 'q, 'reg) reactor) option" where
  "timer_poll_next E now cx t r = (case timer_when t of
       None \<Rightarrow> Some (Inr (Poll_Pending, t, r))
     | Some w \<Rightarrow>
         if w \<le> now
         then obind (case id_and_waker t of
                 None \<Rightarrow> Some (Inr r)
               | Some (i, _) \<Rightarrow> remove_timer E w i r) (\<lambda>r.
           let t = t\<lparr>id_and_waker := None\<rparr> in
           case checked_add w (period t) of
             Some next \<Rightarrow> obind (insert_timer E next cx r) (\<lambda>(i, r).
               Some (Inr (Poll_Ready (Some w),
                 t\<lparr>timer_when := Some next, id_and_waker := Some (i, cx)\<rparr>, r)))
           | None \<Rightarrow> Some (Inr (Poll_Ready (Some w), t\<lparr>timer_when := None\<rparr>, r)))
         else (case id_and_waker t of
             None \<Rightarrow> obind (insert_timer E w cx r) (\<lambda>(i, r).
               Some (Inr (Poll_Pending, t\<lparr>id_and_waker := Some (i, cx)\<rparr>, r)))
           | Some (i, v) \<Rightarrow>
               if \<not> will_wake E v cx
               then obind (remove_timer E w i r) (\<lambda>r. obind (insert_timer E w cx r) (\<lambda>(i, r).
                 Some (Inr (Poll_Pending, t\<lparr>id_and_waker := Some (i, cx)\<rparr>, r))))
               else Some (Inr (Poll_Pending, t, r))))"

text \<open>\<open>Future::poll\<close>.\<close>

definition timer_poll :: "('p, 'sw, 'ss, 'q, 'reg) crates \<Rightarrow> instant \<Rightarrow> waker \<Rightarrow> timer \<Rightarrow>
    ('p, 'sw, 'ss, 'q, 'reg) reactor \<Rightarrow>
    (panic + instant poll \<times> timer \<times> ('p, 'sw, 'ss, 'q, 'reg) reactor) option" where
  "timer_poll E now cx t r = obind (timer_poll_next E now cx t r) (\<lambda>(res, t, r).
     case res of
       Poll_Ready (Some w) \<Rightarrow> Some (Inr (Poll_Ready w, t, r))
     | Poll_Pending \<Rightarrow> Some (Inr (Poll_Pending, t, r))
     | Poll_Ready None \<Rightarrow> Some (Inl Unreachable_Code))"

section \<open>What a timer owns\<close>

definition own_key :: "timer \<Rightarrow> timer_key option" where
  "own_key t = (case (timer_when t, id_and_waker t) of
       (Some w, Some (i, _)) \<Rightarrow> Some (w, i)
     | _ \<Rightarrow> None)"

definition release :: "timer \<Rightarrow> (timer_key \<Rightarrow> waker option) \<Rightarrow> timer_key \<Rightarrow> waker option" where
  "release t V = (case own_key t of None \<Rightarrow> V | Some k \<Rightarrow> V(k := None))"

text \<open>
  A timer that has an identifier is registered with its waker, unless the reactor has fired it,
  which it only does when it is due. \<open>now\<close> is the latest reading of the clock.
\<close>

definition registered :: "instant \<Rightarrow> timer \<Rightarrow> (timer_key \<Rightarrow> waker option) \<Rightarrow> bool" where
  "registered now t V \<longleftrightarrow> (\<forall>w i v. timer_when t = Some w \<longrightarrow> id_and_waker t = Some (i, v) \<longrightarrow>
     V (w, i) = Some v \<or> w \<le> now)"

text \<open>The next identifier is not in use. (It wraps around after \<open>2 ^ 64\<close> insertions.)\<close>

definition fresh_id :: "('q \<Rightarrow> timer_op list) \<Rightarrow> ('p, 'sw, 'ss, 'q, 'reg) reactor \<Rightarrow> bool" where
  "fresh_id items r \<longleftrightarrow> (\<forall>u. timer_view items r (u, id_generator r) = None)"

lemma release_None [simp]: "own_key t = None \<Longrightarrow> release t V = V"
  by (simp add: release_def)

lemma release_Some [simp]: "own_key t = Some k \<Longrightarrow> release t V = V(k := None)"
  by (simp add: release_def)

lemma own_key_simps [simp]:
  "timer_when t = None \<Longrightarrow> own_key t = None"
  "id_and_waker t = None \<Longrightarrow> own_key t = None"
  "timer_when t = Some w \<Longrightarrow> id_and_waker t = Some (i, v) \<Longrightarrow> own_key t = Some (w, i)"
  by (simp_all add: own_key_def split: option.split)

lemma release_fresh:
  assumes "V k = None"
  shows "(release t V)(k := None) = release t V"
  using assms by (cases "own_key t") (auto simp: release_def fun_eq_iff)

section \<open>The operations on the timers\<close>

lemma timer_clear_cases:
  assumes "timers_ok E items r"
  obtains r' where "timer_clear E t r = Some (Inr (t\<lparr>timer_when := None\<rparr>, r'))"
    "timers_ok E items r'" "same_io r r'" "timer_view items r' = release t (timer_view items r)"
    "id_generator r' = id_generator r"
proof (cases "own_key t")
  case None
  then show thesis
    using assms by (intro that [of r])
      (auto simp: timer_clear_def own_key_def split: option.splits)
next
  case (Some k)
  then obtain w i v where t: "timer_when t = Some w" "id_and_waker t = Some (i, v)" "k = (w, i)"
    by (auto simp: own_key_def split: option.splits)
  from assms obtain r' where "remove_timer E w i r = Some (Inr r')" "timers_ok E items r'"
    "timer_view items r' = (timer_view items r)((w, i) := None)"
    "id_generator r' = id_generator r" "same_io r r'"
    by (rule ts.remove_cases)
  with t show thesis by (intro that [of r']) (simp_all add: timer_clear_def)
qed

lemma timer_reregister_cases:
  assumes "timers_ok E items r"
  obtains (unpolled) "id_and_waker t = None" "timer_reregister E w t r = Some (Inr (t, r))"
  | (polled) i v r' where "id_and_waker t = Some (i, v)"
      "timer_reregister E w t r = Some (Inr (t\<lparr>id_and_waker := Some (id_generator r, v)\<rparr>, r'))"
      "timers_ok E items r'" "same_io r r'"
      "timer_view items r' = (timer_view items r)((w, id_generator r) \<mapsto> v)"
proof (cases "id_and_waker t")
  case None
  then show thesis by (intro unpolled) (simp_all add: timer_reregister_def)
next
  case (Some iv)
  obtain i v where iv: "iv = (i, v)" by force
  from assms obtain r' where "insert_timer E w v r = Some (Inr (id_generator r, r'))"
    "timers_ok E items r'" "timer_view items r' = (timer_view items r)((w, id_generator r) \<mapsto> v)"
    "same_io r r'" by (rule ts.insert_cases)
  with Some iv show thesis by (intro polled [of i v r']) (simp_all add: timer_reregister_def)
qed

text \<open>
  Setting a timer: what it owned is released, what it owns is a registration of its last waker at
  the new instant, and it owns nothing when it has never been polled.
\<close>

definition set_timer :: "('p, 'sw, 'ss, 'q, 'reg) crates \<Rightarrow> ('q \<Rightarrow> timer_op list) \<Rightarrow> instant \<Rightarrow>
    duration \<Rightarrow> timer \<Rightarrow> ('p, 'sw, 'ss, 'q, 'reg) reactor \<Rightarrow> timer \<Rightarrow>
    ('p, 'sw, 'ss, 'q, 'reg) reactor \<Rightarrow> bool" where
  "set_timer E items w p t r t' r' \<longleftrightarrow> timers_ok E items r' \<and> same_io r r' \<and>
     timer_when t' = Some w \<and> period t' = p \<and>
     map_option snd (id_and_waker t') = map_option snd (id_and_waker t) \<and>
     release t' (timer_view items r') = release t (timer_view items r) \<and>
     (\<forall>i v. id_and_waker t' = Some (i, v) \<longrightarrow> timer_view items r' (w, i) = Some v)"

lemma set_timer_cases:
  assumes ok: "timers_ok E items r" and fresh: "fresh_id items r"
  obtains t' r' where "obind (timer_clear E t r) (\<lambda>(t, r).
      timer_reregister E w (t\<lparr>timer_when := Some w, period := p\<rparr>) r) = Some (Inr (t', r'))"
    "set_timer E items w p t r t' r'"
proof -
  from ok obtain r1 where
    C: "timer_clear E t r = Some (Inr (t\<lparr>timer_when := None\<rparr>, r1))" "timers_ok E items r1"
    "same_io r r1" "timer_view items r1 = release t (timer_view items r)"
    "id_generator r1 = id_generator r"
    by (rule timer_clear_cases)
  let ?t = "t\<lparr>timer_when := Some w, period := p\<rparr>"
  from C(2) show thesis
  proof (cases rule: timer_reregister_cases [where t = ?t and w = w])
    case unpolled
    with C show thesis
      by (intro that [of ?t r1]) (simp_all add: set_timer_def)
  next
    case (polled i v r2)
    let ?t' = "?t\<lparr>id_and_waker := Some (id_generator r1, v)\<rparr>"
    have "timer_view items r (w, id_generator r) = None" using fresh by (simp add: fresh_id_def)
    then have "release ?t' (timer_view items r2) = release t (timer_view items r)"
      using release_fresh [of "timer_view items r" "(w, id_generator r)" t]
      by (simp add: polled C)
    with C polled same_io_trans [OF C(3) polled(4)] show thesis
      by (intro that [of ?t' r2]) (simp_all add: set_timer_def)
  qed
qed

lemma timer_set_at_cases:
  assumes "timers_ok E items r" "fresh_id items r"
  obtains t' r' where "timer_set_at E w t r = Some (Inr (t', r'))"
    "set_timer E items w (period t) t r t' r'"
proof -
  from assms obtain t' r' where A: "obind (timer_clear E t r) (\<lambda>(u, r).
      timer_reregister E w (u\<lparr>timer_when := Some w, period := period t\<rparr>) r) = Some (Inr (t', r'))"
    "set_timer E items w (period t) t r t' r'"
    by (rule set_timer_cases)
  moreover from assms(1) obtain r1 where
    "timer_clear E t r = Some (Inr (t\<lparr>timer_when := None\<rparr>, r1))" by (rule timer_clear_cases)
  ultimately show thesis
    by (intro that [of t' r']) (simp_all add: timer_set_at_def)
qed

lemma timer_set_interval_at_cases:
  assumes "timers_ok E items r" "fresh_id items r"
  obtains t' r' where "timer_set_interval_at E w p t r = Some (Inr (t', r'))"
    "set_timer E items w p t r t' r'"
  using assms unfolding timer_set_interval_at_def by (rule set_timer_cases)

section \<open>Polling\<close>

text \<open>\<open>holds_for t' V cx\<close>: the timer is registered, with a waker of the task \<open>cx\<close>.\<close>

definition holds_for :: "('p, 'sw, 'ss, 'q, 'reg) crates \<Rightarrow> timer \<Rightarrow>
    (timer_key \<Rightarrow> waker option) \<Rightarrow> waker \<Rightarrow> bool" where
  "holds_for E t V cx \<longleftrightarrow> (\<exists>w i v. timer_when t = Some w \<and> id_and_waker t = Some (i, v) \<and>
     wakes_task E v cx \<and> V (w, i) = Some v)"

lemma release_insert_own:
  assumes "timer_when t = Some w" "id_and_waker t = Some (i, v)" "V (w, i) = None"
  shows "release t (V((w, i) \<mapsto> v)) = V"
  using assms by (auto simp: fun_eq_iff)

text \<open>Releasing what a timer owns, and then registering it anew at \<open>u\<close>.\<close>

lemma timer_replace:
  assumes ok: "timers_ok E items r" and w: "timer_when t = Some w"
  obtains r1 r2 where "(case id_and_waker t of
      None \<Rightarrow> Some (Inr r) | Some (i, _) \<Rightarrow> remove_timer E w i r) = Some (Inr r1)"
    "timers_ok E items r1" "same_io r r1" "timer_view items r1 = release t (timer_view items r)"
    "insert_timer E u cx r1 = Some (Inr (id_generator r, r2))" "timers_ok E items r2" "same_io r r2"
    "timer_view items r2 = (release t (timer_view items r))((u, id_generator r) \<mapsto> cx)"
proof -
  have "\<exists>r1. (case id_and_waker t of
      None \<Rightarrow> Some (Inr r) | Some (i, _) \<Rightarrow> remove_timer E w i r) = Some (Inr r1) \<and>
      timers_ok E items r1 \<and> same_io r r1 \<and>
      timer_view items r1 = release t (timer_view items r) \<and> id_generator r1 = id_generator r"
  proof (cases "id_and_waker t")
    case None
    with ok show ?thesis by (intro exI [of _ r]) simp
  next
    case (Some iv)
    obtain i v where iv: "iv = (i, v)" by force
    from ok obtain r' where "remove_timer E w i r = Some (Inr r')" "timers_ok E items r'"
      "timer_view items r' = (timer_view items r)((w, i) := None)"
      "id_generator r' = id_generator r" "same_io r r'" by (rule ts.remove_cases)
    with w Some iv show ?thesis by (intro exI [of _ r']) simp
  qed
  then obtain r1 where R: "(case id_and_waker t of
      None \<Rightarrow> Some (Inr r) | Some (i, _) \<Rightarrow> remove_timer E w i r) = Some (Inr r1)"
    "timers_ok E items r1" "same_io r r1" "timer_view items r1 = release t (timer_view items r)"
    "id_generator r1 = id_generator r" by blast
  from R(2) obtain r2 where I: "insert_timer E u cx r1 = Some (Inr (id_generator r1, r2))"
    "timers_ok E items r2" "same_io r1 r2"
    "timer_view items r2 = (timer_view items r1)((u, id_generator r1) \<mapsto> cx)"
    by (rule ts.insert_cases)
  from R I same_io_trans [OF R(3) I(3)] show thesis by (intro that [of r1 r2]) simp_all
qed

lemma timer_poll_next_cases:
  assumes ok: "timers_ok E items r" and fresh: "fresh_id items r"
    and reg: "registered earlier t (timer_view items r)" "earlier \<le> now"
  obtains (unset) "timer_when t = None"
      "timer_poll_next E now cx t r = Some (Inr (Poll_Pending, t, r))"
  | (fired) w t' r' where "timer_when t = Some w" "w \<le> now"
      "timer_poll_next E now cx t r = Some (Inr (Poll_Ready (Some w), t', r'))"
      "timers_ok E items r'" "same_io r r'"
      "release t' (timer_view items r') = release t (timer_view items r)"
      "timer_when t' = checked_add w (period t)" "period t' = period t"
      "timer_when t' = None \<longrightarrow> id_and_waker t' = None"
      "timer_when t' \<noteq> None \<longrightarrow> holds_for E t' (timer_view items r') cx"
  | (waits) w t' r' where "timer_when t = Some w" "now < w"
      "timer_poll_next E now cx t r = Some (Inr (Poll_Pending, t', r'))"
      "timers_ok E items r'" "same_io r r'"
      "release t' (timer_view items r') = release t (timer_view items r)"
      "timer_when t' = Some w" "period t' = period t"
      "holds_for E t' (timer_view items r') cx"
proof (cases "timer_when t")
  case None
  then show thesis by (intro unset) (simp_all add: timer_poll_next_def)
next
  case (Some w)
  let ?V = "timer_view items r" and ?next = "checked_add w (period t)"
  define u where "u = (if w \<le> now then (case ?next of None \<Rightarrow> w | Some n \<Rightarrow> n) else w)"
  from ok Some obtain r1 r2 where R: "(case id_and_waker t of
      None \<Rightarrow> Some (Inr r) | Some (i, _) \<Rightarrow> remove_timer E w i r) = Some (Inr r1)"
    "timers_ok E items r1" "same_io r r1" "timer_view items r1 = release t ?V"
    "insert_timer E u cx r1 = Some (Inr (id_generator r, r2))" "timers_ok E items r2" "same_io r r2"
    "timer_view items r2 = (release t ?V)((u, id_generator r) \<mapsto> cx)"
    by (rule timer_replace [where u = u and cx = cx])
  have free: "release t ?V (u, id_generator r) = None"
    using fresh by (cases "own_key t") (auto simp: fresh_id_def)
  let ?i = "Some (id_generator r, cx)"
  show thesis
  proof (cases "w \<le> now")
    case due: True
    show thesis
    proof (cases ?next)
      case None
      let ?t = "t\<lparr>id_and_waker := None, timer_when := None\<rparr>"
      show thesis
        by (rule fired [of w ?t r1]) (use Some due None R in \<open>simp_all add: timer_poll_next_def\<close>)
    next
      case next_at: (Some n)
      with due have u: "u = n" by (simp add: u_def)
      let ?t = "t\<lparr>id_and_waker := ?i, timer_when := Some n\<rparr>"
      show thesis
        by (rule fired [of w ?t r2])
          (use Some due next_at R u free release_insert_own [of ?t u "id_generator r" cx "release t ?V"]
            in \<open>simp_all add: timer_poll_next_def holds_for_def wakes_task_def\<close>)
    qed
  next
    case late: False
    then have u: "u = w" by (simp add: u_def)
    let ?t = "t\<lparr>id_and_waker := ?i\<rparr>"
    show thesis
    proof (cases "\<exists>i v. id_and_waker t = Some (i, v) \<and> will_wake E v cx")
      case True
      then obtain i v where iv: "id_and_waker t = Some (i, v)" "will_wake E v cx" by blast
      with reg Some late have "?V (w, i) = Some v" by (auto simp: registered_def)
      with iv Some late ok show thesis
        by (intro waits [of w t r])
          (simp_all add: timer_poll_next_def holds_for_def wakes_task_def)
    next
      case False
      have "timer_poll_next E now cx t r = Some (Inr (Poll_Pending, ?t, r2))"
        using Some late False R(1,5) u
        by (auto simp: timer_poll_next_def split: option.splits)
      then show thesis
        by (rule waits [OF Some, of ?t r2, rotated])
          (use Some late R u free release_insert_own [of ?t u "id_generator r" cx "release t ?V"]
            in \<open>simp_all add: holds_for_def wakes_task_def\<close>)
    qed
  qed
qed

text \<open>
  What a poll returns and when the timer fires next depend only on the clock and the timer.
\<close>

definition next_fire :: "instant \<Rightarrow> timer \<Rightarrow> instant option poll \<times> instant option" where
  "next_fire now t = (case timer_when t of
       None \<Rightarrow> (Poll_Pending, None)
     | Some w \<Rightarrow> if w \<le> now then (Poll_Ready (Some w), checked_add w (period t))
         else (Poll_Pending, Some w))"

lemma timer_poll_next_out:
  assumes ok: "timers_ok E items r"
  obtains t' r' where "timer_poll_next E now cx t r = Some (Inr (fst (next_fire now t), t', r'))"
    "timers_ok E items r'" "same_io r r'" "timer_when t' = snd (next_fire now t)"
    "period t' = period t"
proof (cases "timer_when t")
  case None
  with ok show thesis by (intro that [of t r]) (simp_all add: timer_poll_next_def next_fire_def)
next
  case (Some w)
  let ?next = "checked_add w (period t)"
  define u where "u = (if w \<le> now then (case ?next of None \<Rightarrow> w | Some n \<Rightarrow> n) else w)"
  from ok Some obtain r1 r2 where R: "(case id_and_waker t of
      None \<Rightarrow> Some (Inr r) | Some (i, _) \<Rightarrow> remove_timer E w i r) = Some (Inr r1)"
    "timers_ok E items r1" "same_io r r1"
    "insert_timer E u cx r1 = Some (Inr (id_generator r, r2))" "timers_ok E items r2" "same_io r r2"
    by (rule timer_replace [where u = u and cx = cx])
  let ?i = "Some (id_generator r, cx)"
  show thesis
  proof (cases "w \<le> now")
    case due: True
    show thesis
    proof (cases ?next)
      case None
      with Some due R show thesis
        by (intro that [of "t\<lparr>id_and_waker := None, timer_when := None\<rparr>" r1])
          (simp_all add: timer_poll_next_def next_fire_def)
    next
      case next_at: (Some n)
      with due have "u = n" by (simp add: u_def)
      with Some due R next_at show thesis
        by (intro that [of "t\<lparr>id_and_waker := ?i, timer_when := Some n\<rparr>" r2])
          (simp_all add: timer_poll_next_def next_fire_def)
    qed
  next
    case late: False
    then have u: "u = w" by (simp add: u_def)
    show thesis
    proof (cases "\<exists>i v. id_and_waker t = Some (i, v) \<and> will_wake E v cx")
      case True
      with Some late ok show thesis
        by (intro that [of t r]) (auto simp: timer_poll_next_def next_fire_def)
    next
      case False
      have "timer_poll_next E now cx t r = Some (Inr (Poll_Pending, t\<lparr>id_and_waker := ?i\<rparr>, r2))"
        using Some late False R(1,4) u
        by (auto simp: timer_poll_next_def split: option.splits)
      with Some late R show thesis
        by (intro that [of "t\<lparr>id_and_waker := ?i\<rparr>" r2]) (simp_all add: next_fire_def)
    qed
  qed
qed

section \<open>Sequences of polls\<close>

text \<open>A stream polled again and again: the items it yields, with the clock at each poll.\<close>

fun timer_polls :: "('p, 'sw, 'ss, 'q, 'reg) crates \<Rightarrow> (instant \<times> waker) list \<Rightarrow> timer \<Rightarrow>
    ('p, 'sw, 'ss, 'q, 'reg) reactor \<Rightarrow>
    (panic + (instant \<times> instant option) list \<times> timer \<times> ('p, 'sw, 'ss, 'q, 'reg) reactor) option" where
  "timer_polls E [] t r = Some (Inr ([], t, r))"
| "timer_polls E ((now, cx) # ps) t r =
     obind (timer_poll_next E now cx t r) (\<lambda>(res, t, r).
     obind (timer_polls E ps t r) (\<lambda>(items, t, r).
       Some (Inr (case res of Poll_Pending \<Rightarrow> items | Poll_Ready x \<Rightarrow> (now, x) # items, t, r))))"

lemma timer_polls_arithmetic:
  assumes "timers_ok E items r"
  shows "\<exists>out t' r' n. timer_polls E ps t r = Some (Inr (out, t', r')) \<and> timers_ok E items r' \<and>
    same_io r r' \<and> (\<forall>(now, x) \<in> set out. \<exists>w. x = Some w \<and> w \<le> now) \<and>
    map snd out = map (\<lambda>k. Some (the (timer_when t) + int (k * period t))) [0..<n] \<and>
    (timer_when t = None \<longrightarrow> n = 0) \<and>
    (\<forall>w. timer_when t = Some w \<longrightarrow> checked_add w (period t) = None \<longrightarrow> n \<le> 1)"
  using assms
proof (induction ps arbitrary: t r)
  case Nil
  then show ?case by (intro exI [of _ "[]"] exI [of _ t] exI [of _ r] exI [of _ 0]) simp
next
  case (Cons nc ps)
  obtain now cx where nc: "nc = (now, cx)" by force
  from Cons.prems obtain t1 r1 where
    S: "timer_poll_next E now cx t r = Some (Inr (fst (next_fire now t), t1, r1))"
    "timers_ok E items r1" "same_io r r1" "timer_when t1 = snd (next_fire now t)"
    "period t1 = period t" by (rule timer_poll_next_out)
  from Cons.IH [OF S(2), of t1] obtain out t' r' n where
    IH: "timer_polls E ps t1 r1 = Some (Inr (out, t', r'))" "timers_ok E items r'" "same_io r1 r'"
    "\<forall>(now, x) \<in> set out. \<exists>w. x = Some w \<and> w \<le> now"
    "map snd out = map (\<lambda>k. Some (the (timer_when t1) + int (k * period t1))) [0..<n]"
    "timer_when t1 = None \<longrightarrow> n = 0"
    "\<forall>w. timer_when t1 = Some w \<longrightarrow> checked_add w (period t1) = None \<longrightarrow> n \<le> 1"
    by (elim exE conjE) (rule that)
  have io: "same_io r r'" using S(3) IH(3) by (rule same_io_trans)
  show ?case
  proof (cases "\<exists>w. timer_when t = Some w \<and> w \<le> now")
    case False
    then have nf: "next_fire now t = (Poll_Pending, timer_when t)"
      by (auto simp: next_fire_def split: option.splits)
    show ?thesis
      by (rule exI [of _ out], rule exI [of _ t'], rule exI [of _ r'], rule exI [of _ n])
        (use S IH io nf nc in simp)
  next
    case True
    then obtain w where w: "timer_when t = Some w" "w \<le> now" by blast
    then have nf: "next_fire now t = (Poll_Ready (Some w), checked_add w (period t))"
      by (simp add: next_fire_def)
    have seq: "map snd ((now, Some w) # out) =
        map (\<lambda>k. Some (the (timer_when t) + int (k * period t))) [0..<Suc n]"
    proof (cases "checked_add w (period t)")
      case None
      with IH(6) S(4) nf have "n = 0" by simp
      with IH(5) w show ?thesis by simp
    next
      case (Some u)
      then have "u = w + int (period t)" by (simp add: checked_add_Some_iff)
      with IH(5) S(4,5) nf Some w show ?thesis
        by (simp add: map_upt_Suc algebra_simps del: upt_Suc)
    qed
    show ?thesis
    proof (rule exI [of _ "(now, Some w) # out"], rule exI [of _ t'], rule exI [of _ r'],
        rule exI [of _ "Suc n"], intro conjI)
      show "timer_polls E (nc # ps) t r = Some (Inr ((now, Some w) # out, t', r'))"
        using S(1) IH(1) nf nc by simp
      show "\<forall>(now, x) \<in> set ((now, Some w) # out). \<exists>w. x = Some w \<and> w \<le> now"
        using IH(4) w(2) by auto
      show "\<forall>v. timer_when t = Some v \<longrightarrow> checked_add v (period t) = None \<longrightarrow> Suc n \<le> 1"
        using IH(6) S(4) nf w by auto
    qed (use IH(2) io seq w in auto)
  qed
qed

section \<open>Firing by the reactor\<close>

text \<open>A registered timer that is due is collected by the reactor, and yields at its next poll.\<close>

lemma registered_timer_fires:
  assumes ok: "timers_ok E items r" and w: "timer_when t = Some w"
    and h: "holds_for E t (timer_view items r) cx"
    and now: "w \<le> now" "now < instant_max" and later: "now \<le> now'"
  obtains dur ws' r' where "process_timers E now ws r = Inr (dur, ws', r')" "timers_ok E items r'"
    "\<exists>v \<in> set ws'. wakes_task E v cx"
    "\<exists>t' r''. timer_poll_next E now' cx' t r' = Some (Inr (Poll_Ready (Some w), t', r''))"
proof -
  from ok now(2) obtain dur ready r' where P:
    "process_timers E now ws r = Inr (dur, ws @ map snd ready, r')"
    "map_of ready = due now (timer_view items r)" "timers_ok E items r'"
    by (rule process_timers_ok)
  from h w obtain i v where v: "wakes_task E v cx" "timer_view items r (w, i) = Some v"
    by (auto simp: holds_for_def)
  with P(2) now have "map_of ready (w, i) = Some v" by (simp add: due_def)
  then have "((w, i), v) \<in> set ready" by (rule map_of_SomeD)
  then have "v \<in> set (ws @ map snd ready)" by force
  moreover obtain t' r'' where
    "timer_poll_next E now' cx' t r' = Some (Inr (fst (next_fire now' t), t', r''))"
    using P(3) by (rule timer_poll_next_out)
  then have "\<exists>t' r''. timer_poll_next E now' cx' t r' = Some (Inr (Poll_Ready (Some w), t', r''))"
    using w now later by (simp add: next_fire_def)
  ultimately show thesis using P v by (intro that [of dur "ws @ map snd ready" r']) blast+
qed

section \<open>Properties\<close>

text \<open>A timer operation has returned, and changed no entry but the timer's own.\<close>

definition only_own :: "('p, 'sw, 'ss, 'q, 'reg) crates \<Rightarrow> ('q \<Rightarrow> timer_op list) \<Rightarrow> timer \<Rightarrow>
    ('p, 'sw, 'ss, 'q, 'reg) reactor \<Rightarrow> timer \<Rightarrow> ('p, 'sw, 'ss, 'q, 'reg) reactor \<Rightarrow> bool" where
  "only_own E items t r t' r' \<longleftrightarrow> timers_ok E items r' \<and> same_io r r' \<and>
     release t' (timer_view items r') = release t (timer_view items r)"

lemma set_timer_only_own: "set_timer E items w p t r t' r' \<Longrightarrow> only_own E items t r t' r'"
  by (simp add: set_timer_def only_own_def)

lemma clear_only_own:
  assumes "timers_ok E items r"
  shows "\<exists>t' r'. timer_clear E t r = Some (Inr (t', r')) \<and> only_own E items t r t' r'"
proof -
  from assms obtain r' where
    "timer_clear E t r = Some (Inr (t\<lparr>timer_when := None\<rparr>, r'))"
    "timers_ok E items r'" "same_io r r'" "timer_view items r' = release t (timer_view items r)"
    by (rule timer_clear_cases)
  then show ?thesis by (simp add: only_own_def)
qed

text \<open>
  C13. Clearing, setting and polling a timer return, and leave every entry of the reactor's timers
  alone that the timer does not own; what it owned before is gone unless it owns it still.
\<close>

theorem timer_changes_only_own:
  assumes "timers_ok E items r" "fresh_id items r"
    and "registered earlier t (timer_view items r)" "earlier \<le> now"
  shows "(\<exists>t' r'. timer_clear E t r = Some (Inr (t', r')) \<and> only_own E items t r t' r') \<and>
    (\<exists>t' r'. timer_set_after E now d t r = Some (Inr (t', r')) \<and> only_own E items t r t' r') \<and>
    (\<exists>t' r'. timer_set_interval E now d t r = Some (Inr (t', r')) \<and> only_own E items t r t' r') \<and>
    (\<exists>res t' r'. timer_poll_next E now cx t r = Some (Inr (res, t', r')) \<and>
       only_own E items t r t' r')"
proof (intro conjI)
  note clear = clear_only_own [OF assms(1)]
  show "\<exists>t' r'. timer_clear E t r = Some (Inr (t', r')) \<and> only_own E items t r t' r'"
    by (rule clear)
  show "\<exists>t' r'. timer_set_after E now d t r = Some (Inr (t', r')) \<and> only_own E items t r t' r'"
  proof (cases "checked_add now d")
    case None
    with clear show ?thesis by (simp add: timer_set_after_def)
  next
    case (Some w)
    from assms(1,2) obtain t' r' where "timer_set_at E w t r = Some (Inr (t', r'))"
      "set_timer E items w (period t) t r t' r'" by (rule timer_set_at_cases)
    with Some set_timer_only_own show ?thesis by (auto simp: timer_set_after_def)
  qed
  show "\<exists>t' r'. timer_set_interval E now d t r = Some (Inr (t', r')) \<and> only_own E items t r t' r'"
  proof (cases "checked_add now d")
    case None
    with clear show ?thesis by (simp add: timer_set_interval_def)
  next
    case (Some w)
    from assms(1,2) obtain t' r' where "timer_set_interval_at E w d t r = Some (Inr (t', r'))"
      "set_timer E items w d t r t' r'" by (rule timer_set_interval_at_cases)
    with Some set_timer_only_own show ?thesis by (auto simp: timer_set_interval_def)
  qed
  from assms show "\<exists>res t' r'. timer_poll_next E now cx t r = Some (Inr (res, t', r')) \<and>
      only_own E items t r t' r'"
  proof (cases rule: timer_poll_next_cases [where cx = cx])
    case unset
    with assms(1) show ?thesis by (simp add: only_own_def)
  qed (simp_all add: only_own_def)
qed

text \<open>A timer of the concrete reactor that has been polled, and is registered for 50.\<close>

definition polled_timer :: timer where
  "polled_timer = \<lparr>id_and_waker = Some (1, 9), timer_when = Some 50, period = duration_max\<rparr>"

definition timer_reactor :: sim_reactor where
  "timer_reactor = (sim_reactor [] [])\<lparr>timer_ops := [Timer_Insert 50 1 9], id_generator := 2\<rparr>"

lemma timer_reactor_ok [simp]: "timers_ok sim id timer_reactor" "fresh_id id timer_reactor"
    "timer_view id timer_reactor = [(50, 1) \<mapsto> 9]"
    "registered 10 polled_timer (timer_view id timer_reactor)"
  by (simp_all add: timers_ok_def timer_reactor_def sim_reactor_def reactor_new_def fresh_id_def
      timer_view_def timer_queue_size_def registered_def polled_timer_def)

theorem timer_changes_only_own_witness:
  "\<exists>res t' r'. timer_poll_next sim 60 8 polled_timer timer_reactor = Some (Inr (res, t', r')) \<and>
     release t' (timer_view id r') = Map.empty"
proof -
  from timer_changes_only_own [OF timer_reactor_ok(1,2,4), of 60 0 8]
  obtain res t' r' where
    "timer_poll_next sim 60 8 polled_timer timer_reactor = Some (Inr (res, t', r'))"
    "only_own sim id polled_timer timer_reactor t' r'" by auto
  then show ?thesis by (auto simp: only_own_def polled_timer_def)
qed

text \<open>
  Dropping a timer returns and leaves exactly the other timers in the reactor.
\<close>

theorem timer_drop_releases:
  assumes "timers_ok E items r"
  shows "\<exists>r'. timer_drop E t r = Some (Inr r') \<and> timers_ok E items r' \<and>
    timer_view items r' = release t (timer_view items r)"
proof (cases "own_key t")
  case None
  with assms show ?thesis
    by (auto simp: timer_drop_def own_key_def split: option.splits)
next
  case (Some k)
  then obtain w i v where t: "timer_when t = Some w" "id_and_waker t = Some (i, v)" "k = (w, i)"
    by (auto simp: own_key_def split: option.splits)
  from assms obtain r' where "remove_timer E w i r = Some (Inr r')" "timers_ok E items r'"
    "timer_view items r' = (timer_view items r)((w, i) := None)" by (rule ts.remove_cases)
  with t show ?thesis by (simp add: timer_drop_def)
qed

theorem timer_drop_releases_witness:
  "\<exists>r'. timer_drop sim polled_timer timer_reactor = Some (Inr r') \<and> timer_view id r' = Map.empty"
  using timer_drop_releases [OF timer_reactor_ok(1), of polled_timer]
  by (auto simp: polled_timer_def)

text \<open>
  A timer that has been polled and waits is not forgotten: the first time the reactor processes
  its timers at or after the due instant it collects a waker of the polling task, and the poll
  that follows yields the due instant.
\<close>

theorem pending_timer_fires:
  assumes "timers_ok E items r" "fresh_id items r"
    and "registered earlier t (timer_view items r)" "earlier \<le> now"
    and "timer_poll_next E now cx t r = Some (Inr (Poll_Pending, t', r'))"
    and "timer_when t = Some w" "w \<le> now1" "now1 < instant_max" "now1 \<le> now2"
  shows "\<exists>dur ws' r2. process_timers E now1 ws r' = Inr (dur, ws', r2) \<and>
    (\<exists>v \<in> set ws'. wakes_task E v cx) \<and>
    (\<exists>t3 r3. timer_poll_next E now2 cx2 t' r2 = Some (Inr (Poll_Ready (Some w), t3, r3)))"
  using assms(1-4)
proof (cases rule: timer_poll_next_cases [where cx = cx])
  case unset
  with assms(6) show ?thesis by simp
next
  case (fired v t1 r1)
  with assms(5) show ?thesis by simp
next
  case (waits v t1 r1)
  with assms(5,6) have eqs: "t1 = t'" "r1 = r'" "v = w" by simp_all
  from waits(4,7,9) assms(7,8,9) obtain dur ws' r2 where
    "process_timers E now1 ws r' = Inr (dur, ws', r2)" "\<exists>v \<in> set ws'. wakes_task E v cx"
    "\<exists>t3 r3. timer_poll_next E now2 cx2 t' r2 = Some (Inr (Poll_Ready (Some w), t3, r3))"
    unfolding eqs by (rule registered_timer_fires [where ws = ws and cx' = cx2]) blast
  then show ?thesis by blast
qed

theorem pending_timer_fires_witness:
  "\<exists>dur ws' r2 t3 r3. process_timers sim 55 [] timer_reactor = Inr (dur, ws', r2) \<and>
     (\<exists>v \<in> set ws'. v = 9) \<and>
     timer_poll_next sim 60 9 polled_timer r2 = Some (Inr (Poll_Ready (Some 50), t3, r3))"
proof -
  have "timer_poll_next sim 20 9 polled_timer timer_reactor =
      Some (Inr (Poll_Pending, polled_timer, timer_reactor))"
    by (simp add: timer_poll_next_def polled_timer_def)
  from pending_timer_fires [OF timer_reactor_ok(1,2,4) _ this, of 50 55 60 "[]" 9]
  show ?thesis by (simp add: polled_timer_def early_instant wakes_task_def)
qed



text \<open>
  A timer made by \<open>after\<close> yields at most once however often it is polled, and what it yields
  is the instant the duration after its creation; beyond the clock's range it never yields.
\<close>

theorem after_yields_once:
  assumes "timers_ok E items r" "instant_min + int nanos_per_sec \<le> now"
  shows "\<exists>out t' r'. timer_polls E ps (timer_after now d) r = Some (Inr (out, t', r')) \<and>
    length out \<le> 1 \<and> list_all (\<lambda>(now', x). x = Some (now + int d) \<and> now + int d \<le> now') out \<and>
    (instant_max < now + int d \<longrightarrow> out = [])"
proof -
  let ?t = "timer_after now d"
  obtain out t' r' n where P: "timer_polls E ps ?t r = Some (Inr (out, t', r'))"
    "\<forall>(now, x) \<in> set out. \<exists>w. x = Some w \<and> w \<le> now"
    "map snd out = map (\<lambda>k. Some (the (timer_when ?t) + int (k * period ?t))) [0..<n]"
    "timer_when ?t = None \<longrightarrow> n = 0"
    "\<forall>w. timer_when ?t = Some w \<longrightarrow> checked_add w (period ?t) = None \<longrightarrow> n \<le> 1"
    using timer_polls_arithmetic [OF assms(1), of ps ?t] by (elim exE conjE) (rule that)
  have len: "length out = n" using arg_cong [OF P(3), of length] by simp
  show ?thesis
  proof (cases "now + int d \<le> instant_max")
    case False
    then have "timer_when ?t = None"
      by (simp add: timer_after_def checked_add_def timer_never_def)
    with P(1,4) len show ?thesis by auto
  next
    case True
    then have t: "timer_when ?t = Some (now + int d)" "period ?t = duration_max"
      by (simp_all add: timer_after_def checked_add_def timer_at_def timer_interval_at_def)
    have "instant_min + int nanos_per_sec \<le> now + int d" using assms(2) by simp
    then have "checked_add (now + int d) duration_max = None" by (rule checked_add_duration_max)
    with t P(5) have n: "n \<le> 1" by simp
    have "list_all (\<lambda>(now', x). x = Some (now + int d) \<and> now + int d \<le> now') out"
    proof (cases n)
      case 0
      with len show ?thesis by simp
    next
      case (Suc m)
      with n len obtain nx where out: "out = [nx]" by (cases out) auto
      with P(2,3) Suc n t show ?thesis by auto
    qed
    with P(1) len n True show ?thesis by auto
  qed
qed

theorem after_yields_once_witness:
  "\<exists>out t' r'. timer_polls sim [(40, 7), (60, 7), (70, 7)] (timer_after 10 50) timer_reactor =
      Some (Inr (out, t', r')) \<and> length out \<le> 1"
proof -
  have "instant_min + int nanos_per_sec \<le> 10" by (simp add: instant_min_def nanos_per_sec_def)
  from after_yields_once [OF timer_reactor_ok(1) this, of "[(40, 7), (60, 7), (70, 7)]" 50]
  show ?thesis by blast
qed

text \<open>
  Awaiting a timer never reaches its \<open>unreachable!()\<close> and completes exactly when the timer is
  due, with its due instant.
\<close>

theorem timer_poll_exact:
  assumes "timers_ok E items r"
  shows "\<exists>res t' r'. timer_poll E now cx t r = Some (Inr (res, t', r')) \<and>
    (\<forall>w. res = Poll_Ready w \<longleftrightarrow> timer_when t = Some w \<and> w \<le> now)"
proof -
  from assms obtain t' r' where
    P: "timer_poll_next E now cx t r = Some (Inr (fst (next_fire now t), t', r'))"
    by (rule timer_poll_next_out)
  show ?thesis
  proof (cases "\<exists>w. timer_when t = Some w \<and> w \<le> now")
    case True
    with P show ?thesis by (auto simp: timer_poll_def next_fire_def)
  next
    case False
    then have "fst (next_fire now t) = Poll_Pending"
      by (auto simp: next_fire_def split: option.splits)
    with P False show ?thesis by (auto simp: timer_poll_def)
  qed
qed

theorem timer_poll_exact_witness:
  "\<exists>res t' r'. timer_poll sim 60 8 polled_timer timer_reactor = Some (Inr (res, t', r')) \<and>
    res = Poll_Ready 50"
  using timer_poll_exact [OF timer_reactor_ok(1), of 60 8 polled_timer]
  by (auto simp: polled_timer_def)

text \<open>
  Setting a timer again keeps the task that waits for it: the waker of its last poll is
  registered at the new instant, so the reactor collects it when that instant has come.
\<close>

theorem set_at_keeps_waker:
  assumes "timers_ok E items r" "fresh_id items r" "id_and_waker t = Some (i, v)"
    and "w \<le> now" "now < instant_max"
  shows "\<exists>t' r' dur ws' r2. timer_set_at E w t r = Some (Inr (t', r')) \<and> timer_when t' = Some w \<and>
    process_timers E now ws r' = Inr (dur, ws', r2) \<and> v \<in> set ws'"
proof -
  from assms(1,2) obtain t' r' where S: "timer_set_at E w t r = Some (Inr (t', r'))"
    "set_timer E items w (period t) t r t' r'" by (rule timer_set_at_cases)
  from S(2) assms(3) obtain j where j: "id_and_waker t' = Some (j, v)"
    by (cases "id_and_waker t'") (auto simp: set_timer_def)
  with S(2) have view: "timer_view items r' (w, j) = Some v" and ok: "timers_ok E items r'"
    and w: "timer_when t' = Some w" by (auto simp: set_timer_def)
  from ok assms(5) obtain dur ready r2 where P:
    "process_timers E now ws r' = Inr (dur, ws @ map snd ready, r2)"
    "map_of ready = due now (timer_view items r')" by (rule process_timers_ok)
  with view assms(4) have "map_of ready (w, j) = Some v" by (simp add: due_def)
  then have "((w, j), v) \<in> set ready" by (rule map_of_SomeD)
  then have "v \<in> set (ws @ map snd ready)" by force
  with S(1) P(1) w show ?thesis by blast
qed

theorem set_at_keeps_waker_witness:
  "\<exists>t' r' dur ws' r2. timer_set_at sim 70 polled_timer timer_reactor = Some (Inr (t', r')) \<and>
    timer_when t' = Some 70 \<and> process_timers sim 75 [] r' = Inr (dur, ws', r2) \<and> 9 \<in> set ws'"
  using set_at_keeps_waker [OF timer_reactor_ok(1,2), of polled_timer 1 9 70 75 "[]"]
  by (simp add: polled_timer_def early_instant)

text \<open>
  C18. Setting an interval timer to one instant does not make it fire once, as the documentation of
  \<open>set_at\<close> and \<open>set_after\<close> says: the period stays, and after the instant it fires again.
\<close>

theorem set_at_fires_again:
  assumes "timers_ok E items r" "fresh_id items r"
    and "w \<le> now" "checked_add w (period t) = Some u"
  shows "\<exists>t' r' t2 r2. timer_set_at E w t r = Some (Inr (t', r')) \<and>
    timer_poll_next E now cx t' r' = Some (Inr (Poll_Ready (Some w), t2, r2)) \<and>
    timer_when t2 = Some u"
proof -
  from assms(1,2) obtain t' r' where S: "timer_set_at E w t r = Some (Inr (t', r'))"
    "set_timer E items w (period t) t r t' r'" by (rule timer_set_at_cases)
  then have t': "timers_ok E items r'" "timer_when t' = Some w" "period t' = period t"
    by (simp_all add: set_timer_def)
  from t'(1) obtain t2 r2 where
    "timer_poll_next E now cx t' r' = Some (Inr (fst (next_fire now t'), t2, r2))"
    "timer_when t2 = snd (next_fire now t')" by (rule timer_poll_next_out)
  with S(1) t' assms(3,4) show ?thesis by (simp add: next_fire_def)
qed

theorem set_at_fires_again_witness:
  "\<exists>t' r' t2 r2. timer_set_at sim 50 (timer_interval_at 60 40) timer_reactor = Some (Inr (t', r')) \<and>
    timer_poll_next sim 55 8 t' r' = Some (Inr (Poll_Ready (Some 50), t2, r2)) \<and>
    timer_when t2 = Some 90"
proof -
  have "checked_add 50 (period (timer_interval_at 60 40)) = Some 90"
    by (simp add: timer_interval_at_def checked_add_def instant_max_def nanos_per_sec_def)
  from set_at_fires_again [OF timer_reactor_ok(1,2) _ this, of 55 8] show ?thesis by simp
qed

text \<open>
  A cleared timer does not take note of the task that polls it: when it is set again it wakes
  the task of the poll before it was cleared.
\<close>

theorem cleared_timer_keeps_old_waker:
  assumes "timers_ok E items r" "fresh_id items r"
    and "timer_when t = None" "id_and_waker t = Some (i, v)"
  shows "timer_poll_next E now cx t r = Some (Inr (Poll_Pending, t, r)) \<and>
    (\<exists>t' r' j. timer_set_at E w t r = Some (Inr (t', r')) \<and> id_and_waker t' = Some (j, v) \<and>
       timer_view items r' (w, j) = Some v)"
proof -
  from assms(1,2) obtain t' r' where S: "timer_set_at E w t r = Some (Inr (t', r'))"
    "set_timer E items w (period t) t r t' r'" by (rule timer_set_at_cases)
  from S(2) assms(4) obtain j where "id_and_waker t' = Some (j, v)"
    by (cases "id_and_waker t'") (auto simp: set_timer_def)
  with S assms(3) show ?thesis by (auto simp: set_timer_def timer_poll_next_def)
qed

theorem cleared_timer_keeps_old_waker_witness:
  "timer_poll_next sim 20 8 (polled_timer\<lparr>timer_when := None\<rparr>) timer_reactor =
     Some (Inr (Poll_Pending, polled_timer\<lparr>timer_when := None\<rparr>, timer_reactor)) \<and>
   (\<exists>t' r' j. timer_set_at sim 70 (polled_timer\<lparr>timer_when := None\<rparr>) timer_reactor =
      Some (Inr (t', r')) \<and> timer_view id r' (70, j) = Some 9)"
  using cleared_timer_keeps_old_waker
    [OF timer_reactor_ok(1,2), of "polled_timer\<lparr>timer_when := None\<rparr>" 1 9 20 8 70]
  by (auto simp: polled_timer_def)

end
