(* ===== verification/Timers_System.thy ===== *)
theory Timers_System
  imports System Timer
begin

text \<open>
  Timers while other threads run: what the steps of the system of \<open>Rounds\<close> do to the registered
  timers and to the wakers that a round of the reactor has collected.
\<close>

section \<open>Wakers on their way\<close>

fun phase_wakers :: "phase \<Rightarrow> waker list" where
  "phase_wakers Idle = []"
| "phase_wakers (Waiting t tk ws) = ws"
| "phase_wakers (Delivering tk evs ws) = ws"

text \<open>
  A step carries the timers on when it forgets no waker: whoever waits still does, has been collected
  by the round, or is woken.
\<close>

definition carries :: "('q \<Rightarrow> timer_op list) \<Rightarrow> ('p, 'sw, 'ss, 'q, 'reg) sys \<Rightarrow> ('p, 'sw, 'ss, 'q, 'reg) sys \<Rightarrow> bool" where
  "carries items st st' \<longleftrightarrow> id_generator (sys_reactor st') = id_generator (sys_reactor st) \<and>
     (\<exists>ws. woken (sys_reactor st') = woken (sys_reactor st) @ ws \<and>
       set (phase_wakers (sys_phase st)) \<subseteq> set (phase_wakers (sys_phase st')) \<union> set ws \<and>
       (\<forall>k v. timer_view items (sys_reactor st) k = Some v \<longrightarrow> timer_view items (sys_reactor st') k = Some v \<or>
          v \<in> set (phase_wakers (sys_phase st')) \<union> set ws))"

text \<open>The operations that do not touch the timers.\<close>

definition keeps_timers :: "('p, 'sw, 'ss, 'q, 'reg) reactor \<Rightarrow> ('p, 'sw, 'ss, 'q, 'reg) reactor \<Rightarrow> bool" where
  "keeps_timers r r' \<longleftrightarrow> timers r' = timers r \<and> timer_ops r' = timer_ops r \<and> id_generator r' = id_generator r \<and>
     (\<exists>ws. woken r' = woken r @ ws)"

lemma keeps_timers_view: "keeps_timers r r' \<Longrightarrow> timer_view items r' = timer_view items r"
  by (simp add: keeps_timers_def timer_view_def)

lemma keeps_timers_put [simp]: "keeps_timers r (put_source a s r') \<longleftrightarrow> keeps_timers r r'"
  by (simp add: keeps_timers_def put_source_def)

lemma keeps_timers_upd [simp]:
  "keeps_timers r (r\<lparr>poller := p\<rparr>)" "keeps_timers r (r\<lparr>poller := p, woken := woken r @ ws\<rparr>)"
  "keeps_timers r (r\<lparr>poller := p, woken := woken r\<rparr>)" "keeps_timers r r" "keeps_timers r (r\<lparr>sources := ss, poller := p\<rparr>)"
  "keeps_timers r (r\<lparr>sources := ss, heap := h, next_addr := n, poller := p\<rparr>)" "keeps_timers r (r\<lparr>events := evs, poller := p\<rparr>)"
  "keeps_timers r (wake_all ws r)"
  by (simp_all add: keeps_timers_def wake_all_def)

lemma carries_keeps:
  assumes "keeps_timers (sys_reactor st) (sys_reactor st')"
    and "set (phase_wakers (sys_phase st)) \<subseteq> set (phase_wakers (sys_phase st'))"
  shows "carries items st st'"
  using assms keeps_timers_view [OF assms(1)] by (auto simp: carries_def keeps_timers_def)

lemma insert_io_keeps_timers:
  assumes ok: "reactor_ok E items r" and ins: "insert_io E g r = Inr (res, r')"
  shows "keeps_timers r r'"
proof -
  note P = reactor_ok_parts [OF ok]
  from P(2,4,3) show ?thesis by (cases rule: insert_io_cases [where g = g]) (use ins in auto)
qed

lemma poll_source_keeps_timers:
  assumes "reactor_ok E items r" "live E r x s" "poll_source E d cx x r = Inr (res, r')"
  shows "keeps_timers r r'"
  using assms(1,2) by (cases rule: poll_source_cases [where d = d and cx = cx]) (use assms(3) in auto)

text \<open>What a round does to the timers.\<close>

lemma prepare_carries:
  assumes ok: "timers_ok E items (sys_reactor st)" and now: "now < instant_max" and idle: "sys_phase st = Idle"
    and prep: "react_prepare E now timeout (sys_reactor st) = Inr (t, tk, ws, r')"
    and st': "sys_reactor st' = r'" "sys_phase st' = Waiting t tk ws"
  shows "carries items st st'"
  using ok now
proof (cases rule: react_prepare_ok [where timeout = timeout])
  case (1 dur ready r1)
  with prep have eqs: "r1 = r'" "ws = map snd ready" by auto
  have "timer_view items r' k = Some v \<or> v \<in> set ws" if "timer_view items (sys_reactor st) k = Some v" for k v
  proof (cases "fst k \<le> now")
    case True
    with 1(3) that have "map_of ready k = Some v" by (cases k) (simp add: due_def)
    then show ?thesis using eqs map_of_SomeD [of ready k v] by force
  next
    case False
    with 1(4) that eqs show ?thesis by (cases k) (simp add: not_due_def)
  qed
  then show ?thesis using 1 eqs idle st' by (auto simp: carries_def)
qed

lemma finish_carries:
  assumes ok: "reactor_ok E items (sys_reactor st)" and now: "now < instant_max" and wait: "sys_phase st = Waiting t tk ws"
    and r1: "react_wait E t (sys_reactor st) = (res, r1)" "\<forall>n. res \<noteq> Inr (Suc n)"
    and fin: "react_finish E now t tk ws res r1 = Inr (out, r')" and st': "sys_reactor st' = r'"
  shows "carries items st st'"
proof -
  note W = wait_buffer [OF r1(1) ok]
  have keep: "timer_view items r1 = timer_view items (sys_reactor st)" "woken r1 = woken (sys_reactor st)"
    "id_generator r1 = id_generator (sys_reactor st)"
    by (subst W(2), simp add: timer_view_def)+
  have woke: "carries items st st'" if "wake_all ws r1 = r'"
    unfolding carries_def st'(1) that [symmetric] using keep wait by simp
  from W(1) now show ?thesis
  proof (cases rule: react_finish_cases [where t = t and tk = tk and ws = ws and res = res])
    case (idle ready r2)
    with fin have r': "r2 = r'" by simp
    have "timer_view items r' k = Some v \<or> v \<in> set (map snd ready)" if "timer_view items (sys_reactor st) k = Some v" for k v
    proof (cases "fst k \<le> now")
      case True
      with idle(6) that keep(1) have "map_of ready k = Some v" by (cases k) (simp add: due_def)
      then show ?thesis using map_of_SomeD [of ready k v] by force
    next
      case False
      with idle(5) that keep(1) r' show ?thesis by (cases k) (simp add: not_due_def)
    qed
    then show ?thesis using idle keep r' wait st' by (auto simp: carries_def)
  next
    case (served n ws' r2)
    with r1(2) show ?thesis by (cases n) auto
  next
    case (lost n e ws' r2)
    with r1(2) show ?thesis by (cases n) auto
  qed (use fin woke in auto)
qed

lemma event_carries:
  assumes ok: "reactor_ok E items (sys_reactor st)" and ph: "sys_phase st = Delivering tk (ev # evs) ws"
    and del: "deliver_events E tk [ev] ws (sys_reactor st) = (Inr (), ws', r')"
    and st': "sys_reactor st' = r'" "sys_phase st' = Delivering tk evs ws'"
  shows "carries items st st'"
proof -
  note P = reactor_ok_parts [OF ok]
  have "set ws \<subseteq> set ws'" using deliver_events_ok [OF P(3,2) del] by blast
  moreover have "keeps_timers (sys_reactor st) r'"
    using P(2) del by (cases rule: deliver_one_cases) auto
  ultimately show ?thesis using ph st' by (intro carries_keeps) auto
qed

section \<open>The steps\<close>

text \<open>
  A step carries the timers on, or it is a call of \<open>insert_timer\<close> or \<open>remove_timer\<close>, or the one that leaves
  the loop over the events with an error.
\<close>

definition round_failed :: "('p, 'sw, 'ss, 'q, 'reg) sys \<Rightarrow> ('p, 'sw, 'ss, 'q, 'reg) sys \<Rightarrow> bool" where
  "round_failed st st' \<longleftrightarrow> (\<exists>tk ev evs ws. sys_phase st = Delivering tk (ev # evs) ws \<and> sys_phase st' = Idle)"

lemma step_timer_cases:
  assumes step: "sys_step E io st st'" and ok: "sys_ok E items st"
  obtains (carried) "carries items st st'"
  | (inserted) t w i r' where "insert_timer E t w (sys_reactor st) = Some (Inr (i, r'))" "st' = st\<lparr>sys_reactor := r'\<rparr>"
  | (removed) t i r' where "remove_timer E t i (sys_reactor st) = Some (Inr r')" "st' = st\<lparr>sys_reactor := r'\<rparr>"
  | (failed) "round_failed st st'" "keeps_timers (sys_reactor st) (sys_reactor st')"
proof -
  from ok have R: "reactor_ok E items (sys_reactor st)" and F: "futures_ok E st" by (simp_all add: sys_ok_def)
  note P = reactor_ok_parts [OF R]
  have keep: thesis if "keeps_timers (sys_reactor st) (sys_reactor st')" "phase_wakers (sys_phase st') = phase_wakers (sys_phase st)"
    using that by (intro carried carries_keeps) simp_all
  from step show thesis
  proof (cases rule: sys_step.cases)
    case (step_io p)
    then show thesis by (intro keep) simp_all
  next
    case (step_open g res r')
    with insert_io_keeps_timers [OF R step_open(2)] show thesis by (intro keep) simp_all
  next
    case (step_close a s res r')
    from R step_close(2,4) obtain p ss where "r' = (sys_reactor st)\<lparr>sources := ss, poller := p\<rparr>" by (rule remove_io_frame)
    with step_close(1) show thesis by (intro keep) simp_all
  next
    case (step_poll a s d cx res r')
    with poll_source_keeps_timers [OF R step_poll(2,3)] show thesis by (intro keep) simp_all
  next
    case (step_future_new a s i d)
    then show thesis by (intro keep) simp_all
  next
    case (step_future_poll i a f s cx res f' r')
    from futures_okD [OF F step_future_poll(2)] live_unique [OF step_future_poll(3)]
    have "future_ok E f (rf_dir f) s" by blast
    with R step_future_poll(3,4) obtain s' p where "r' = put_source a s' ((sys_reactor st)\<lparr>poller := p, woken := woken (sys_reactor st)\<rparr>)"
      by (elim poll_future_store) blast
    with step_future_poll(1) show thesis by (intro keep) simp_all
  next
    case (step_future_drop i a f r')
    from futures_okD [OF F step_future_drop(2)] obtain s where "live E (sys_reactor st) a s" by blast
    with R obtain s' where "r' = put_source a s' (sys_reactor st)"
      by (rule drop_future_cases [where f = f]) (use step_future_drop(3) in simp)
    with step_future_drop(1) show thesis by (intro keep) simp_all
  next
    case (step_timer_insert t w i r')
    then show thesis by (intro inserted) simp_all
  next
    case (step_timer_remove t i r')
    then show thesis by (intro removed) simp_all
  next
    case (step_prepare now timeout t tk ws r')
    from prepare_carries [OF P(1) step_prepare(3,2,4), of st'] step_prepare(1) show thesis by (intro carried) simp
  next
    case (step_wait t tk ws n r')
    note W = wait_buffer(2) [OF step_wait(3) R]
    have "keeps_timers (sys_reactor st) r'" by (subst W) (rule keeps_timers_upd)
    with step_wait(1,2) show thesis by (intro carried carries_keeps) simp_all
  next
    case (step_quiet t tk ws now res r1 out r')
    from finish_carries [OF R step_quiet(3,2,4,5,6), of st'] step_quiet(1) show thesis by (intro carried) simp
  next
    case (step_event tk ev evs ws ws' r')
    from event_carries [OF R step_event(2,3), of st'] step_event(1) show thesis by (intro carried) simp
  next
    case (step_event_failed tk ev evs ws e ws' r')
    have "keeps_timers (sys_reactor st) r'"
      using P(2) step_event_failed(3) by (cases rule: deliver_one_cases) auto
    with step_event_failed show thesis by (intro failed) (auto simp: round_failed_def)
  next
    case (step_done tk ws)
    then show thesis by (intro carried) (auto simp: carries_def)
  qed
qed

section \<open>A waiting timer among other threads\<close>

text \<open>
  A step that spares the entry \<open>k\<close>: it is not the removal of \<open>k\<close>, which only the timer's owner asks for,
  does not hand out the identifier of \<open>k\<close> once more, which takes \<open>2 ^ 64\<close> timers, and does not leave the
  loop over the events with an error in a round that has collected its waker \<open>v\<close>.
\<close>

definition spares :: "('p, 'sw, 'ss, 'q, 'reg) crates \<Rightarrow> ('p \<Rightarrow> 'p \<Rightarrow> bool) \<Rightarrow> timer_key \<Rightarrow> waker \<Rightarrow>
    ('p, 'sw, 'ss, 'q, 'reg) sys \<Rightarrow> ('p, 'sw, 'ss, 'q, 'reg) sys \<Rightarrow> bool" where
  "spares E io k v st st' \<longleftrightarrow> sys_step E io st st' \<and>
     \<not> (round_failed st st' \<and> v \<in> set (phase_wakers (sys_phase st))) \<and>
     remove_timer E (fst k) (snd k) (sys_reactor st) \<noteq> Some (Inr (sys_reactor st')) \<and>
     (id_generator (sys_reactor st) = snd k \<longrightarrow> id_generator (sys_reactor st') = snd k)"

text \<open>The waker \<open>v\<close> of the entry \<open>k\<close> is still registered, or collected, or woken after the first \<open>n\<close> calls of \<open>wake\<close>.\<close>

definition on_its_way :: "('q \<Rightarrow> timer_op list) \<Rightarrow> nat \<Rightarrow> timer_key \<Rightarrow> waker \<Rightarrow> ('p, 'sw, 'ss, 'q, 'reg) sys \<Rightarrow> bool" where
  "on_its_way items n k v st \<longleftrightarrow> timer_view items (sys_reactor st) k = Some v \<or>
     v \<in> set (phase_wakers (sys_phase st)) \<or> v \<in> set (drop n (woken (sys_reactor st)))"

lemma same_io_woken: "same_io r r' \<Longrightarrow> woken r' = woken r"
  by (simp add: same_io_def)

lemma spares_step:
  assumes step: "spares E io k v st st'" and ok: "sys_ok E items st" and n: "n \<le> length (woken (sys_reactor st))"
    and way: "on_its_way items n k v st"
  shows "on_its_way items n k v st' \<and> n \<le> length (woken (sys_reactor st'))"
proof -
  from ok have T: "timers_ok E items (sys_reactor st)" using reactor_ok_parts(1) by (auto simp: sys_ok_def)
  from step have S: "sys_step E io st st'" "round_failed st st' \<Longrightarrow> v \<notin> set (phase_wakers (sys_phase st))"
    by (auto simp: spares_def)
  from S(1) ok show ?thesis
  proof (cases rule: step_timer_cases)
    case carried
    then obtain ws where C: "woken (sys_reactor st') = woken (sys_reactor st) @ ws"
      "set (phase_wakers (sys_phase st)) \<subseteq> set (phase_wakers (sys_phase st')) \<union> set ws"
      "\<forall>k v. timer_view items (sys_reactor st) k = Some v \<longrightarrow> timer_view items (sys_reactor st') k = Some v \<or>
         v \<in> set (phase_wakers (sys_phase st')) \<union> set ws" by (auto simp: carries_def)
    have "drop n (woken (sys_reactor st')) = drop n (woken (sys_reactor st)) @ ws" using C(1) n by simp
    then show ?thesis using way n C unfolding on_its_way_def by (auto simp del: split_paired_All)
  next
    case (inserted t w i r')
    from T obtain r1 where "insert_timer E t w (sys_reactor st) = Some (Inr (id_generator (sys_reactor st), r1))"
      "timer_view items r1 = (timer_view items (sys_reactor st))((t, id_generator (sys_reactor st)) \<mapsto> w)"
      "id_generator r1 = id_generator (sys_reactor st) + 1" "same_io (sys_reactor st) r1" by (rule ts.insert_cases)
    with inserted have r': "timer_view items r' = (timer_view items (sys_reactor st))((t, id_generator (sys_reactor st)) \<mapsto> w)"
      "id_generator r' = id_generator (sys_reactor st) + 1" "woken r' = woken (sys_reactor st)" using same_io_woken by auto
    have "id_generator (sys_reactor st) \<noteq> snd k" using step r'(2) inserted(2) by (auto simp: spares_def)
    then show ?thesis using way n r' inserted(2) by (auto simp: on_its_way_def)
  next
    case (removed t i r')
    from T obtain r1 where "remove_timer E t i (sys_reactor st) = Some (Inr r1)"
      "timer_view items r1 = (timer_view items (sys_reactor st))((t, i) := None)" "same_io (sys_reactor st) r1"
      by (rule ts.remove_cases)
    with removed have r': "timer_view items r' = (timer_view items (sys_reactor st))((t, i) := None)"
      "woken r' = woken (sys_reactor st)" using same_io_woken by auto
    have "(t, i) \<noteq> k" using step removed by (auto simp: spares_def)
    then show ?thesis using way n r' removed(2) by (auto simp: on_its_way_def)
  next
    case failed
    from failed(2) obtain ws where "woken (sys_reactor st') = woken (sys_reactor st) @ ws" by (auto simp: keeps_timers_def)
    then show ?thesis
      using way n S(2) [OF failed(1)] keeps_timers_view [OF failed(2), of items] by (auto simp: on_its_way_def)
  qed
qed

lemma spares_steps: "(spares E io k v)\<^sup>*\<^sup>* st st' \<Longrightarrow> sys_steps E io st st'"
  by (induction rule: rtranclp_induct) (auto simp: spares_def intro: steps_refl steps_step)

lemma spares_run:
  assumes "(spares E io k v)\<^sup>*\<^sup>* st st'" "sys_ok E items st" "n \<le> length (woken (sys_reactor st))" "on_its_way items n k v st"
  shows "on_its_way items n k v st' \<and> n \<le> length (woken (sys_reactor st'))"
  using assms(1)
proof (induction rule: rtranclp_induct)
  case (step st1 st2)
  with spares_step [OF step(2) sys_ok_steps [OF spares_steps [OF step(1)] assms(2)]] show ?case by blast
qed (use assms(3,4) in simp)

text \<open>The poll of a timer is a run: at most one removal and one insertion.\<close>

lemma timer_poll_run:
  assumes poll: "timer_poll_next E now cx t (sys_reactor st) = Some (Inr (res, t', r'))"
  shows "sys_steps E io st (st\<lparr>sys_reactor := r'\<rparr>)"
proof -
  have ins: "sys_steps E io st (st\<lparr>sys_reactor := r2\<rparr>)"
    if "sys_steps E io st (st\<lparr>sys_reactor := r1\<rparr>)" "insert_timer E u w r1 = Some (Inr (i, r2))" for r1 u w i r2
    using steps_step [OF that(1) step_timer_insert [of E u w "st\<lparr>sys_reactor := r1\<rparr>" i r2]] that(2) by simp
  have rem: "sys_steps E io st (st\<lparr>sys_reactor := r1\<rparr>)" if "remove_timer E u i (sys_reactor st) = Some (Inr r1)" for u i r1
    using steps_one [OF step_timer_remove [of E u i st r1]] that by simp
  have refl: "sys_steps E io st (st\<lparr>sys_reactor := sys_reactor st\<rparr>)" by (simp add: steps_refl)
  consider "r' = sys_reactor st" | u i where "remove_timer E u i (sys_reactor st) = Some (Inr r')"
    | u w i where "insert_timer E u w (sys_reactor st) = Some (Inr (i, r'))"
    | u i r1 v w j where "remove_timer E u i (sys_reactor st) = Some (Inr r1)" "insert_timer E v w r1 = Some (Inr (j, r'))"
    using poll
    by (auto simp: timer_poll_next_def obind_eq_Some_Inr Let_def split: option.splits prod.splits if_splits)
  then show ?thesis
  proof cases
    case 1
    with refl show ?thesis by simp
  next
    case 2
    then show ?thesis by (rule rem)
  next
    case 3
    with refl show ?thesis by (rule ins)
  next
    case 4
    from rem [OF 4(1)] 4(2) show ?thesis by (rule ins)
  qed
qed

lemma registered_is_collected:
  assumes "timers_ok E items r" "timer_view items r (w, i) = Some v" "w \<le> now" "now < instant_max"
  shows "\<exists>tm tk ws r'. react_prepare E now timeout r = Inr (tm, tk, ws, r') \<and> v \<in> set ws"
  using assms(1,4)
proof (cases rule: react_prepare_ok [where timeout = timeout])
  case (1 dur ready r1)
  with assms(2,3) have "map_of ready (w, i) = Some v" by (simp add: due_def)
  then have "v \<in> set (map snd ready)" using map_of_SomeD [of ready "(w, i)" v] by force
  with 1(1) show ?thesis by simp
qed

section \<open>Properties\<close>

text \<open>
  C12. A waiting timer among other threads. When a poll of a timer is pending in a reachable state, it
  is itself a run of the system, and a waker of the task is registered; after any further run, in
  which other threads and the rounds of the reactor do what they like, that waker is still
  registered, or has been collected by the round at hand, or has been woken. A round that starts
  at or after the timer's instant collects it, and from then on a poll yields. The run may do
  anything but three things. A round that has collected the waker does not end with an error
  between its events (then the waker is lost, as C10 shows); the timer's owner does not remove the entry; and
  the entry's 64-bit identifier is not given out again while the entry is registered. Before the poll,
  the timer's entry, if it has one, is registered, and the next identifier is unused.
\<close>

theorem waiting_timer_is_woken:
  assumes "crates_ok E items" "sys_steps E io (sys_init E p) st"
    and "fresh_id items (sys_reactor st)" "registered earlier t (timer_view items (sys_reactor st))" "earlier \<le> now"
    and "timer_poll_next E now cx t (sys_reactor st) = Some (Inr (Poll_Pending, t', r'))" "timer_when t = Some w"
  shows "sys_steps E io st (st\<lparr>sys_reactor := r'\<rparr>) \<and>
    (\<exists>i v. id_and_waker t' = Some (i, v) \<and> wakes_task E v cx \<and>
      (\<forall>st2. (spares E io (w, i) v)\<^sup>*\<^sup>* (st\<lparr>sys_reactor := r'\<rparr>) st2 \<longrightarrow>
         on_its_way items (length (woken r')) (w, i) v st2 \<and>
         (\<forall>now' timeout. w \<le> now' \<and> now' < instant_max \<and> timer_view items (sys_reactor st2) (w, i) = Some v \<longrightarrow>
            (\<exists>tm tk ws r2. react_prepare E now' timeout (sys_reactor st2) = Inr (tm, tk, ws, r2) \<and> v \<in> set ws)) \<and>
         (\<forall>now' cx'. w \<le> now' \<longrightarrow> (\<exists>t2 r2. timer_poll_next E now' cx' t' (sys_reactor st2) =
            Some (Inr (Poll_Ready (Some w), t2, r2))))))"
proof -
  let ?st = "st\<lparr>sys_reactor := r'\<rparr>"
  have run: "sys_steps E io st ?st" by (rule timer_poll_run [OF assms(6)])
  have ok0: "sys_ok E items st" by (rule sys_ok_steps [OF assms(2) sys_ok_init [OF assms(1)]])
  then have ok: "sys_ok E items ?st" by (rule sys_ok_steps [OF run])
  have T: "timers_ok E items (sys_reactor st2)" if "sys_ok E items st2" for st2 :: "('a, 'b, 'c, 'd, 'e) sys"
    using that reactor_ok_parts(1) by (auto simp: sys_ok_def)
  from T [OF ok0] assms(3-5) obtain i v where
    H: "timer_when t' = Some w" "id_and_waker t' = Some (i, v)" "wakes_task E v cx" "timer_view items r' (w, i) = Some v"
    by (cases rule: timer_poll_next_cases [where cx = cx]) (use assms(6,7) in \<open>auto simp: holds_for_def\<close>)
  have "on_its_way items (length (woken r')) (w, i) v ?st" using H(4) by (simp add: on_its_way_def)
  then have way: "on_its_way items (length (woken r')) (w, i) v st2" "timers_ok E items (sys_reactor st2)"
    if "(spares E io (w, i) v)\<^sup>*\<^sup>* ?st st2" for st2
    using spares_run [OF that ok] T [OF sys_ok_steps [OF spares_steps [OF that] ok]] by simp_all
  have yields: "\<exists>t2 r2. timer_poll_next E now' cx' t' r2' = Some (Inr (Poll_Ready (Some w), t2, r2))"
    if "timers_ok E items r2'" "w \<le> now'" for r2' now' cx'
    using that(1) by (rule timer_poll_next_out [where now = now' and cx = cx' and t = t'])
      (use H(1) that(2) in \<open>simp add: next_fire_def\<close>)
  show ?thesis using run H way registered_is_collected yields by blast
qed

theorem waiting_timer_is_woken_witness:
  "\<exists>t' r' i. timer_poll_next sim 20 9 (timer_at 50) (reactor_new sim (sim_poller_new [] [])) = Some (Inr (Poll_Pending, t', r')) \<and>
     (\<exists>tm tk ws r2. react_prepare sim 60 None r' = Inr (tm, tk, ws, r2) \<and> 9 \<in> set ws)"
proof -
  let ?st = "sys_init sim (sim_poller_new [] [])"
  have r: "sys_reactor ?st = reactor_new sim (sim_poller_new [] [])" by (simp add: sys_init_def)
  have T: "timers_ok sim id (sys_reactor ?st)"
    using reactor_ok_parts(1) [OF reactor_ok_new(1) [OF sim_ok]] unfolding r by blast
  have V: "timer_view id (sys_reactor ?st) = Map.empty"
    by (simp add: timer_view_def sys_init_def reactor_new_def sim_def sim_queue_def updates_def)
  have fresh: "fresh_id id (sys_reactor ?st)" and reg: "registered 20 (timer_at 50) (timer_view id (sys_reactor ?st))"
    by (simp_all add: fresh_id_def V registered_def timer_at_def timer_interval_at_def)
  obtain t' r' where poll: "timer_poll_next sim 20 9 (timer_at 50) (sys_reactor ?st) = Some (Inr (Poll_Pending, t', r'))"
    using T by (rule timer_poll_next_out [where now = 20 and cx = 9 and t = "timer_at 50"])
      (simp add: next_fire_def timer_at_def timer_interval_at_def)
  have "timer_when (timer_at 50) = Some 50" by (simp add: timer_at_def timer_interval_at_def)
  from waiting_timer_is_woken [OF sim_ok steps_refl fresh reg order_refl poll this, where io = sim_io] obtain i v where
    W: "wakes_task sim v 9" "(spares sim sim_io (50, i) v)\<^sup>*\<^sup>* (?st\<lparr>sys_reactor := r'\<rparr>) (?st\<lparr>sys_reactor := r'\<rparr>) \<Longrightarrow>
      on_its_way id (length (woken r')) (50, i) v (?st\<lparr>sys_reactor := r'\<rparr>) \<and>
      (\<forall>now' timeout. 50 \<le> now' \<and> now' < instant_max \<and> timer_view id r' (50, i) = Some v \<longrightarrow>
         (\<exists>tm tk ws r2. react_prepare sim now' timeout r' = Inr (tm, tk, ws, r2) \<and> v \<in> set ws))"
    by auto
  then have "timer_view id r' (50, i) = Some v" by (simp add: on_its_way_def sys_init_def)
  moreover have "v = 9" using W(1) by (simp add: wakes_task_def sim_def)
  moreover have "(60 :: instant) < instant_max" by (simp add: early_instant)
  ultimately show ?thesis using W(2) poll unfolding r by auto
qed

end
