(* ===== verification/Handles_System.thy ===== *)
theory Handles_System
  imports System
begin

text \<open>
  Handles in the concurrent system. Programs own \<open>Async\<close> handles: they create them, write through
  them, give them up, and in between tasks poll and the reactor runs, in any order. The steps here
  are the operations on handles of \<open>Async\<close> and the steps of \<open>Rounds\<close>. Each is a run of the system
  of \<open>Rounds\<close>, and in every reachable state handles, sources and descriptors correspond.
\<close>

section \<open>Programs\<close>

text \<open>
  The handles are numbered by their owners. \<open>pg_stuck\<close> are the registrations that the poller has
  refused to delete and that no later handle has taken over.
\<close>

record ('h, 'p, 'sw, 'ss, 'q, 'reg) program =
  pg_sys :: "('p, 'sw, 'ss, 'q, 'reg) sys"
  pg_handles :: "nat \<Rightarrow> 'h async option"
  pg_stuck :: "'reg set"

definition with_reactor :: "('p, 'sw, 'ss, 'q, 'reg) reactor \<Rightarrow> ('h, 'p, 'sw, 'ss, 'q, 'reg) program \<Rightarrow>
    ('h, 'p, 'sw, 'ss, 'q, 'reg) program" where
  "with_reactor r g = g\<lparr>pg_sys := (pg_sys g)\<lparr>sys_reactor := r\<rparr>\<rparr>"

abbreviation pg_reactor :: "('h, 'p, 'sw, 'ss, 'q, 'reg) program \<Rightarrow> ('p, 'sw, 'ss, 'q, 'reg) reactor" where
  "pg_reactor g \<equiv> sys_reactor (pg_sys g)"

abbreviation handle_registration :: "('h, 'fd, 'reg, 'p) os_calls \<Rightarrow> 'h \<Rightarrow> 'reg" where
  "handle_registration S h \<equiv> os_registration S (os_as_fd S h)"

text \<open>
  The operating system gives a descriptor out once, until it is closed: a handle that is about to
  be created has a descriptor that no other handle has.
\<close>

definition fresh_handle :: "('h, 'fd, 'reg, 'p) os_calls \<Rightarrow> 'h \<Rightarrow> ('h, 'p, 'sw, 'ss, 'q, 'reg) program \<Rightarrow> bool" where
  "fresh_handle S h g \<longleftrightarrow> (\<forall>i a k. pg_handles g i = Some a \<longrightarrow> as_io a = Some k \<longrightarrow> os_as_fd S k \<noteq> os_as_fd S h)"

text \<open>A readiness future borrows its handle, or shares its ownership: no handle goes before its futures.\<close>

definition unborrowed :: "'h async \<Rightarrow> ('h, 'p, 'sw, 'ss, 'q, 'reg) program \<Rightarrow> bool" where
  "unborrowed a g \<longleftrightarrow> (\<forall>i b f. sys_futures (pg_sys g) i = Some (b, f) \<longrightarrow> b \<noteq> as_source a)"

text \<open>The registration that stays behind when the poller refuses to delete it.\<close>

definition left_behind :: "('p, 'sw, 'ss, 'q, 'reg) crates \<Rightarrow> 'h async \<Rightarrow> ('p, 'sw, 'ss, 'q, 'reg) reactor \<Rightarrow> 'reg set" where
  "left_behind E a r = (case deref (as_source a) r of
       Inl _ \<Rightarrow> {}
     | Inr s \<Rightarrow> (case remove_io E s r of Inr (Inl e, _) \<Rightarrow> {registration s} | _ \<Rightarrow> {}))"

text \<open>The key of a source that is closed is no longer one that has lost its registration.\<close>

definition forget_key :: "'h async \<Rightarrow> ('p, 'sw, 'ss, 'q, 'reg) sys \<Rightarrow> slab_key set" where
  "forget_key a st = sys_lost st - (case deref (as_source a) (sys_reactor st) of Inl _ \<Rightarrow> {} | Inr s \<Rightarrow> {src_key s})"

definition closing :: "('p, 'sw, 'ss, 'q, 'reg) reactor \<Rightarrow> 'h async \<Rightarrow> ('h, 'p, 'sw, 'ss, 'q, 'reg) program \<Rightarrow>
    ('h, 'p, 'sw, 'ss, 'q, 'reg) program" where
  "closing r a g = g\<lparr>pg_sys := (pg_sys g)\<lparr>sys_reactor := r, sys_lost := forget_key a (pg_sys g)\<rparr>\<rparr>"

inductive life_step :: "('h, 'fd, 'reg, 'p) os_calls \<Rightarrow> ('p, 'sw, 'ss, 'q, 'reg) crates \<Rightarrow> ('p \<Rightarrow> 'p \<Rightarrow> bool) \<Rightarrow>
    ('h, 'p, 'sw, 'ss, 'q, 'reg) program \<Rightarrow> ('h, 'p, 'sw, 'ss, 'q, 'reg) program \<Rightarrow> bool"
  for S :: "('h, 'fd, 'reg, 'p) os_calls" and E :: "('p, 'sw, 'ss, 'q, 'reg) crates" and io :: "'p \<Rightarrow> 'p \<Rightarrow> bool" where
  life_new: "fresh_handle S h g \<Longrightarrow> pg_handles g i = None \<Longrightarrow>
     async_new S E h (pg_reactor g) = Inr (Inr a, r') \<or> async_new_nonblocking S E h (pg_reactor g) = Inr (Inr a, r') \<Longrightarrow>
     life_step S E io g (with_reactor r' g\<lparr>pg_handles := (pg_handles g)(i \<mapsto> a),
       pg_stuck := pg_stuck g - {handle_registration S h}\<rparr>)"
| life_new_failed: "fresh_handle S h g \<Longrightarrow>
     async_new S E h (pg_reactor g) = Inr (Inl e, r') \<or> async_new_nonblocking S E h (pg_reactor g) = Inr (Inl e, r') \<Longrightarrow>
     life_step S E io g (with_reactor r' g)"
| life_write: "pg_handles g i = Some a \<Longrightarrow> async_get_mut a = Inr (h, put) \<Longrightarrow> os_as_fd S h' = os_as_fd S h \<Longrightarrow>
     life_step S E io g (g\<lparr>pg_handles := (pg_handles g)(i \<mapsto> put h')\<rparr>)"
| life_drop: "pg_handles g i = Some a \<Longrightarrow> unborrowed a g \<Longrightarrow> async_drop S E a (pg_reactor g) = Inr r' \<Longrightarrow>
     life_step S E io g (closing r' a g\<lparr>pg_handles := (pg_handles g)(i := None),
       pg_stuck := pg_stuck g \<union> left_behind E a (pg_reactor g)\<rparr>)"
| life_into_inner: "pg_handles g i = Some a \<Longrightarrow> unborrowed a g \<Longrightarrow> async_into_inner S E a (pg_reactor g) = Inr (res, r') \<Longrightarrow>
     life_step S E io g (closing r' a g\<lparr>pg_handles := (pg_handles g)(i := None),
       pg_stuck := pg_stuck g \<union> left_behind E a (pg_reactor g)\<rparr>)"
| life_other: "sys_step E io (pg_sys g) st' \<Longrightarrow> sources (sys_reactor st') = sources (pg_reactor g) \<Longrightarrow>
     life_step S E io g (g\<lparr>pg_sys := st'\<rparr>)"

text \<open>Reachability. A program begins with the reactor and without handles.\<close>

definition program_init :: "('p, 'sw, 'ss, 'q, 'reg) crates \<Rightarrow> 'p \<Rightarrow> ('h, 'p, 'sw, 'ss, 'q, 'reg) program" where
  "program_init E p = \<lparr>pg_sys = sys_init E p, pg_handles = (\<lambda>_. None), pg_stuck = {}\<rparr>"

inductive_cases life_stepE: "life_step S E io g g'"

lemma with_reactor_simps [simp]:
  "pg_sys (with_reactor r g) = (pg_sys g)\<lparr>sys_reactor := r\<rparr>"
  "pg_handles (with_reactor r g) = pg_handles g" "pg_stuck (with_reactor r g) = pg_stuck g"
  by (simp_all add: with_reactor_def)

lemma closing_simps [simp]:
  "pg_sys (closing r a g) = (pg_sys g)\<lparr>sys_reactor := r, sys_lost := forget_key a (pg_sys g)\<rparr>"
  "pg_handles (closing r a g) = pg_handles g" "pg_stuck (closing r a g) = pg_stuck g"
  by (simp_all add: closing_def)

lemma forget_key_live: "live E (sys_reactor st) (as_source a) s \<Longrightarrow> forget_key a st = sys_lost st - {src_key s}"
  by (simp add: forget_key_def)

section \<open>Handle operations are runs\<close>

definition os_respects :: "('p \<Rightarrow> 'p \<Rightarrow> bool) \<Rightarrow> ('h, 'fd, 'reg, 'p) os_calls \<Rightarrow> bool" where
  "os_respects io S \<longleftrightarrow> (\<forall>fd p. io p (snd (set_nonblocking S fd p))) \<and> (\<forall>h p. io p (os_close S h p))"

definition unregistered :: "('p, 'sw, 'ss, 'q, 'reg) crates \<Rightarrow> 'reg \<Rightarrow> ('p, 'sw, 'ss, 'q, 'reg) reactor \<Rightarrow> bool" where
  "unregistered E g r \<longleftrightarrow> (\<forall>k s. source_at E r k = Some s \<longrightarrow> registration s \<noteq> g)"

lemma unregistered_poller [simp]: "unregistered E g (r\<lparr>poller := p\<rparr>) = unregistered E g r"
  by (simp add: unregistered_def source_at_def)

lemma nonblock_run:
  assumes "os_respects io S" "set_nonblocking S fd (poller (sys_reactor st)) = (res, p)"
  shows "sys_step E io st (st\<lparr>sys_reactor := (sys_reactor st)\<lparr>poller := p\<rparr>\<rparr>)"
  using assms by (intro step_io) (metis os_respects_def snd_conv)

lemma close_run:
  assumes "os_respects io S"
  shows "sys_step E io st (st\<lparr>sys_reactor := drop_handle S h (sys_reactor st)\<rparr>)"
  unfolding drop_handle_def using assms by (intro step_io) (simp add: os_respects_def)

lemma new_nonblocking_run:
  assumes io: "os_respects io S" and g: "unregistered E (handle_registration S h) (sys_reactor st)"
    and new: "async_new_nonblocking S E h (sys_reactor st) = Inr (res, r')"
  shows "sys_steps E io st (st\<lparr>sys_reactor := r'\<rparr>)"
proof -
  obtain ires r1 where ins: "insert_io E (handle_registration S h) (sys_reactor st) = Inr (ires, r1)"
    and out: "(case ires of Inl e \<Rightarrow> (Inl e, drop_handle S h r1)
      | Inr a \<Rightarrow> (Inr \<lparr>as_source = a, as_io = Some h\<rparr>, r1)) = (res, r')"
    using new unfolding async_new_nonblocking_def rbind_eq_Inr_iff by (force split: prod.splits)
  have opened: "sys_step E io st (st\<lparr>sys_reactor := r1\<rparr>)"
    using g by (intro step_open [OF ins]) (simp add: unregistered_def)
  show ?thesis
  proof (cases ires)
    case (Inl e)
    with steps_then [OF opened steps_one [OF close_run [OF io, of E "st\<lparr>sys_reactor := r1\<rparr>" h]]] out
    show ?thesis by simp
  next
    case (Inr a)
    with steps_one [OF opened] out show ?thesis by simp
  qed
qed

lemma new_run:
  assumes io: "os_respects io S" and g: "unregistered E (handle_registration S h) (sys_reactor st)"
    and new: "async_new S E h (sys_reactor st) = Inr (res, r')"
  shows "sys_steps E io st (st\<lparr>sys_reactor := r'\<rparr>)"
proof -
  obtain sres p where set: "set_nonblocking S (os_as_fd S h) (poller (sys_reactor st)) = (sres, p)" by force
  let ?st = "st\<lparr>sys_reactor := (sys_reactor st)\<lparr>poller := p\<rparr>\<rparr>"
  have one: "sys_step E io st ?st" by (rule nonblock_run [OF io set])
  show ?thesis
  proof (cases sres)
    case (Inl e)
    with set new have "r' = drop_handle S h (sys_reactor ?st)" by (simp add: async_new_def)
    with steps_then [OF one steps_one [OF close_run [OF io, of E ?st h]]] show ?thesis by simp
  next
    case (Inr u)
    with set new have "async_new_nonblocking S E h (sys_reactor ?st) = Inr (res, r')" by (simp add: async_new_def)
    with steps_then [OF one new_nonblocking_run [OF io _ this]] g show ?thesis by simp
  qed
qed

text \<open>Giving the source up, and closing the handle or not.\<close>

lemma remove_run:
  assumes io: "os_respects io S" and x: "live E (sys_reactor st) (as_source a) s"
    and free: "\<forall>i b f. sys_futures st i = Some (b, f) \<longrightarrow> b \<noteq> as_source a"
    and rem: "remove_io E s (sys_reactor st) = Inr (res, r1)" and r': "r' = r1 \<or> r' = drop_handle S h r1"
  shows "sys_steps E io st (st\<lparr>sys_reactor := r', sys_lost := forget_key a st\<rparr>)"
proof -
  let ?st = "st\<lparr>sys_reactor := r1, sys_lost := forget_key a st\<rparr>"
  have one: "sys_step E io st ?st" unfolding forget_key_live [OF x] by (rule step_close [OF x free rem])
  from r' show ?thesis
  proof
    assume "r' = drop_handle S h r1"
    then have "?st\<lparr>sys_reactor := drop_handle S h (sys_reactor ?st)\<rparr> = st\<lparr>sys_reactor := r', sys_lost := forget_key a st\<rparr>"
      by (cases st) simp
    with steps_then [OF one steps_one [OF close_run [OF io, of E ?st h]]] show ?thesis by (simp only:)
  qed (use steps_one [OF one] in simp)
qed

section \<open>Who owns what\<close>

text \<open>What the key \<open>k\<close> is registered for. The handle \<open>i\<close> holds the key, for its own descriptor.\<close>

definition reg_at :: "('p, 'sw, 'ss, 'q, 'reg) crates \<Rightarrow> ('p, 'sw, 'ss, 'q, 'reg) reactor \<Rightarrow> slab_key \<Rightarrow> 'reg option" where
  "reg_at E r k = map_option registration (source_at E r k)"

definition addr_at :: "('p, 'sw, 'ss, 'q, 'reg) crates \<Rightarrow> ('p, 'sw, 'ss, 'q, 'reg) reactor \<Rightarrow> slab_key \<Rightarrow> addr option" where
  "addr_at E r k = sl_get (sslab E) k (sources r)"

definition holds_key :: "('h, 'fd, 'reg, 'p) os_calls \<Rightarrow> ('p, 'sw, 'ss, 'q, 'reg) crates \<Rightarrow>
    ('h, 'p, 'sw, 'ss, 'q, 'reg) program \<Rightarrow> nat \<Rightarrow> 'h \<Rightarrow> slab_key \<Rightarrow> bool" where
  "holds_key S E g i h k \<longleftrightarrow> (\<exists>a. pg_handles g i = Some a \<and> as_io a = Some h \<and>
     addr_at E (pg_reactor g) k = Some (as_source a) \<and> reg_at E (pg_reactor g) k = Some (handle_registration S h))"

definition program_ok :: "('h, 'fd, 'reg, 'p) os_calls \<Rightarrow> ('p, 'sw, 'ss, 'q, 'reg) crates \<Rightarrow> ('q \<Rightarrow> timer_op list) \<Rightarrow>
    ('h, 'p, 'sw, 'ss, 'q, 'reg) program \<Rightarrow> bool" where
  "program_ok S E items g \<longleftrightarrow> sys_ok E items (pg_sys g) \<and>
     (\<forall>i a. pg_handles g i = Some a \<longrightarrow> (\<exists>h k. holds_key S E g i h k)) \<and>
     (\<forall>k. reg_at E (pg_reactor g) k \<noteq> None \<longrightarrow> (\<exists>i h. holds_key S E g i h k)) \<and>
     (\<forall>i j h h' k k'. holds_key S E g i h k \<longrightarrow> holds_key S E g j h' k' \<longrightarrow> os_as_fd S h = os_as_fd S h' \<longrightarrow> i = j)"

lemma program_okD:
  assumes "program_ok S E items g"
  shows "sys_ok E items (pg_sys g)"
    and "pg_handles g i = Some a \<Longrightarrow> \<exists>h k. holds_key S E g i h k"
    and "reg_at E (pg_reactor g) k = Some u \<Longrightarrow> \<exists>i h. holds_key S E g i h k"
    and "holds_key S E g i h k \<Longrightarrow> holds_key S E g j h' k' \<Longrightarrow> os_as_fd S h = os_as_fd S h' \<Longrightarrow> i = j"
  using assms unfolding program_ok_def by (blast, blast, fastforce, blast)

lemma holds_key_live:
  assumes "sources_ok E (pg_reactor g)" "holds_key S E g i h k" "pg_handles g i = Some a"
  obtains s where "live E (pg_reactor g) (as_source a) s" "src_key s = k" "registration s = handle_registration S h"
    "as_io a = Some h"
proof -
  from assms(2,3) have A: "as_io a = Some h" "addr_at E (pg_reactor g) k = Some (as_source a)"
    "reg_at E (pg_reactor g) k = Some (handle_registration S h)" by (auto simp: holds_key_def)
  from assms(1) A(2) [unfolded addr_at_def] obtain s where "heap (pg_reactor g) (as_source a) = Some s" "src_key s = k"
    "source_at E (pg_reactor g) k = Some s" by (rule sources_okD)
  with A show thesis by (intro that [of s]) (simp_all add: live_def addr_at_def reg_at_def)
qed

lemma addr_at_None: "addr_at E r k = None \<Longrightarrow> reg_at E r k = None"
  by (simp add: addr_at_def reg_at_def source_at_def)

text \<open>The operations on the two tables.\<close>

lemma tables_poller [simp]:
  "reg_at E (r\<lparr>poller := p\<rparr>) = reg_at E r" "addr_at E (r\<lparr>poller := p\<rparr>) = addr_at E r"
  "reg_at E (drop_handle S h r) = reg_at E r" "addr_at E (drop_handle S h r) = addr_at E r"
  by (simp_all add: reg_at_def addr_at_def source_at_def drop_handle_def fun_eq_iff)

lemma insert_tables:
  assumes ok: "reactor_ok E items r" and ins: "insert_io E u r = Inr (res, r')"
  shows "case res of
      Inl e \<Rightarrow> addr_at E r' = addr_at E r \<and> reg_at E r' = reg_at E r
    | Inr x \<Rightarrow> \<exists>k. addr_at E r k = None \<and> addr_at E r' = (addr_at E r)(k \<mapsto> x) \<and> reg_at E r' = (reg_at E r)(k \<mapsto> u)"
proof -
  note P = reactor_ok_parts [OF ok]
  from P(2,4,3) show ?thesis
  proof (cases rule: insert_io_cases [where g = u])
    case (added p ss r1)
    let ?k = "sl_vacant_key (sslab E) (sources r)"
    have "addr_at E r ?k = None" using source_at_vacant [OF P(4), of r] P(4) by (simp add: addr_at_def)
    moreover have "addr_at E r1 = (addr_at E r)(?k \<mapsto> next_addr r)"
      using added(6) by (simp add: added(3) addr_at_def fun_eq_iff)
    moreover have "reg_at E r1 = (reg_at E r)(?k \<mapsto> u)"
      using added(5) by (simp add: reg_at_def fun_eq_iff new_source_def Let_def)
    ultimately show ?thesis using added(2) ins by auto
  next
    case (failed e p ss r1)
    then have "addr_at E r1 = addr_at E r" "reg_at E r1 = reg_at E r"
      by (simp_all add: addr_at_def reg_at_def fun_eq_iff)
    with failed(2) ins show ?thesis by auto
  qed
qed

lemma new_nonblocking_tables:
  assumes ok: "reactor_ok E items r" and new: "async_new_nonblocking S E h r = Inr (res, r')"
  shows "case res of
      Inl e \<Rightarrow> addr_at E r' = addr_at E r \<and> reg_at E r' = reg_at E r
    | Inr a \<Rightarrow> as_io a = Some h \<and> (\<exists>k. addr_at E r k = None \<and> addr_at E r' = (addr_at E r)(k \<mapsto> as_source a) \<and>
        reg_at E r' = (reg_at E r)(k \<mapsto> handle_registration S h))"
proof -
  obtain ires r1 where ins: "insert_io E (handle_registration S h) r = Inr (ires, r1)"
    and out: "(case ires of Inl e \<Rightarrow> (Inl e, drop_handle S h r1)
      | Inr a \<Rightarrow> (Inr \<lparr>as_source = a, as_io = Some h\<rparr>, r1)) = (res, r')"
    using new unfolding async_new_nonblocking_def rbind_eq_Inr_iff by (force split: prod.splits)
  from insert_tables [OF ok ins] out show ?thesis by (auto split: sum.splits)
qed

lemma new_tables:
  assumes ok: "reactor_ok E items r" and new: "async_new S E h r = Inr (res, r')"
  shows "case res of
      Inl e \<Rightarrow> addr_at E r' = addr_at E r \<and> reg_at E r' = reg_at E r
    | Inr a \<Rightarrow> as_io a = Some h \<and> (\<exists>k. addr_at E r k = None \<and> addr_at E r' = (addr_at E r)(k \<mapsto> as_source a) \<and>
        reg_at E r' = (reg_at E r)(k \<mapsto> handle_registration S h))"
proof -
  obtain sres p where set: "set_nonblocking S (os_as_fd S h) (poller r) = (sres, p)" by force
  show ?thesis
  proof (cases sres)
    case (Inl e)
    with set new have "res = Inl e" "r' = drop_handle S h (r\<lparr>poller := p\<rparr>)" by (simp_all add: async_new_def)
    then show ?thesis by simp
  next
    case (Inr u)
    with set new have "async_new_nonblocking S E h (r\<lparr>poller := p\<rparr>) = Inr (res, r')" by (simp add: async_new_def)
    moreover have "reactor_ok E items (r\<lparr>poller := p\<rparr>)" using ok by simp
    ultimately show ?thesis using new_nonblocking_tables [of E items "r\<lparr>poller := p\<rparr>" S h res r'] by (auto split: sum.splits)
  qed
qed

lemma remove_tables:
  assumes ok: "reactor_ok E items r" and x: "live E r x s" and rem: "remove_io E s r = Inr (res, r')"
  shows "addr_at E r' = (addr_at E r)(src_key s := None)" "reg_at E r' = (reg_at E r)(src_key s := None)"
proof -
  note P = reactor_ok_parts [OF ok]
  have "source_at E r (src_key s) \<noteq> None" using live_source_at [OF x] by simp
  with P(2,4) have "addr_at E r' = (addr_at E r)(src_key s := None) \<and> reg_at E r' = (reg_at E r)(src_key s := None)"
    by (cases rule: remove_io_cases) (use rem in \<open>auto simp: addr_at_def reg_at_def fun_eq_iff\<close>)
  then show "addr_at E r' = (addr_at E r)(src_key s := None)" "reg_at E r' = (reg_at E r)(src_key s := None)" by simp_all
qed

lemma step_tables:
  assumes step: "sys_step E io st st'" and ok: "sys_ok E items st"
    and same: "sources (sys_reactor st') = sources (sys_reactor st)"
  shows "addr_at E (sys_reactor st') = addr_at E (sys_reactor st)" "reg_at E (sys_reactor st') = reg_at E (sys_reactor st)"
proof -
  show addr: "addr_at E (sys_reactor st') = addr_at E (sys_reactor st)" using same by (simp add: addr_at_def fun_eq_iff)
  from ok have "reactor_ok E items (sys_reactor st)" by (simp add: sys_ok_def)
  then have S: "sources_ok E (sys_reactor st)" by (rule reactor_ok_parts)
  show "reg_at E (sys_reactor st') = reg_at E (sys_reactor st)"
  proof
    fix k
    show "reg_at E (sys_reactor st') k = reg_at E (sys_reactor st) k"
    proof (cases "sl_get (sslab E) k (sources (sys_reactor st))")
      case None
      with same show ?thesis by (simp add: reg_at_def source_at_def)
    next
      case (Some a)
      with S obtain s where s: "heap (sys_reactor st) a = Some s" by (rule sources_okD)
      with step_keeps_registrations [OF step ok] obtain s' where "heap (sys_reactor st') a = Some s'"
        "registration s' = registration s" unfolding keeps_registrations_def by blast
      with s Some same show ?thesis by (simp add: reg_at_def source_at_def)
    qed
  qed
qed

section \<open>The correspondence is kept\<close>

lemma program_okI:
  assumes "sys_ok E items (pg_sys g)" "\<And>i a. pg_handles g i = Some a \<Longrightarrow> \<exists>h k. holds_key S E g i h k"
    and "\<And>k u. reg_at E (pg_reactor g) k = Some u \<Longrightarrow> \<exists>i h. holds_key S E g i h k"
    and "\<And>i j h h' k k'. holds_key S E g i h k \<Longrightarrow> holds_key S E g j h' k' \<Longrightarrow> os_as_fd S h = os_as_fd S h' \<Longrightarrow> i = j"
  shows "program_ok S E items g"
  using assms unfolding program_ok_def by fast

lemma fresh_unregistered:
  assumes ok: "program_ok S E items g" and inj: "inj (os_registration S)" and fresh: "fresh_handle S h g"
  shows "reg_at E (pg_reactor g) k \<noteq> Some (handle_registration S h)" "unregistered E (handle_registration S h) (pg_reactor g)"
proof -
  show K: "reg_at E (pg_reactor g) k \<noteq> Some (handle_registration S h)" for k
  proof
    assume r: "reg_at E (pg_reactor g) k = Some (handle_registration S h)"
    with program_okD(3) [OF ok] obtain i h' where H: "holds_key S E g i h' k" by blast
    with r have "handle_registration S h' = handle_registration S h" by (auto simp: holds_key_def)
    with inj have "os_as_fd S h' = os_as_fd S h" by (rule injD)
    with H fresh show False by (auto simp: holds_key_def fresh_handle_def)
  qed
  show "unregistered E (handle_registration S h) (pg_reactor g)" using K by (force simp: unregistered_def reg_at_def)
qed

lemma fresh_handle_registration:
  assumes "inj (os_registration S)" "fresh_handle S h g" "pg_handles g i = Some a" "as_io a = Some k"
  shows "handle_registration S k \<noteq> handle_registration S h"
  using assms unfolding fresh_handle_def by (metis injD)

lemma same_tables_ok:
  assumes ok: "program_ok S E items g" and sys: "sys_ok E items (pg_sys g')" and h: "pg_handles g' = pg_handles g"
    and "addr_at E (pg_reactor g') = addr_at E (pg_reactor g)" "reg_at E (pg_reactor g') = reg_at E (pg_reactor g)"
  shows "program_ok S E items g'"
proof -
  have "holds_key S E g' = holds_key S E g" using assms(3-5) by (simp add: holds_key_def fun_eq_iff)
  with ok sys assms(3-5) show ?thesis by (simp add: program_ok_def)
qed

lemma opened_ok:
  assumes ok: "program_ok S E items g" and inj: "inj (os_registration S)" and fresh: "fresh_handle S h g"
    and free: "pg_handles g i = None" and sys: "sys_ok E items (pg_sys g')" and io: "as_io a = Some h"
    and k: "addr_at E (pg_reactor g) k = None" and g': "pg_handles g' = (pg_handles g)(i \<mapsto> a)"
      "addr_at E (pg_reactor g') = (addr_at E (pg_reactor g))(k \<mapsto> as_source a)"
      "reg_at E (pg_reactor g') = (reg_at E (pg_reactor g))(k \<mapsto> handle_registration S h)"
  shows "program_ok S E items g'"
proof -
  note new = fresh_unregistered(1) [OF ok inj fresh]
  have H: "holds_key S E g' j h' k' \<longleftrightarrow> (if j = i then h' = h \<and> k' = k else holds_key S E g j h' k')" for j h' k'
    using g' io k new [of k'] by (auto simp: holds_key_def dest: fresh_handle_registration [OF inj fresh])
  have other: "os_as_fd S h' \<noteq> os_as_fd S h" if "holds_key S E g j h' k'" for j h' k'
    using fresh that by (auto simp: holds_key_def fresh_handle_def)
  show ?thesis
  proof (rule program_okI [OF sys])
    fix j b assume j: "pg_handles g' j = Some b"
    show "\<exists>h k. holds_key S E g' j h k"
    proof (cases "j = i")
      case False
      with j g'(1) program_okD(2) [OF ok, of j b] show ?thesis by (simp add: H)
    qed (simp add: H)
  next
    fix k' u assume u: "reg_at E (pg_reactor g') k' = Some u"
    show "\<exists>j h. holds_key S E g' j h k'"
    proof (cases "k' = k")
      case False
      with u g'(3) program_okD(3) [OF ok, of k' u] obtain j h' where J: "holds_key S E g j h' k'" by auto
      with free have "j \<noteq> i" by (auto simp: holds_key_def)
      with J H show ?thesis by metis
    qed (use H in metis)
  next
    fix j j' h1 h2 k1 k2
    assume "holds_key S E g' j h1 k1" "holds_key S E g' j' h2 k2" "os_as_fd S h1 = os_as_fd S h2"
    then show "j = j'" unfolding H using other program_okD(4) [OF ok] by (metis (full_types))
  qed
qed

lemma closed_ok:
  assumes ok: "program_ok S E items g" and inj: "inj (os_registration S)" and own: "holds_key S E g i h k"
    and sys: "sys_ok E items (pg_sys g')" and g': "pg_handles g' = (pg_handles g)(i := None)"
      "addr_at E (pg_reactor g') = (addr_at E (pg_reactor g))(k := None)"
      "reg_at E (pg_reactor g') = (reg_at E (pg_reactor g))(k := None)"
  shows "program_ok S E items g'"
proof -
  have ne: "k' \<noteq> k" if "holds_key S E g j h' k'" "j \<noteq> i" for j h' k'
  proof
    assume "k' = k"
    with that(1) own have "handle_registration S h' = handle_registration S h" by (auto simp: holds_key_def)
    with inj have "os_as_fd S h' = os_as_fd S h" by (rule injD)
    from program_okD(4) [OF ok that(1) own this] that(2) show False by simp
  qed
  have H: "holds_key S E g' j h' k' \<longleftrightarrow> j \<noteq> i \<and> holds_key S E g j h' k'" for j h' k'
    using g' ne [of j h' k'] by (auto simp: holds_key_def)
  show ?thesis
  proof (rule program_okI [OF sys])
    fix j b assume "pg_handles g' j = Some b"
    with g'(1) program_okD(2) [OF ok, of j b] show "\<exists>h k. holds_key S E g' j h k" by (auto simp: H split: if_splits)
  next
    fix k' u assume "reg_at E (pg_reactor g') k' = Some u"
    with g'(3) have k': "k' \<noteq> k" "reg_at E (pg_reactor g) k' = Some u" by (auto split: if_splits)
    with program_okD(3) [OF ok] obtain j h' where J: "holds_key S E g j h' k'" by blast
    have "j \<noteq> i"
    proof
      assume j: "j = i"
      with J own have "addr_at E (pg_reactor g) k' = addr_at E (pg_reactor g) k" by (auto simp: holds_key_def)
      moreover from ok have "sources_ok E (pg_reactor g)" by (auto simp: program_ok_def sys_ok_def reactor_ok_def)
      ultimately show False using J k'(1) sources_ok_inj [of E "pg_reactor g" k' _ k]
        by (auto simp: holds_key_def addr_at_def)
    qed
    with J H show "\<exists>j h. holds_key S E g' j h k'" by metis
  qed (use H program_okD(4) [OF ok] in metis)
qed

lemma written_ok:
  assumes ok: "program_ok S E items g" and i: "pg_handles g i = Some a" "as_io a = Some h" and fd: "os_as_fd S h' = os_as_fd S h"
    and g': "g' = g\<lparr>pg_handles := (pg_handles g)(i \<mapsto> a\<lparr>as_io := Some h'\<rparr>)\<rparr>"
  shows "program_ok S E items g'"
proof -
  have H: "holds_key S E g' j k u \<longleftrightarrow> (if j = i then k = h' \<and> holds_key S E g i h u else holds_key S E g j k u)" for j k u
    using i fd by (auto simp: g' holds_key_def)
  have own: "k = h" if "holds_key S E g i k u" for k u using that i by (auto simp: holds_key_def)
  show ?thesis
  proof (rule program_okI)
    show "sys_ok E items (pg_sys g')" using program_okD(1) [OF ok] by (simp add: g')
  next
    fix j b assume "pg_handles g' j = Some b"
    then obtain c where "pg_handles g j = Some c" using i by (auto simp: g' split: if_splits)
    with program_okD(2) [OF ok] obtain k u where "holds_key S E g j k u" by blast
    with own show "\<exists>h k. holds_key S E g' j h k" unfolding H by metis
  next
    fix k u assume "reg_at E (pg_reactor g') k = Some u"
    then have "reg_at E (pg_reactor g) k = Some u" by (simp add: g')
    with program_okD(3) [OF ok] obtain j h1 where "holds_key S E g j h1 k" by blast
    with own show "\<exists>i h. holds_key S E g' i h k" unfolding H by metis
  next
    fix j j' h1 h2 k1 k2
    assume "holds_key S E g' j h1 k1" "holds_key S E g' j' h2 k2" "os_as_fd S h1 = os_as_fd S h2"
    then show "j = j'" unfolding H using program_okD(4) [OF ok] fd by (metis (full_types))
  qed
qed

section \<open>Every step of a program\<close>

lemma drop_remove:
  assumes "async_drop S E a r = Inr r'" "as_io a = Some h" "live E r (as_source a) s"
  obtains res r1 where "remove_io E s r = Inr (res, r1)" "r' = drop_handle S h r1"
  using assms unfolding async_drop_def by (auto simp: rbind_eq_Inr_iff)

lemma into_inner_remove:
  assumes "async_into_inner S E a r = Inr (res, r')" "live E r (as_source a) s"
  obtains h dres r1 where "as_io a = Some h" "remove_io E s r = Inr (dres, r1)"
    "dres = Inr () \<and> res = Inr h \<and> r' = r1 \<or> (\<exists>e. dres = Inl e \<and> res = Inl e \<and> r' = drop_handle S h r1)"
proof -
  obtain h where h: "as_io a = Some h" using assms(1) by (cases "as_io a") (simp_all add: async_into_inner_def)
  with assms obtain dres r1 where "remove_io E s r = Inr (dres, r1)"
    "(case dres of Inl e \<Rightarrow> (Inl e, drop_handle S h r1) | Inr _ \<Rightarrow> (Inr h, r1)) = (res, r')"
    unfolding async_into_inner_def by (auto simp: rbind_eq_Inr_iff)
  with h show thesis by (intro that [of h dres r1]) (auto split: sum.splits)
qed

lemma owned_source:
  assumes ok: "program_ok S E items g" and i: "pg_handles g i = Some a"
  shows "\<exists>h s. holds_key S E g i h (src_key s) \<and> live E (pg_reactor g) (as_source a) s \<and> as_io a = Some h"
proof -
  from ok have "sources_ok E (pg_reactor g)" by (auto simp: program_ok_def sys_ok_def reactor_ok_def)
  moreover from program_okD(2) [OF ok i] obtain h k where "holds_key S E g i h k" by blast
  ultimately show ?thesis using i by (metis holds_key_live)
qed

text \<open>A step is a run, and keeps the correspondence.\<close>

lemma life_step_ok:
  assumes step: "life_step S E io g g'" and ok: "program_ok S E items g"
    and inj: "inj (os_registration S)" and io: "os_respects io S"
  shows "sys_steps E io (pg_sys g) (pg_sys g') \<and> program_ok S E items g'"
proof -
  note sys = program_okD(1) [OF ok]
  from sys have R: "reactor_ok E items (pg_reactor g)" by (simp add: sys_ok_def)
  from step show ?thesis
  proof (cases rule: life_step.cases)
    case (life_new h i a r')
    note U = fresh_unregistered(2) [OF ok inj life_new(2)]
    have run: "sys_steps E io (pg_sys g) (pg_sys g')"
      using new_run [OF io U] new_nonblocking_run [OF io U] life_new(1,4) by auto
    obtain k where T: "as_io a = Some h" "addr_at E (pg_reactor g) k = None"
      "addr_at E r' = (addr_at E (pg_reactor g))(k \<mapsto> as_source a)" "reg_at E r' = (reg_at E (pg_reactor g))(k \<mapsto> handle_registration S h)"
      using new_tables [OF R, of S h "Inr a"] new_nonblocking_tables [OF R, of S h "Inr a"] life_new(4) by auto
    show ?thesis
      using run T life_new(1) by (intro conjI opened_ok [OF ok inj life_new(2,3) sys_ok_steps [OF run sys] T(1,2)]) simp_all
  next
    case (life_new_failed h e r')
    note U = fresh_unregistered(2) [OF ok inj life_new_failed(2)]
    have run: "sys_steps E io (pg_sys g) (pg_sys g')"
      using new_run [OF io U] new_nonblocking_run [OF io U] life_new_failed(1,3) by auto
    have "addr_at E r' = addr_at E (pg_reactor g) \<and> reg_at E r' = reg_at E (pg_reactor g)"
      using new_tables [OF R, of S h "Inl e"] new_nonblocking_tables [OF R, of S h "Inl e"] life_new_failed(3) by auto
    with run life_new_failed(1) show ?thesis by (intro conjI same_tables_ok [OF ok sys_ok_steps [OF run sys]]) simp_all
  next
    case (life_write i a h put h')
    from life_write(3) have a: "as_io a = Some h" "put h' = a\<lparr>as_io := Some h'\<rparr>"
      by (auto simp: async_get_mut_def rbind_eq_Inr_iff)
    have "program_ok S E items g'"
      using life_write(1) a by (intro written_ok [OF ok life_write(2) a(1) life_write(4)]) simp
    with life_write(1) show ?thesis by (simp add: steps_refl)
  next
    case (life_drop i a r')
    from owned_source [OF ok life_drop(2)] obtain h s where O: "holds_key S E g i h (src_key s)" "live E (pg_reactor g) (as_source a) s"
      "as_io a = Some h" by blast
    from drop_remove [OF life_drop(4) O(3,2)] obtain res r1 where D: "remove_io E s (pg_reactor g) = Inr (res, r1)"
      "r' = drop_handle S h r1" by blast
    have run: "sys_steps E io (pg_sys g) (pg_sys g')"
      using remove_run [OF io O(2) _ D(1), of r' h] D(2) life_drop(1,3) by (simp add: unborrowed_def)
    show ?thesis
      using run remove_tables [OF R O(2) D(1)] life_drop(1) D(2)
      by (intro conjI closed_ok [OF ok inj O(1) sys_ok_steps [OF run sys]]) simp_all
  next
    case (life_into_inner i a res r')
    from owned_source [OF ok life_into_inner(2)] obtain h s where O: "holds_key S E g i h (src_key s)"
      "live E (pg_reactor g) (as_source a) s" "as_io a = Some h" by blast
    from into_inner_remove [OF life_into_inner(4) O(2)] obtain dres r1 where D: "remove_io E s (pg_reactor g) = Inr (dres, r1)"
      "r' = r1 \<or> r' = drop_handle S h r1" using O(3) by (metis option.inject)
    have run: "sys_steps E io (pg_sys g) (pg_sys g')"
      using remove_run [OF io O(2) _ D] life_into_inner(1,3) by (simp add: unborrowed_def)
    show ?thesis
      using run remove_tables [OF R O(2) D(1)] life_into_inner(1) D(2)
      by (intro conjI closed_ok [OF ok inj O(1) sys_ok_steps [OF run sys]]) auto
  next
    case (life_other st')
    with step_tables [OF life_other(2) sys life_other(3)] steps_one [OF life_other(2)] sys_ok_step [OF sys life_other(2)]
    show ?thesis by (intro conjI same_tables_ok [OF ok]) simp_all
  qed
qed

lemma life_steps_ok:
  assumes "(life_step S E io)\<^sup>*\<^sup>* g g'" "program_ok S E items g" "inj (os_registration S)" "os_respects io S"
  shows "sys_steps E io (pg_sys g) (pg_sys g') \<and> program_ok S E items g'"
  using assms(1)
proof (induction rule: rtranclp_induct)
  case base
  then show ?case using assms(2) by (simp add: steps_refl)
next
  case (step g1 g2)
  with life_step_ok [OF step(2) _ assms(3,4)] steps_trans show ?case by blast
qed

lemma program_init_ok:
  assumes "crates_ok E items"
  shows "program_ok S E items (program_init E p)"
proof -
  have "source_at E (reactor_new E p) k = None" for k using reactor_ok_new(3) [OF assms, of p] by (simp add: fun_eq_iff)
  with sys_ok_init [OF assms] show ?thesis
    by (intro program_okI) (simp_all add: program_init_def reg_at_def holds_key_def sys_init_def)
qed

section \<open>Properties\<close>

text \<open>
  C4. Every operation on a handle, failures included, is a run of the concurrent system, so whatever
  a program does with its handles, all that holds in the reachable states of that system holds
  between its operations. And in every state a program reaches, handles, sources and descriptors
  correspond one to one: every handle has a live source, registered for the handle's own descriptor;
  every source belongs to a handle, so that none is leaked; and no two handles share a source.
\<close>

theorem handles_own_their_sources:
  assumes "crates_ok E items" "inj (os_registration S)" "os_respects io S"
    and "(life_step S E io)\<^sup>*\<^sup>* (program_init E p) g"
  shows "sys_steps E io (sys_init E p) (pg_sys g) \<and>
    (\<forall>i a. pg_handles g i = Some a \<longrightarrow> (\<exists>h s. as_io a = Some h \<and> live E (pg_reactor g) (as_source a) s \<and>
       registration s = os_registration S (os_as_fd S h))) \<and>
    (\<forall>k s. source_at E (pg_reactor g) k = Some s \<longrightarrow> (\<exists>i a. pg_handles g i = Some a \<and>
       live E (pg_reactor g) (as_source a) s)) \<and>
    (\<forall>i j a b. pg_handles g i = Some a \<longrightarrow> pg_handles g j = Some b \<longrightarrow> as_source a = as_source b \<longrightarrow> i = j)"
proof -
  from life_steps_ok [OF assms(4) program_init_ok [OF assms(1)] assms(2,3)]
  have run: "sys_steps E io (sys_init E p) (pg_sys g)" and ok: "program_ok S E items g" by (simp_all add: program_init_def)
  then have src: "sources_ok E (pg_reactor g)" by (auto simp: program_ok_def sys_ok_def reactor_ok_def)
  have own: "\<exists>h s. as_io a = Some h \<and> live E (pg_reactor g) (as_source a) s \<and> holds_key S E g i h (src_key s) \<and>
      registration s = os_registration S (os_as_fd S h)" if "pg_handles g i = Some a" for i a
    using program_okD(2) [OF ok that] that by (metis holds_key_live [OF src])
  have used: "\<exists>i a. pg_handles g i = Some a \<and> live E (pg_reactor g) (as_source a) s"
    if k: "source_at E (pg_reactor g) k = Some s" for k s
  proof -
    from k program_okD(3) [OF ok, of k] obtain i h where H: "holds_key S E g i h k" by (auto simp: reg_at_def)
    then obtain a where a: "pg_handles g i = Some a" by (auto simp: holds_key_def)
    from holds_key_live [OF src H a] obtain s' where "live E (pg_reactor g) (as_source a) s'" "src_key s' = k" by metis
    with live_source_at k a show ?thesis by fastforce
  qed
  have one: "i = j" if "pg_handles g i = Some a" "pg_handles g j = Some b" "as_source a = as_source b" for i j a b
  proof -
    note same = that(3)
    from own [OF that(1)] obtain h s where H: "holds_key S E g i h (src_key s)" "live E (pg_reactor g) (as_source a) s"
      "registration s = os_registration S (os_as_fd S h)" by blast
    from own [OF that(2)] obtain h' s' where H': "holds_key S E g j h' (src_key s')" "live E (pg_reactor g) (as_source a) s'"
      "registration s' = os_registration S (os_as_fd S h')" unfolding same by blast
    from live_unique [OF H(2) H'(2)] H H' have "os_registration S (os_as_fd S h) = os_registration S (os_as_fd S h')"
      "holds_key S E g j h' (src_key s)" by simp_all
    with H(1)
    show ?thesis using program_okD(4) [OF ok] injD [OF assms(2)] by metis
  qed
  from run own used one show ?thesis by blast
qed

text \<open>A program that has opened the descriptor 7.\<close>

definition sim_program :: "(raw_fd, sim_poller, sim_sw, sim_ss, timer_op list, registration_unix) program" where
  "sim_program = with_reactor (sim_open []) (program_init sim (sim_poller_new [] []))
     \<lparr>pg_handles := [0 \<mapsto> sim_handle]\<rparr>"

lemma sim_os_respects: "os_respects sim_io sim_os"
  unfolding os_respects_def
proof (intro conjI allI)
  fix fd p
  show "sim_io p (snd (set_nonblocking sim_os fd p))"
    using set_nonblocking_ok [OF sim_os_ok, of fd p] by (cases "set_nonblocking sim_os fd p") (simp add: sim_io_def)
  show "sim_io p (os_close sim_os h p)" for h by (simp add: sim_io_def sim_os_def sim_close_def)
qed

lemma sim_program_steps: "(life_step sim_os sim sim_io)\<^sup>*\<^sup>* (program_init sim (sim_poller_new [] [])) sim_program"
proof -
  have "async_new sim_os sim 7 (pg_reactor (program_init sim (sim_poller_new [] []))) = Inr (Inr sim_handle, sim_open [])"
    using sim_open_new by (simp add: program_init_def sys_init_def sim_reactor_def)
  from life_new [OF _ _ disjI1 [OF this], of 0 sim_io] show ?thesis
    by (intro r_into_rtranclp) (simp add: sim_program_def fresh_handle_def program_init_def with_reactor_def)
qed

theorem handles_own_their_sources_witness:
  "pg_handles sim_program 0 = Some sim_handle \<and> (\<exists>s. live sim (pg_reactor sim_program) 0 s \<and> registration s = unix_new 7)"
proof -
  have i: "pg_handles sim_program 0 = Some sim_handle" by (simp add: sim_program_def)
  have "inj (os_registration sim_os)" by (simp add: sim_os_def inj_def unix_new_def)
  from handles_own_their_sources [OF sim_ok this sim_os_respects sim_program_steps] i obtain h s where
    "as_io sim_handle = Some h" "live sim (pg_reactor sim_program) (as_source sim_handle) s"
    "registration s = os_registration sim_os (os_as_fd sim_os h)" by blast
  with i show ?thesis by (auto simp: sim_handle_def sim_os_def)
qed

end
