(* ===== verification/Handles_Watched.thy ===== *)
theory Handles_Watched
  imports Handles_System
begin

text \<open>
  What the poller watches while a program of \<open>Handles_System\<close> runs: the objects of its handles, and
  those that the poller has refused to let go. Proved once for any platform, in the locale
  \<open>interest_backend\<close>.
\<close>

section \<open>What the poller watches\<close>

definition registered_for :: "('p, 'sw, 'ss, 'q, 'reg) crates \<Rightarrow> ('p, 'sw, 'ss, 'q, 'reg) reactor \<Rightarrow> 'reg set" where
  "registered_for E r = {u. \<exists>k. reg_at E r k = Some u}"

text \<open>Nothing that was not watched before is watched, but for what the reactor has registered.\<close>

definition watches_only :: "('p \<Rightarrow> 'reg \<Rightarrow> event option) \<Rightarrow> 'reg set \<Rightarrow> 'p \<Rightarrow> 'p \<Rightarrow> bool" where
  "watches_only table U p p' \<longleftrightarrow> dom (table p') \<subseteq> dom (table p) \<union> U"

lemma watches_only_refl [simp]: "watches_only table U p p"
  by (simp add: watches_only_def)

lemma watches_onlyI:
  "(\<And>u. u \<notin> U \<Longrightarrow> table p' u = table p u) \<Longrightarrow> watches_only table U p p'"
  unfolding watches_only_def by (fastforce simp: dom_def)

lemma live_registered: "live E r x s \<Longrightarrow> registration s \<in> registered_for E r"
  using live_source_at [of E r x s] by (auto simp: registered_for_def reg_at_def)

lemma source_registered: "source_at E r k = Some s \<Longrightarrow> registration s \<in> registered_for E r"
  by (force simp: registered_for_def reg_at_def)

definition tends :: "('p \<Rightarrow> bool) \<Rightarrow> ('p \<Rightarrow> 'reg \<Rightarrow> event option) \<Rightarrow> 'reg set \<Rightarrow> 'p \<Rightarrow> 'p \<Rightarrow> bool" where
  "tends ok table U p p' \<longleftrightarrow> ok p' \<and> watches_only table U p p'"

text \<open>In a covered program every object that is watched is registered, or its deletion has failed.\<close>

definition covered :: "('p \<Rightarrow> bool) \<Rightarrow> ('p \<Rightarrow> 'reg \<Rightarrow> event option) \<Rightarrow> ('p, 'sw, 'ss, 'q, 'reg) crates \<Rightarrow>
    ('h, 'p, 'sw, 'ss, 'q, 'reg) program \<Rightarrow> bool" where
  "covered ok table E g \<longleftrightarrow> ok (poller (pg_reactor g)) \<and>
     dom (table (poller (pg_reactor g))) \<subseteq> registered_for E (pg_reactor g) \<union> pg_stuck g"

context interest_backend begin

lemma tends_refl: "ok p \<Longrightarrow> tends ok table U p p"
  by (simp add: tends_def)

lemma modify_tends:
  assumes "ok p" "reg_modify (reg_calls E) u e p = (res, p')" "u \<in> U"
  shows "tends ok table U p p'"
proof -
  have "ok p'" using modify_ok [OF assms(1), of u e p'] modify_err [OF assms(1), of u e _ p'] assms(2) by (cases res) auto
  moreover have "watches_only table U p p'"
    using modify_frame [OF assms(1,2)] assms(3) by (intro watches_onlyI) metis
  ultimately show ?thesis by (simp add: tends_def)
qed

lemma update_interest_tends:
  assumes "ok (poller r)" "update_interest E b s r = (res, r')" "registration s \<in> U"
  shows "tends ok table U (poller r) (poller r')"
proof -
  obtain mres p where mod: "reg_modify (reg_calls E) (registration s) (interest_event E s) (poller r) = (mres, p)" by force
  with assms(2) have "poller r' = poller r \<or> poller r' = p" by (auto simp: update_interest_def split: sum.splits if_splits)
  with modify_tends [OF assms(1) mod assms(3)] tends_refl [OF assms(1)] show ?thesis by auto
qed

lemma poll_source_tends:
  assumes R: "reactor_ok E items r" and x: "live E r x s" and p: "ok (poller r)"
    and poll: "poll_source E d cx x r = Inr (res, r')"
  shows "tends ok table (registered_for E r) (poller r) (poller r')"
proof -
  from poll x obtain s' r1 where S: "poll_ready E d cx s r = (res, s', r1)" "r' = put_source x s' r1"
    by (auto simp: poll_source_def rbind_eq_Inr_iff split: prod.splits)
  have "tends ok table (registered_for E r) (poller r) (poller r1)"
  proof (cases rule: poll_ready_cases [of s d E cx r])
    case (registered res2 r2 s2)
    with S have u: "update_interest E (dir_is_empty E (src_state s d)) s2
      (r\<lparr>woken := woken r @ option_list (dwaker (src_state s d))\<rparr>) = (res2, r1)" by simp
    have "registration s2 \<in> registered_for E r" using registered(3) live_registered [OF x] by simp
    from update_interest_tends [OF _ u this] p show ?thesis by simp
  qed (use S tends_refl [OF p] in auto)
  then show ?thesis using S(2) by (simp add: put_source_def)
qed

lemma poll_future_tends:
  assumes R: "reactor_ok E items r" and x: "live E r x s" and p: "ok (poller r)" and f: "future_ok E f d s"
    and poll: "poll_future E f cx x r = Inr (res, f', r')"
  shows "tends ok table (registered_for E r) (poller r) (poller r')"
proof -
  from R x f poll obtain s' p' where S: "ready_poll E f cx s r = Inr (res, f', s', r\<lparr>poller := p'\<rparr>)"
    "r' = put_source x s' (r\<lparr>poller := p', woken := woken r\<rparr>)" by (rule poll_future_store)
  have "tends ok table (registered_for E r) (poller r) p'"
    using f
  proof (cases rule: ready_poll_cases [of E f d s cx r])
    case fresh
    with S(1) have "r = r\<lparr>poller := p'\<rparr>" by simp
    then have "poller r = poller (r\<lparr>poller := p'\<rparr>)" by (rule arg_cong)
    with tends_refl [OF p] show ?thesis by simp
  next
    case (stored res2 r2 s2 f2 i sl)
    with S(1) have u: "update_interest E (dir_is_empty E (src_state s d)) s2 r = (res2, r\<lparr>poller := p'\<rparr>)" by simp
    have "registration s2 \<in> registered_for E r" using stored(2) live_registered [OF x] by simp
    from update_interest_tends [OF p u this] show ?thesis by simp
  qed
  then show ?thesis using S(2) by (simp add: put_source_def)
qed

lemma deliver_one_tends:
  assumes S: "sources_ok E r" and p: "ok (poller r)"
    and del: "deliver_events E tk [ev] ws r = (res, ws', r')"
  shows "tends ok table (registered_for E r) (poller r) (poller r')"
proof -
  have slab: "slab_ok (wslab E)" using slabs [OF p] by blast
  have U: "registration s' \<in> registered_for E r"
    if "source_at E r (ev_key ev) = Some s" "deliver_source E tk ev (s, ws) = (s', ws')" for s s' ws'
    using source_registered [OF that(1)] deliver_source_keys(2) [OF slab that(2)] by simp
  from S slab show ?thesis
  proof (cases rule: deliver_events_step [where ev = ev and tk = tk and evs = "[]" and ws = ws])
    case unknown
    with del tends_refl [OF p] show ?thesis by simp
  next
    case (failed s s1 ws1 r1 e)
    with del modify_tends [OF p failed(5) U [OF failed(1,2)]] show ?thesis by simp
  next
    case (passed s s1 ws1 r1)
    with del have r': "r' = r1" by simp
    show ?thesis
    proof (cases "\<forall>d. waiting E (src_state s1 d) = {}")
      case True
      with passed(5) r' tends_refl [OF p] show ?thesis by simp
    next
      case False
      with passed(5) r' show ?thesis by (intro modify_tends [OF p _ U [OF passed(1,2)]]) simp
    qed
  qed
qed

lemma react_wait_tends:
  assumes p: "ok (poller r)" and wait: "react_wait E t r = (res, r')"
  shows "tends ok table U (poller r) (poller r')"
proof -
  obtain evs p' where W: "po_wait (poll_calls E) (events r) t (poller r) = (res, evs, p')" "r' = r\<lparr>events := evs, poller := p'\<rparr>"
    using wait by (auto simp: react_wait_def split: prod.splits)
  note L = wait_law [OF p W(1)]
  have "table (poller r) u \<noteq> None" if "table p' u \<noteq> None" for u
    using conjunct2 [OF L, rule_format, of u] that by auto
  with W(2) L show ?thesis by (auto simp: tends_def watches_only_def)
qed

lemma notify_tends:
  assumes p: "ok (poller r)" and T: "timers_ok E items r" and ins: "insert_timer E t w r = Some (Inr (i, r'))"
  shows "tends ok table U (poller r) (poller r')"
proof -
  obtain nres p' where n: "po_notify (poll_calls E) (poller r) = (nres, p')" by force
  with insert_timer_poller [OF T ins] notify_law [OF p n] show ?thesis by (simp add: tends_def watches_only_def)
qed

text \<open>A step that leaves the reactor's slab of sources alone, and a step that opens or closes one.\<close>

lemma step_tends:
  assumes step: "sys_step E io st st'" and sys: "sys_ok E items st" and p: "ok (poller (sys_reactor st))"
    and same: "sources (sys_reactor st') = sources (sys_reactor st)"
    and io: "\<And>p p'. io p p' \<Longrightarrow> ok p \<Longrightarrow> tends ok table {} p p'"
  shows "tends ok table (registered_for E (sys_reactor st)) (poller (sys_reactor st)) (poller (sys_reactor st'))"
proof -
  from sys have R: "reactor_ok E items (sys_reactor st)" and F: "futures_ok E st" by (simp_all add: sys_ok_def)
  note P = reactor_ok_parts [OF R]
  have addr: "addr_at E (sys_reactor st') = addr_at E (sys_reactor st)" using same by (simp add: addr_at_def fun_eq_iff)
  from step show ?thesis
  proof (cases rule: sys_step.cases)
    case (step_io p')
    with io [OF step_io(2) p] show ?thesis by (auto simp: tends_def watches_only_def)
  next
    case (step_open u res r')
    show ?thesis
    proof (cases res)
      case (Inl e)
      from P(2,4,3) have "ok (poller r') \<and> table (poller r') = table (poller (sys_reactor st))"
      proof (cases rule: insert_io_cases [where g = u])
        case (failed e p' ss r1)
        with step_open(2) have "poller r' = p'" by auto
        with add_err [OF p failed(1)] show ?thesis by simp
      qed (use step_open(2) Inl in simp)
      with step_open(1) show ?thesis by (simp add: tends_def watches_only_def)
    next
      case (Inr x)
      with insert_tables [OF R step_open(2)] obtain k where "addr_at E (sys_reactor st) k = None"
        "addr_at E r' = (addr_at E (sys_reactor st))(k \<mapsto> x)" by auto
      with addr step_open(1) show ?thesis by (simp add: fun_eq_iff) (metis option.distinct(1))
    qed
  next
    case (step_close a s res r')
    have "addr_at E (sys_reactor st) (src_key s) = Some a" using step_close(2) by (simp add: live_def addr_at_def)
    moreover have "addr_at E r' (src_key s) = None" using remove_tables(1) [OF R step_close(2,4)] by simp
    ultimately show ?thesis using addr step_close(1) by simp
  next
    case (step_poll a s d cx res r')
    with poll_source_tends [OF R step_poll(2) p step_poll(3)] show ?thesis by simp
  next
    case (step_future_poll i a f s cx res f' r')
    from futures_okD [OF F step_future_poll(2)] live_unique [OF step_future_poll(3)]
    have "future_ok E f (rf_dir f) s" by blast
    with poll_future_tends [OF R step_future_poll(3) p _ step_future_poll(4)] step_future_poll(1) show ?thesis by simp
  next
    case (step_future_drop i a f r')
    from futures_okD [OF F step_future_drop(2)] obtain s where "live E (sys_reactor st) a s" by blast
    from R this step_future_drop(3) obtain s' where
      "r' = put_source a s' ((sys_reactor st)\<lparr>poller := poller (sys_reactor st), woken := woken (sys_reactor st)\<rparr>)"
      by (rule drop_future_store)
    with step_future_drop(1) tends_refl [OF p] show ?thesis by (simp add: put_source_def)
  next
    case (step_timer_insert t w i r')
    with notify_tends [OF p P(1) step_timer_insert(2)] show ?thesis by simp
  next
    case (step_timer_remove t i r')
    with remove_timer_poller [OF P(1) step_timer_remove(2)] tends_refl [OF p] show ?thesis by simp
  next
    case (step_prepare now timeout t tk ws r')
    with react_prepare_reactor_ok(8) [OF R step_prepare(3,4)] tends_refl [OF p] show ?thesis by simp
  next
    case (step_wait t tk ws n r')
    with react_wait_tends [OF p step_wait(3)] show ?thesis by simp
  next
    case (step_quiet t tk ws now res r1 out r')
    have "poller r' = poller r1"
      using react_quiet(6) [OF wait_buffer(1) [OF step_quiet(4) R] step_quiet(3) _ step_quiet(6)] step_quiet(5) by simp
    with react_wait_tends [OF p step_quiet(4)] step_quiet(1) show ?thesis by simp
  next
    case (step_event tk ev evs ws ws' r')
    with deliver_one_tends [OF P(2) p step_event(3)] show ?thesis by simp
  next
    case (step_event_failed tk ev evs ws e ws' r')
    with deliver_one_tends [OF P(2) p step_event_failed(3)] show ?thesis by simp
  qed (use tends_refl [OF p] in simp_all)
qed

lemma io_tends:
  assumes io: "os_respects io S" "\<And>p p'. io p p' \<Longrightarrow> ok p \<Longrightarrow> tends ok table {} p p'" and p: "ok p"
  shows "ok (os_close S h p)" "dom (table (os_close S h p)) \<subseteq> dom (table p)"
    and "set_nonblocking S fd p = (res, p') \<Longrightarrow> ok p' \<and> dom (table p') \<subseteq> dom (table p)"
proof -
  have "io p (os_close S h p)" using io(1) by (simp add: os_respects_def)
  from io(2) [OF this p] show "ok (os_close S h p)" "dom (table (os_close S h p)) \<subseteq> dom (table p)"
    by (simp_all add: tends_def watches_only_def)
  assume "set_nonblocking S fd p = (res, p')"
  with io(1) have "io p p'" unfolding os_respects_def by (metis snd_conv)
  from io(2) [OF this p] show "ok p' \<and> dom (table p') \<subseteq> dom (table p)"
    by (simp add: tends_def watches_only_def)
qed

lemma insert_covers:
  assumes R: "reactor_ok E items r" and p: "ok (poller r)" and ins: "insert_io E u r = Inr (res, r')"
  shows "ok (poller r')" "dom (table (poller r')) \<subseteq> (case res of Inr _ \<Rightarrow> insert u (dom (table (poller r))) | Inl _ \<Rightarrow> dom (table (poller r)))"
proof -
  note P = reactor_ok_parts [OF R]
  from P(2,4,3) have "ok (poller r') \<and>
    dom (table (poller r')) \<subseteq> (case res of Inr _ \<Rightarrow> insert u (dom (table (poller r))) | Inl _ \<Rightarrow> dom (table (poller r)))"
  proof (cases rule: insert_io_cases [where g = u])
    case (added p' ss r1)
    from add_ok [OF p added(1)] added(2,3) ins show ?thesis by auto
  next
    case (failed e p' ss r1)
    from add_err [OF p failed(1)] failed(2,3) ins show ?thesis by auto
  qed
  then show "ok (poller r')" "dom (table (poller r')) \<subseteq>
    (case res of Inr _ \<Rightarrow> insert u (dom (table (poller r))) | Inl _ \<Rightarrow> dom (table (poller r)))" by simp_all
qed

lemma new_nonblocking_covers:
  assumes R: "reactor_ok E items r" and p: "ok (poller r)"
    and io: "os_respects io S" "\<And>p p'. io p p' \<Longrightarrow> ok p \<Longrightarrow> tends ok table {} p p'"
    and new: "async_new_nonblocking S E h r = Inr (res, r')"
  shows "ok (poller r') \<and> dom (table (poller r')) \<subseteq>
    (case res of Inr _ \<Rightarrow> insert (handle_registration S h) (dom (table (poller r))) | Inl _ \<Rightarrow> dom (table (poller r)))"
proof -
  obtain ires r1 where ins: "insert_io E (handle_registration S h) r = Inr (ires, r1)"
    and out: "(case ires of Inl e \<Rightarrow> (Inl e, drop_handle S h r1)
      | Inr a \<Rightarrow> (Inr \<lparr>as_source = a, as_io = Some h\<rparr>, r1)) = (res, r')"
    using new unfolding async_new_nonblocking_def rbind_eq_Inr_iff by (force split: prod.splits)
  note I = insert_covers [OF R p ins]
  show ?thesis
  proof (cases ires)
    case (Inl e)
    note C = io_tends(1,2) [OF io I(1), of h]
    from out Inl have eqs: "res = Inl e" "poller r' = os_close S h (poller r1)" by (auto simp: drop_handle_def)
    with C subset_trans [OF C(2)] I(2) Inl show ?thesis by simp
  next
    case (Inr a)
    with out have "res = Inr \<lparr>as_source = a, as_io = Some h\<rparr>" "r' = r1" by auto
    with I Inr show ?thesis by simp
  qed
qed

lemma new_covers:
  assumes R: "reactor_ok E items r" and p: "ok (poller r)"
    and io: "os_respects io S" "\<And>p p'. io p p' \<Longrightarrow> ok p \<Longrightarrow> tends ok table {} p p'"
    and new: "async_new S E h r = Inr (res, r')"
  shows "ok (poller r') \<and> dom (table (poller r')) \<subseteq>
    (case res of Inr _ \<Rightarrow> insert (handle_registration S h) (dom (table (poller r))) | Inl _ \<Rightarrow> dom (table (poller r)))"
proof -
  obtain sres p1 where set: "set_nonblocking S (os_as_fd S h) (poller r) = (sres, p1)" by force
  note N = io_tends(3) [OF io p set]
  show ?thesis
  proof (cases sres)
    case (Inl e)
    note C = io_tends(1,2) [OF io conjunct1 [OF N], of h]
    from set new Inl have eqs: "res = Inl e" "poller r' = os_close S h p1" by (auto simp: async_new_def drop_handle_def)
    with C subset_trans [OF C(2) conjunct2 [OF N]] show ?thesis by simp
  next
    case (Inr u)
    with set new have new1: "async_new_nonblocking S E h (r\<lparr>poller := p1\<rparr>) = Inr (res, r')" by (simp add: async_new_def)
    have "reactor_ok E items (r\<lparr>poller := p1\<rparr>)" "ok (poller (r\<lparr>poller := p1\<rparr>))" using R N by simp_all
    from new_nonblocking_covers [OF this io new1] conjunct2 [OF N] show ?thesis by (cases res) (simp_all, blast+)
  qed
qed

text \<open>Giving a handle up, with the close that may follow.\<close>

lemma remove_covers:
  assumes R: "reactor_ok E items r" and p: "ok (poller r)" and x: "live E r (as_source a) s"
    and rem: "remove_io E s r = Inr (res, r')"
  shows "ok (poller r')" "dom (table (poller r')) - left_behind E a r \<subseteq> dom (table (poller r)) - {registration s}"
proof -
  note P = reactor_ok_parts [OF R]
  have at: "source_at E r (src_key s) \<noteq> None" using live_source_at [OF x] by simp
  from P(2,4) at have "ok (poller r') \<and> dom (table (poller r')) - left_behind E a r \<subseteq> dom (table (poller r)) - {registration s}"
  proof (cases rule: remove_io_cases)
    case (1 res1 p' ss r1)
    with rem have eqs: "res1 = res" "poller r' = p'" by auto
    have left: "left_behind E a r = (case res of Inl _ \<Rightarrow> {registration s} | Inr _ \<Rightarrow> {})"
      using x rem by (simp add: left_behind_def split: sum.splits)
    show ?thesis
    proof (cases res)
      case (Inl e)
      with delete_err [OF p, of "registration s" e p'] 1(1) eqs left show ?thesis by auto
    next
      case (Inr u)
      with delete_ok [OF p, of "registration s" p'] 1(1) eqs left show ?thesis by auto
    qed
  qed
  then show "ok (poller r')" "dom (table (poller r')) - left_behind E a r \<subseteq> dom (table (poller r)) - {registration s}" by simp_all
qed

lemma life_step_covered:
  assumes step: "life_step S E io g g'" and ok: "program_ok S E items g" and C: "covered ok table E g"
    and inj: "inj (os_registration S)" and io: "os_respects io S" "\<And>p p'. io p p' \<Longrightarrow> ok p \<Longrightarrow> tends ok table {} p p'"
  shows "covered ok table E g'"
proof -
  note sys = program_okD(1) [OF ok]
  from sys have R: "reactor_ok E items (pg_reactor g)" by (simp add: sys_ok_def)
  note src = reactor_ok_parts(2) [OF R]
  from C have p: "ok (poller (pg_reactor g))" and D: "dom (table (poller (pg_reactor g))) \<subseteq> registered_for E (pg_reactor g) \<union> pg_stuck g"
    by (simp_all add: covered_def)
  have gone: "covered ok table E g'"
    if a: "pg_handles g i = Some a" and x: "live E (pg_reactor g) (as_source a) s" and rem: "remove_io E s (pg_reactor g) = Inr (res, r1)"
      and r': "r' = r1 \<or> r' = drop_handle S h r1" and g': "pg_reactor g' = r'" "pg_stuck g' = pg_stuck g \<union> left_behind E a (pg_reactor g)"
    for i a s res r1 r' h
  proof -
    note Q = remove_covers [OF R p x rem] and T = remove_tables(2) [OF R x rem]
    have "u = registration s \<or> reg_at E r1 k = Some u" if "reg_at E (pg_reactor g) k = Some u" for k u
      using that live_source_at [OF x] by (cases "k = src_key s") (simp_all add: T, simp add: reg_at_def)
    then have "registered_for E (pg_reactor g) \<subseteq> insert (registration s) (registered_for E r1)"
      by (force simp: registered_for_def)
    moreover have "registered_for E r' = registered_for E r1" using r' by (auto simp: registered_for_def)
    moreover have "ok (poller r')" "dom (table (poller r')) \<subseteq> dom (table (poller r1))"
      using r' Q(1) io_tends(1,2) [OF io Q(1), of h] by (elim disjE; simp add: drop_handle_def)+
    ultimately show ?thesis unfolding covered_def g' using D Q(2) by blast
  qed
  from step show ?thesis
  proof (cases rule: life_step.cases)
    case (life_new h i a r')
    then have N: "ok (poller r') \<and> dom (table (poller r')) \<subseteq> insert (handle_registration S h) (dom (table (poller (pg_reactor g))))"
      using new_covers [OF R p io, of h "Inr a" r'] new_nonblocking_covers [OF R p io, of h "Inr a" r'] by auto
    have "reg_at E r' = (reg_at E (pg_reactor g))(k \<mapsto> handle_registration S h) \<Longrightarrow> reg_at E (pg_reactor g) k = None \<Longrightarrow>
        registered_for E r' = insert (handle_registration S h) (registered_for E (pg_reactor g))" for k
      unfolding registered_for_def by (force simp: fun_eq_iff)
    moreover have "\<exists>k. addr_at E (pg_reactor g) k = None \<and> reg_at E r' = (reg_at E (pg_reactor g))(k \<mapsto> handle_registration S h)"
      using new_tables [OF R, of S h "Inr a"] new_nonblocking_tables [OF R, of S h "Inr a"] life_new(4) by auto
    ultimately have "registered_for E r' = insert (handle_registration S h) (registered_for E (pg_reactor g))"
      using addr_at_None by blast
    with N D life_new(1) show ?thesis by (simp add: covered_def) blast
  next
    case (life_new_failed h e r')
    then have "ok (poller r') \<and> dom (table (poller r')) \<subseteq> dom (table (poller (pg_reactor g)))"
      using new_covers [OF R p io, of h "Inl e" r'] new_nonblocking_covers [OF R p io, of h "Inl e" r'] by auto
    moreover have "registered_for E r' = registered_for E (pg_reactor g)"
      using new_tables [OF R, of S h "Inl e"] new_nonblocking_tables [OF R, of S h "Inl e"] life_new_failed(3)
      by (auto simp: registered_for_def)
    ultimately show ?thesis using D life_new_failed(1) by (simp add: covered_def) blast
  next
    case (life_write i a h put h')
    with C show ?thesis by (simp add: covered_def)
  next
    case (life_drop i a r')
    from owned_source [OF ok life_drop(2)] obtain h s where O: "live E (pg_reactor g) (as_source a) s" "as_io a = Some h" by blast
    from drop_remove [OF life_drop(4) O(2,1)] obtain res r1 where "remove_io E s (pg_reactor g) = Inr (res, r1)"
      "r' = drop_handle S h r1" by blast
    then show ?thesis using life_drop(1) by (intro gone [OF life_drop(2) O(1), of res r1 r' h]) simp_all
  next
    case (life_into_inner i a res r')
    from owned_source [OF ok life_into_inner(2)] obtain h s where O: "live E (pg_reactor g) (as_source a) s" "as_io a = Some h" by blast
    from into_inner_remove [OF life_into_inner(4) O(1)] obtain h' dres r1 where D: "remove_io E s (pg_reactor g) = Inr (dres, r1)"
      "r' = r1 \<or> r' = drop_handle S h' r1" by metis
    then show ?thesis using life_into_inner(1) by (intro gone [OF life_into_inner(2) O(1) D]) simp_all
  next
    case (life_other st')
    from step_tends [OF life_other(2) sys p life_other(3) io(2)] step_tables(2) [OF life_other(2) sys life_other(3)] D life_other(1)
    show ?thesis by (simp add: covered_def tends_def watches_only_def registered_for_def) blast
  qed
qed

lemma life_steps_covered:
  assumes "(life_step S E io)\<^sup>*\<^sup>* g g'" "program_ok S E items g" "covered ok table E g"
    and "inj (os_registration S)" "os_respects io S" "\<And>p p'. io p p' \<Longrightarrow> ok p \<Longrightarrow> tends ok table {} p p'"
  shows "covered ok table E g'"
  using assms(1)
proof (induction rule: rtranclp_induct)
  case (step g1 g2)
  from life_steps_ok [OF step(1) assms(2,4,5)] have "program_ok S E items g1" by blast
  from life_step_covered [OF step(2) this step(3) assms(4-6)] show ?case .
qed (rule assms(3))

lemma program_init_covered:
  assumes "ok p" "table p = Map.empty"
  shows "covered ok table E (program_init E p)"
  using assms by (simp add: covered_def program_init_def sys_init_def reactor_new_def)

end

section \<open>Properties\<close>

text \<open>
  C5. The safety contract of the poller, on Unix: in every state a program reaches, the poller watches
  the descriptors of open handles only. A descriptor that a program has closed, or has got back from
  \<open>into_inner\<close>, is not watched any more, unless the poller has refused to delete it and it has not
  been registered anew since. No operation is assumed to do more to what is watched than to end it.
\<close>

theorem only_handles_are_watched:
  assumes "crates_ok E items" "platform_ok E (unix_registration P) watched" "fd_calls_ok P watched"
    and "os_registration S = unix_new" "os_respects io S" "\<And>q q'. io q q' \<Longrightarrow> dom (watched q') \<subseteq> dom (watched q)"
    and "watched p = Map.empty" "(life_step S E io)\<^sup>*\<^sup>* (program_init E p) g"
    and "watched (poller (pg_reactor g)) fd = Some e" "unix_new fd \<notin> pg_stuck g"
  shows "\<exists>i a h. pg_handles g i = Some a \<and> as_io a = Some h \<and> os_as_fd S h = fd"
proof -
  let ?ok = "platform_ok E (unix_registration P) watched \<and> fd_calls_ok P watched"
  have inj: "inj (os_registration S)" unfolding assms(4) by (simp add: inj_def unix_new_def)
  from life_steps_ok [OF assms(8) program_init_ok [OF assms(1)] inj assms(5)] have ok: "program_ok S E items g" by simp
  have "tends (\<lambda>_. ?ok) (unix_table watched) {} q q'" if "io q q'" for q q'
    using assms(6) [OF that] assms(2,3) unfolding tends_def watches_only_def
    by (auto simp: unix_table_def dom_def)
  moreover have "covered (\<lambda>_. ?ok) (unix_table watched) E (program_init E p)"
    using assms(2,3,7) by (intro unix_interest.program_init_covered) (simp_all add: unix_table_def fun_eq_iff)
  ultimately have "covered (\<lambda>_. ?ok) (unix_table watched) E g"
    using unix_interest.life_steps_covered [OF assms(8) program_init_ok [OF assms(1)] _ inj assms(5)] by blast
  moreover have "unix_table watched (poller (pg_reactor g)) (unix_new fd) = Some e"
    using assms(9) by (simp add: unix_table_def unix_new_def)
  ultimately have "unix_new fd \<in> registered_for E (pg_reactor g)"
    using assms(10) unfolding covered_def by blast
  then obtain k where "reg_at E (pg_reactor g) k = Some (unix_new fd)" by (auto simp: registered_for_def)
  with program_okD(3) [OF ok] obtain i h where "holds_key S E g i h k" "reg_at E (pg_reactor g) k = Some (unix_new fd)" by blast
  then show ?thesis by (auto simp: holds_key_def assms(4) unix_new_def)
qed

theorem only_handles_are_watched_witness:
  "\<exists>e i a h. sp_watched (poller (pg_reactor sim_program)) 7 = Some e \<and>
     pg_handles sim_program i = Some a \<and> as_io a = Some h \<and> os_as_fd sim_os h = 7"
proof -
  have "dom (sp_watched q') \<subseteq> dom (sp_watched q)" if "sim_io q q'" for q q' using that by (simp add: sim_io_def)
  moreover have "sp_watched (poller (pg_reactor sim_program)) 7 = Some (event_none 0)"
    by (simp add: sim_program_def sim_open_def Let_def)
  moreover have "sp_watched (sim_poller_new [] []) = Map.empty" "unix_new 7 \<notin> pg_stuck sim_program" "os_registration sim_os = unix_new"
    by (simp_all add: sim_poller_new_def sim_program_def program_init_def sim_os_def)
  ultimately show ?thesis
    using only_handles_are_watched [OF sim_ok sim_platform_ok sim_fd_calls_ok _ sim_os_respects _ _ sim_program_steps] by blast
qed

end
