(* ===== verification/Driver.thy ===== *)
theory Driver
  imports Sim_Crates
begin

text \<open>
  \<open>src/src/driver.rs\<close>: the main loop of the "async-io" thread and \<open>block_on\<close>.

  One turn of the main loop is a function of what the thread observes. \<open>block_on\<close> is a step
  relation: one thread runs it, others wake it and take the reactor's lock; each atomic
  operation of the code is a step. Ghost fields record whether the future's waker has been
  called since its last poll began, whether the thread has consumed a notification since, and how
  many other threads are inside \<open>block_on\<close> or about to leave it.
\<close>

section \<open>The main loop\<close>

record main_state =
  last_tick :: usize
  sleeps :: "64 word"

definition main_init :: main_state where
  "main_init = \<lparr>last_tick = 0, sleeps = 0\<rparr>"

text \<open>What one turn observes: the readings of the ticker, of the lock, of the counter, the parker.\<close>

record main_input =
  in_tick :: usize           \<comment> \<open>the ticker at the head of the loop\<close>
  in_try_lock :: bool        \<comment> \<open>whether \<open>try_lock\<close> would get the lock\<close>
  in_tick_reacted :: usize   \<comment> \<open>the ticker after \<open>react\<close>\<close>
  in_block_ons :: nat        \<comment> \<open>\<open>BLOCK_ON_COUNT\<close>\<close>
  in_notified :: bool        \<comment> \<open>whether the parker is notified before the delay is over\<close>
  in_tick_notified :: usize  \<comment> \<open>the ticker after the notification\<close>

datatype lock_call = Lock_Block | Lock_Try

definition main_lock :: "main_state \<Rightarrow> lock_call" where
  "main_lock d = (if 10 \<le> sleeps d then Lock_Block else Lock_Try)"

definition delays_us :: "nat list" where
  "delays_us = [50, 75, 100, 250, 500, 750, 1000, 2500, 5000]"

definition delay_us :: "64 word \<Rightarrow> nat" where
  "delay_us n = (if unat n < length delays_us then delays_us ! unat n else 10000)"

text \<open>The result: the new state, whether the turn has reacted, and how long it has parked.\<close>

definition main_turn :: "main_input \<Rightarrow> main_state \<Rightarrow> main_state \<times> bool \<times> nat option" where
  "main_turn i d =
     (let (d1, reacted) =
        (if last_tick d = in_tick i
         then (if main_lock d = Lock_Block \<or> in_try_lock i
               then (d\<lparr>last_tick := in_tick_reacted i, sleeps := 0\<rparr>, True)
               else (d, False))
         else (d\<lparr>last_tick := in_tick i\<rparr>, False))
      in if 0 < in_block_ons i
         then (if in_notified i
               then (d1\<lparr>last_tick := in_tick_notified i, sleeps := 0\<rparr>, reacted, Some (delay_us (sleeps d1)))
               else (d1\<lparr>sleeps := sleeps d1 + 1\<rparr>, reacted, Some (delay_us (sleeps d1))))
         else (d1, reacted, None))"

fun main_turns :: "main_input list \<Rightarrow> main_state \<Rightarrow> main_state \<times> (bool \<times> nat option) list" where
  "main_turns [] d = (d, [])"
| "main_turns (i # is) d = (case main_turn i d of (d1, out) \<Rightarrow>
     (case main_turns is d1 of (d2, outs) \<Rightarrow> (d2, out # outs)))"

text \<open>How long the loop sleeps before the first turn that reacts.\<close>

fun slept :: "(bool \<times> nat option) list \<Rightarrow> nat" where
  "slept [] = 0"
| "slept ((reacted, p) # outs) = (if reacted then 0 else (case p of Some n \<Rightarrow> n | None \<Rightarrow> 0) + slept outs)"

text \<open>A turn in which nobody has reacted, a \<open>block_on\<close> is active, and nobody unparks the thread.\<close>

definition quiet_turn :: "usize \<Rightarrow> main_input \<Rightarrow> bool" where
  "quiet_turn t i \<longleftrightarrow> in_tick i = t \<and> \<not> in_notified i \<and> 0 < in_block_ons i"

lemma unat_sleeps: "unat (n :: 64 word) + 1 < 2 ^ 64 \<Longrightarrow> unat (n + 1) = unat n + 1"
  by (simp add: unat_word_ariths)

lemma main_lock_unat: "main_lock d = Lock_Block \<longleftrightarrow> 10 \<le> unat (sleeps d)"
  by (simp add: main_lock_def word_le_nat_alt)

lemma quiet_turn_reacts:
  assumes "quiet_turn t i" "last_tick d = t" "10 \<le> unat (sleeps d) \<or> in_try_lock i"
  shows "\<exists>d1 p. main_turn i d = (d1, True, p)"
  using assms by (auto simp: main_turn_def quiet_turn_def main_lock_unat)

lemma quiet_turn_sleeps:
  assumes "quiet_turn t i" "last_tick d = t \<Longrightarrow> unat (sleeps d) < 10 \<and> \<not> in_try_lock i"
  shows "main_turn i d = (d\<lparr>last_tick := t, sleeps := sleeps d + 1\<rparr>, False, Some (delay_us (sleeps d)))"
  using assms by (cases d) (auto simp: main_turn_def quiet_turn_def main_lock_unat)

text \<open>The sleep that is left when \<open>n\<close> sleeps are over.\<close>

definition backoff_left :: "nat \<Rightarrow> nat" where
  "backoff_left n = sum_list (drop n (delays_us @ [10000]))"

lemma backoff_Suc:
  assumes "unat n < 10"
  shows "backoff_left (unat n) = delay_us n + backoff_left (Suc (unat n))"
proof -
  have len: "length (delays_us @ [10000]) = 10" and nine: "length delays_us = 9" by (simp_all add: delays_us_def)
  have "unat n = 9" if "\<not> unat n < 9" using assms that by simp
  then have "delay_us n = (delays_us @ [10000]) ! unat n" using nine by (auto simp: delay_us_def nth_append)
  then show ?thesis using Cons_nth_drop_Suc [of "unat n" "delays_us @ [10000]"] assms
    unfolding len backoff_left_def by (metis sum_list.Cons)
qed

lemma backoff_left_le: "backoff_left n \<le> 20225"
proof -
  have "sum_list (take n (delays_us @ [10000])) + backoff_left n = sum_list (delays_us @ [10000])"
    unfolding backoff_left_def by (metis append_take_drop_id sum_list_append)
  then show ?thesis by (simp add: delays_us_def)
qed

lemma delay_us_le: "delay_us n \<le> 10000"
  using nth_mem [of "unat n" delays_us] by (auto simp: delay_us_def delays_us_def)

lemma quiet_turns_react:
  assumes "\<forall>i\<in>set is. quiet_turn t i" "last_tick d = t" "11 \<le> unat (sleeps d) + length is" "is \<noteq> []"
    "main_turns is d = (d', outs)"
  shows "(\<exists>p. (True, p) \<in> set outs) \<and> slept outs \<le> backoff_left (unat (sleeps d))"
  using assms
proof (induction "is" arbitrary: d d' outs)
  case (Cons i "is")
  from Cons.prems(1) have q: "quiet_turn t i" by simp
  show ?case
  proof (cases "10 \<le> unat (sleeps d) \<or> in_try_lock i")
    case True
    then obtain d1 p where "main_turn i d = (d1, True, p)" using quiet_turn_reacts [OF q Cons.prems(2)] by blast
    then show ?thesis using Cons.prems(5) by (auto split: prod.splits)
  next
    case False
    define d1 where "d1 = d\<lparr>last_tick := t, sleeps := sleeps d + 1\<rparr>"
    have n: "unat (sleeps d) < 10" and d1: "unat (sleeps d1) = Suc (unat (sleeps d))"
      using False unat_sleeps [of "sleeps d"] by (simp_all add: d1_def)
    obtain d2 outs1 where rest: "main_turns is d1 = (d2, outs1)" by force
    have "(\<exists>p. (True, p) \<in> set outs1) \<and> slept outs1 \<le> backoff_left (unat (sleeps d1))"
      by (rule Cons.IH [OF _ _ _ _ rest]) (use Cons.prems(1, 3) n d1 in \<open>auto simp: d1_def\<close>)
    moreover have "outs = (False, Some (delay_us (sleeps d))) # outs1"
      using Cons.prems(5) quiet_turn_sleeps [OF q] False rest by (simp add: d1_def)
    ultimately show ?thesis using backoff_Suc [OF n] d1 by auto
  qed
qed simp

section \<open>\<open>block_on\<close>\<close>

datatype bo_pc =
    At_Enter | At_Start | At_Polling | At_Check | At_Try_React | At_React
  | At_Try_Lock | At_Set_Blocked | At_Check_Blocked | At_Wait | At_Check_Waited | At_Elapsed
  | At_Rearm | At_Unblock | At_Unlock | At_Unpark_Main | At_Park_Dropped | At_Unblock_Dropped | At_Park
  | At_Leave | At_Leave_Unpark | At_Done

datatype wake_pc = Wake_Idle | Wake_Check | Wake_Notify

datatype bo_lock = Lock_Free | Lock_Mine | Lock_Other

record bo =
  bo_pc :: bo_pc
  bo_token :: bool           \<comment> \<open>the parker's notification\<close>
  bo_io_blocked :: bool
  bo_io_polling :: bool      \<comment> \<open>this thread's \<open>IO_POLLING\<close>\<close>
  bo_lock :: bo_lock         \<comment> \<open>the reactor's lock\<close>
  bo_notified :: bool        \<comment> \<open>the poller's notification\<close>
  bo_wakers :: "nat \<Rightarrow> wake_pc"
  bo_count :: nat            \<comment> \<open>\<open>BLOCK_ON_COUNT\<close>\<close>
  bo_main_token :: bool      \<comment> \<open>the notification of the "async-io" thread's parker\<close>
  bo_main_parked :: bool     \<comment> \<open>the "async-io" thread is in \<open>park_timeout\<close>\<close>
  bo_others :: nat           \<comment> \<open>ghost: other threads between their \<open>fetch_add\<close> and \<open>fetch_sub\<close>\<close>
  bo_leaving :: nat          \<comment> \<open>ghost: other threads between their \<open>fetch_sub\<close> and \<open>unpark\<close>\<close>
  bo_woken :: bool           \<comment> \<open>ghost: woken since the last poll began\<close>
  bo_consumed :: bool        \<comment> \<open>ghost: a notification consumed since\<close>

text \<open>
  The parker and its waker are cached: wakers of an earlier call may still be running, and may
  have left a notification. Other threads may hold the lock.
\<close>

definition bo_init :: "bo \<Rightarrow> bool" where
  "bo_init s \<longleftrightarrow> bo_pc s = At_Enter \<and> \<not> bo_io_blocked s \<and> \<not> bo_io_polling s \<and>
     bo_lock s \<noteq> Lock_Mine \<and> \<not> bo_woken s \<and> \<not> bo_consumed s \<and> bo_count s = bo_others s \<and>
     (bo_main_parked s \<longrightarrow> 0 < bo_count s \<or> bo_main_token s \<or> 0 < bo_leaving s)"

abbreviation goto :: "bo_pc \<Rightarrow> bo \<Rightarrow> bo" where
  "goto c s \<equiv> s\<lparr>bo_pc := c\<rparr>"

abbreviation take_token :: "bo \<Rightarrow> bo" where
  "take_token s \<equiv> s\<lparr>bo_token := False, bo_consumed := True\<rparr>"

abbreviation set_token :: "bool \<Rightarrow> bo \<Rightarrow> bo" where
  "set_token b s \<equiv> s\<lparr>bo_token := bo_token s \<or> b, bo_woken := bo_woken s \<or> b\<rparr>"

text \<open>
  \<open>set_token b\<close> is \<open>unpark\<close> by a thread with \<open>IO_POLLING\<close> set, when \<open>b\<close> holds: it does not
  look further. The thread itself does so while it reacts, other threads while they hold the lock.
\<close>

inductive bo_self :: "bo \<Rightarrow> bo \<Rightarrow> bool" where
  bo_enter: "bo_pc s = At_Enter \<Longrightarrow> bo_self s (s\<lparr>bo_pc := At_Start, bo_count := bo_count s + 1\<rparr>)"
  \<comment> \<open>polling the future\<close>
| bo_poll: "bo_pc s = At_Start \<Longrightarrow>
     bo_self s (s\<lparr>bo_pc := At_Polling, bo_woken := False, bo_consumed := False\<rparr>)"
| bo_wake_self: "bo_pc s = At_Polling \<Longrightarrow> bo_self s (set_token True s)"
| bo_ready: "bo_pc s = At_Polling \<Longrightarrow> bo_self s (s\<lparr>bo_pc := At_Leave, bo_token := False\<rparr>)"
| bo_pending: "bo_pc s = At_Polling \<Longrightarrow> bo_self s (goto At_Check s)"
  \<comment> \<open>the future panics: the guard of the counter runs, the parker keeps its notification\<close>
| bo_panic: "bo_pc s = At_Polling \<Longrightarrow> bo_self s (goto At_Leave s)"
  \<comment> \<open>a notification after the poll: process the events at hand, and poll again\<close>
| bo_check_yes: "bo_pc s = At_Check \<Longrightarrow> bo_token s \<Longrightarrow> bo_self s (goto At_Try_React (take_token s))"
| bo_check_no: "bo_pc s = At_Check \<Longrightarrow> \<not> bo_token s \<Longrightarrow> bo_self s (goto At_Try_Lock s)"
| bo_try_react_yes: "bo_pc s = At_Try_React \<Longrightarrow> bo_lock s = Lock_Free \<Longrightarrow>
     bo_self s (s\<lparr>bo_pc := At_React, bo_lock := Lock_Mine, bo_io_polling := True\<rparr>)"
| bo_try_react_no: "bo_pc s = At_Try_React \<Longrightarrow> bo_lock s \<noteq> Lock_Free \<Longrightarrow> bo_self s (goto At_Start s)"
| bo_react: "bo_pc s = At_React \<Longrightarrow>
     bo_self s ((set_token b s)\<lparr>bo_pc := At_Unlock, bo_io_polling := False,
       bo_notified := bo_notified s \<and> n\<rparr>)"
| bo_unlock: "bo_pc s = At_Unlock \<Longrightarrow> bo_self s (s\<lparr>bo_pc := At_Start, bo_lock := Lock_Free\<rparr>)"
  \<comment> \<open>no notification: wait on the reactor if it is free\<close>
| bo_lock_yes: "bo_pc s = At_Try_Lock \<Longrightarrow> bo_lock s = Lock_Free \<Longrightarrow>
     bo_self s (s\<lparr>bo_pc := At_Set_Blocked, bo_lock := Lock_Mine\<rparr>)"
| bo_lock_no: "bo_pc s = At_Try_Lock \<Longrightarrow> bo_lock s \<noteq> Lock_Free \<Longrightarrow> bo_self s (goto At_Park s)"
| bo_set_blocked: "bo_pc s = At_Set_Blocked \<Longrightarrow>
     bo_self s (s\<lparr>bo_pc := At_Check_Blocked, bo_io_polling := True, bo_io_blocked := True\<rparr>)"
| bo_check_blocked_yes: "bo_pc s = At_Check_Blocked \<Longrightarrow> bo_token s \<Longrightarrow>
     bo_self s (goto At_Unblock (take_token s))"
| bo_check_blocked_no: "bo_pc s = At_Check_Blocked \<Longrightarrow> \<not> bo_token s \<Longrightarrow> bo_self s (goto At_Wait s)"
| bo_waited: "bo_pc s = At_Wait \<Longrightarrow>
     bo_self s ((set_token b s)\<lparr>bo_pc := At_Check_Waited, bo_notified := False\<rparr>)"
| bo_check_waited_yes: "bo_pc s = At_Check_Waited \<Longrightarrow> bo_token s \<Longrightarrow>
     bo_self s (goto At_Unblock (take_token s))"
| bo_check_waited_no: "bo_pc s = At_Check_Waited \<Longrightarrow> \<not> bo_token s \<Longrightarrow> bo_self s (goto At_Elapsed s)"
| bo_elapsed_no: "bo_pc s = At_Elapsed \<Longrightarrow> bo_self s (goto At_Rearm s)"
| bo_rearm: "bo_pc s = At_Rearm \<Longrightarrow>
     bo_self s (s\<lparr>bo_pc := At_Set_Blocked, bo_io_polling := False, bo_io_blocked := False\<rparr>)"
| bo_elapsed_yes: "bo_pc s = At_Elapsed \<Longrightarrow>
     bo_self s (s\<lparr>bo_pc := At_Unpark_Main, bo_lock := Lock_Free\<rparr>)"
| bo_unpark_main: "bo_pc s = At_Unpark_Main \<Longrightarrow>
     bo_self s (s\<lparr>bo_pc := At_Park_Dropped, bo_main_token := True\<rparr>)"
| bo_park_dropped: "bo_pc s = At_Park_Dropped \<Longrightarrow> bo_token s \<Longrightarrow>
     bo_self s (goto At_Unblock_Dropped (take_token s))"
| bo_unblock_dropped: "bo_pc s = At_Unblock_Dropped \<Longrightarrow>
     bo_self s (s\<lparr>bo_pc := At_Start, bo_io_polling := False, bo_io_blocked := False\<rparr>)"
| bo_unblock: "bo_pc s = At_Unblock \<Longrightarrow>
     bo_self s (s\<lparr>bo_pc := At_Unlock, bo_io_polling := False, bo_io_blocked := False\<rparr>)"
| bo_park: "bo_pc s = At_Park \<Longrightarrow> bo_token s \<Longrightarrow> bo_self s (goto At_Start (take_token s))"
  \<comment> \<open>the guard of the counter\<close>
| bo_leave: "bo_pc s = At_Leave \<Longrightarrow> bo_self s (s\<lparr>bo_pc := At_Leave_Unpark, bo_count := bo_count s - 1\<rparr>)"
| bo_leave_unpark: "bo_pc s = At_Leave_Unpark \<Longrightarrow>
     bo_self s (s\<lparr>bo_pc := At_Done, bo_main_token := True\<rparr>)"

text \<open>\<open>wake_by_ref\<close>, called by a thread that does not poll I/O: \<open>unpark\<close>, then \<open>io_blocked\<close>, then \<open>notify\<close>.\<close>

inductive bo_wake :: "bo \<Rightarrow> bo \<Rightarrow> bool" where
  wake_first: "bo_wakers s i = Wake_Idle \<Longrightarrow> \<not> bo_token s \<Longrightarrow>
     bo_wake s (s\<lparr>bo_token := True, bo_woken := True, bo_wakers := (bo_wakers s)(i := Wake_Check)\<rparr>)"
| wake_again: "bo_wakers s i = Wake_Idle \<Longrightarrow> bo_token s \<Longrightarrow> bo_wake s (s\<lparr>bo_woken := True\<rparr>)"
| wake_blocked: "bo_wakers s i = Wake_Check \<Longrightarrow> bo_io_blocked s \<Longrightarrow>
     bo_wake s (s\<lparr>bo_wakers := (bo_wakers s)(i := Wake_Notify)\<rparr>)"
| wake_running: "bo_wakers s i = Wake_Check \<Longrightarrow> \<not> bo_io_blocked s \<Longrightarrow>
     bo_wake s (s\<lparr>bo_wakers := (bo_wakers s)(i := Wake_Idle)\<rparr>)"
| wake_notify: "bo_wakers s i = Wake_Notify \<Longrightarrow>
     bo_wake s (s\<lparr>bo_notified := True, bo_wakers := (bo_wakers s)(i := Wake_Idle)\<rparr>)"

text \<open>The other threads: they drive the reactor, and call \<open>block_on\<close> themselves.\<close>

inductive bo_other :: "bo \<Rightarrow> bo \<Rightarrow> bool" where
  other_lock: "bo_lock s = Lock_Free \<Longrightarrow> bo_other s (s\<lparr>bo_lock := Lock_Other\<rparr>)"
| other_react: "bo_lock s = Lock_Other \<Longrightarrow>
     bo_other s ((set_token b s)\<lparr>bo_notified := bo_notified s \<and> n\<rparr>)"
| other_unlock: "bo_lock s = Lock_Other \<Longrightarrow> bo_other s (s\<lparr>bo_lock := Lock_Free\<rparr>)"
| other_enter: "bo_other s (s\<lparr>bo_count := bo_count s + 1, bo_others := bo_others s + 1\<rparr>)"
| other_unpark_main: "bo_other s (s\<lparr>bo_main_token := True\<rparr>)"
| other_leave: "0 < bo_others s \<Longrightarrow>
     bo_other s (s\<lparr>bo_count := bo_count s - 1, bo_others := bo_others s - 1, bo_leaving := bo_leaving s + 1\<rparr>)"
| other_leave_unpark: "0 < bo_leaving s \<Longrightarrow>
     bo_other s (s\<lparr>bo_leaving := bo_leaving s - 1, bo_main_token := True\<rparr>)"

text \<open>The "async-io" thread parks when it reads a positive counter, until it is notified or the delay is over.\<close>

inductive bo_main :: "bo \<Rightarrow> bo \<Rightarrow> bool" where
  main_park: "\<not> bo_main_parked s \<Longrightarrow> 0 < bo_count s \<Longrightarrow> bo_main s (s\<lparr>bo_main_parked := True\<rparr>)"
| main_notified: "bo_main_parked s \<Longrightarrow> bo_main_token s \<Longrightarrow>
     bo_main s (s\<lparr>bo_main_parked := False, bo_main_token := False\<rparr>)"
| main_timeout: "bo_main_parked s \<Longrightarrow> \<not> bo_main_token s \<Longrightarrow> bo_main s (s\<lparr>bo_main_parked := False\<rparr>)"

inductive bo_step :: "bo \<Rightarrow> bo \<Rightarrow> bool" where
  step_self: "bo_self s s' \<Longrightarrow> bo_step s s'"
| step_wake: "bo_wake s s' \<Longrightarrow> bo_step s s'"
| step_other: "bo_other s s' \<Longrightarrow> bo_step s s'"
| step_main: "bo_main s s' \<Longrightarrow> bo_step s s'"

inductive bo_reachable :: "bo \<Rightarrow> bool" where
  reach_init: "bo_init s \<Longrightarrow> bo_reachable s"
| reach_step: "bo_reachable s \<Longrightarrow> bo_step s s' \<Longrightarrow> bo_reachable s'"

inductive_cases bo_selfE: "bo_self s s'"
inductive_cases bo_wakeE: "bo_wake s s'"
inductive_cases bo_otherE: "bo_other s s'"
inductive_cases bo_mainE: "bo_main s s'"

subsection \<open>The invariant\<close>

text \<open>
  The points of the code at which the thread holds the lock, at which it has told the wakers that
  it is blocked, and those it passes on its way from a consumed notification to the next poll.
\<close>

definition holds_lock :: "bo_pc \<Rightarrow> bool" where
  "holds_lock c \<longleftrightarrow> c \<in> {At_React, At_Unlock, At_Set_Blocked, At_Check_Blocked, At_Wait, At_Check_Waited,
     At_Elapsed, At_Rearm, At_Unblock}"

definition says_blocked :: "bo_pc \<Rightarrow> bool" where
  "says_blocked c \<longleftrightarrow> c \<in> {At_Check_Blocked, At_Wait, At_Check_Waited, At_Elapsed, At_Rearm, At_Unblock,
     At_Unpark_Main, At_Park_Dropped, At_Unblock_Dropped}"

definition over :: "bo_pc \<Rightarrow> bool" where
  "over c \<longleftrightarrow> c \<in> {At_Leave, At_Leave_Unpark, At_Done}"

definition on_the_way :: "bo_pc \<Rightarrow> bool" where
  "on_the_way c \<longleftrightarrow> c \<in> {At_Start, At_Try_React, At_React, At_Unlock, At_Unblock, At_Unblock_Dropped}"

definition bo_ok :: "bo \<Rightarrow> bool" where
  "bo_ok s \<longleftrightarrow> (bo_lock s = Lock_Mine) = holds_lock (bo_pc s) \<and>
     bo_io_blocked s = says_blocked (bo_pc s) \<and>
     bo_io_polling s = (says_blocked (bo_pc s) \<or> bo_pc s = At_React) \<and>
     (bo_woken s \<and> \<not> over (bo_pc s) \<longrightarrow> bo_token s \<or> bo_consumed s) \<and>
     (bo_consumed s \<longrightarrow> on_the_way (bo_pc s)) \<and>
     (bo_pc s = At_Wait \<and> bo_token s \<longrightarrow> bo_notified s \<or> (\<exists>i. bo_wakers s i \<noteq> Wake_Idle))"

lemmas bo_ok_defs = bo_ok_def holds_lock_def says_blocked_def on_the_way_def over_def

lemma bo_ok_init: "bo_init s \<Longrightarrow> bo_ok s"
  by (auto simp: bo_ok_defs bo_init_def)

lemma bo_ok_self: "bo_self s s' \<Longrightarrow> bo_ok s \<Longrightarrow> bo_ok s'"
  by (erule bo_selfE) (simp_all add: bo_ok_defs, auto)

text \<open>While the thread says that it is blocked, a waker that is past \<open>unpark\<close> goes on to \<open>notify\<close>.\<close>

lemma bo_ok_wake:
  assumes "bo_wake s s'" "bo_ok s"
  shows "bo_ok s'"
  using assms(1)
proof (cases rule: bo_wake.cases)
  case (wake_first i)
  then have "bo_wakers s' i \<noteq> Wake_Idle" by simp
  then show ?thesis using assms(2) wake_first by (auto simp: bo_ok_def simp del: fun_upd_apply)
next
  case wake_again
  then show ?thesis using assms(2) by (simp add: bo_ok_def)
next
  case (wake_blocked i)
  then have "bo_wakers s' i \<noteq> Wake_Idle" by simp
  then show ?thesis using assms(2) wake_blocked by (auto simp: bo_ok_def simp del: fun_upd_apply)
next
  case (wake_running i)
  then have "bo_pc s \<noteq> At_Wait" using assms(2) by (auto simp: bo_ok_def says_blocked_def)
  then show ?thesis using assms(2) wake_running by (simp add: bo_ok_def)
next
  case wake_notify
  then show ?thesis using assms(2) by (simp add: bo_ok_def)
qed

lemma bo_ok_main: "bo_main s s' \<Longrightarrow> bo_ok s \<Longrightarrow> bo_ok s'"
  by (erule bo_mainE) (simp_all add: bo_ok_def)

lemma bo_ok_other:
  assumes "bo_other s s'" "bo_ok s"
  shows "bo_ok s'"
proof -
  have "bo_pc s \<noteq> At_Wait" if "bo_lock s \<noteq> Lock_Mine"
    using that assms(2) by (auto simp: bo_ok_def holds_lock_def)
  with assms show ?thesis by (cases rule: bo_other.cases) (auto simp: bo_ok_def)
qed

lemma bo_ok_reachable: "bo_reachable s \<Longrightarrow> bo_ok s"
  by (induction rule: bo_reachable.induct) (auto elim!: bo_step.cases intro: bo_ok_init bo_ok_self bo_ok_wake bo_ok_other bo_ok_main)

text \<open>The counter counts this thread too, and a parked "async-io" thread is told when it becomes zero.\<close>

definition counted :: "bo_pc \<Rightarrow> bool" where
  "counted c \<longleftrightarrow> c \<notin> {At_Enter, At_Leave_Unpark, At_Done}"

definition bo_counted :: "bo \<Rightarrow> bool" where
  "bo_counted s \<longleftrightarrow> bo_count s = bo_others s + (if counted (bo_pc s) then 1 else 0) \<and>
     (bo_main_parked s \<longrightarrow> 0 < bo_count s \<or> bo_main_token s \<or> 0 < bo_leaving s \<or> bo_pc s = At_Leave_Unpark)"

lemma bo_counted_self: "bo_self s s' \<Longrightarrow> bo_counted s \<Longrightarrow> bo_counted s'"
  by (erule bo_selfE) (simp_all add: bo_counted_def counted_def split: if_splits)

lemma bo_counted_rest: "bo_wake s s' \<or> bo_other s s' \<or> bo_main s s' \<Longrightarrow> bo_counted s \<Longrightarrow> bo_counted s'"
  by (elim disjE bo_wakeE bo_otherE bo_mainE) (auto simp: bo_counted_def)

lemma bo_counted_init: "bo_init s \<Longrightarrow> bo_counted s"
  by (auto simp: bo_init_def bo_counted_def counted_def)

lemma bo_counted_reachable: "bo_reachable s \<Longrightarrow> bo_counted s"
  by (induction rule: bo_reachable.induct)
    (blast elim: bo_step.cases intro: bo_counted_init bo_counted_self bo_counted_rest)+

subsection \<open>Runs\<close>

text \<open>\<open>bo_run s n s'\<close>: the thread takes \<open>n\<close> steps, other threads any number, and no poll begins.\<close>

inductive bo_run :: "bo \<Rightarrow> nat \<Rightarrow> bo \<Rightarrow> bool" where
  run_refl: "bo_run s 0 s"
| run_self: "bo_run s n s1 \<Longrightarrow> bo_pc s1 \<noteq> At_Start \<Longrightarrow> bo_self s1 s2 \<Longrightarrow> bo_run s (Suc n) s2"
| run_wake: "bo_run s n s1 \<Longrightarrow> bo_wake s1 s2 \<Longrightarrow> bo_run s n s2"
| run_other: "bo_run s n s1 \<Longrightarrow> bo_other s1 s2 \<Longrightarrow> bo_run s n s2"
| run_main: "bo_run s n s1 \<Longrightarrow> bo_main s1 s2 \<Longrightarrow> bo_run s n s2"

lemma bo_run_reachable: "bo_run s n s' \<Longrightarrow> bo_reachable s \<Longrightarrow> bo_reachable s'"
  by (induction rule: bo_run.induct) (blast intro: reach_step bo_step.intros)+

text \<open>How many steps a woken thread is away from its next poll.\<close>

fun bo_rank :: "bo_pc \<Rightarrow> nat" where
  "bo_rank At_Elapsed = 6" | "bo_rank At_Check = 6" | "bo_rank At_Try_Lock = 5" | "bo_rank At_Rearm = 5"
| "bo_rank At_Set_Blocked = 4" | "bo_rank At_Wait = 4" | "bo_rank At_Check_Blocked = 3"
| "bo_rank At_Check_Waited = 3" | "bo_rank At_Try_React = 3" | "bo_rank At_React = 2"
| "bo_rank At_Unblock = 2" | "bo_rank At_Park_Dropped = 2" | "bo_rank At_Unlock = 1"
| "bo_rank At_Unpark_Main = 3" | "bo_rank At_Enter = 1" | "bo_rank At_Unblock_Dropped = 1" | "bo_rank At_Park = 1" | "bo_rank _ = 0"

lemma bo_rank_le: "bo_rank c \<le> 6"
  by (cases c) simp_all

definition waiting_pc :: "bo_pc \<Rightarrow> bool" where
  "waiting_pc c \<longleftrightarrow> c \<noteq> At_Polling \<and> \<not> over c"

lemma woken_self_step:
  assumes "bo_self s s'" "bo_ok s" "bo_woken s" "waiting_pc (bo_pc s)" "bo_pc s \<noteq> At_Start"
  shows "bo_rank (bo_pc s') < bo_rank (bo_pc s) \<and> bo_woken s' \<and> waiting_pc (bo_pc s')"
  using assms by (cases rule: bo_self.cases) (auto simp: bo_ok_defs waiting_pc_def)

lemma bo_main_frame: "bo_main s s' \<Longrightarrow> bo_pc s' = bo_pc s \<and> (bo_woken s \<longrightarrow> bo_woken s')"
  by (erule bo_mainE) simp_all

lemma bo_wake_frame: "bo_wake s s' \<Longrightarrow> bo_pc s' = bo_pc s \<and> (bo_woken s \<longrightarrow> bo_woken s')"
  by (erule bo_wakeE) simp_all

lemma bo_other_frame: "bo_other s s' \<Longrightarrow> bo_pc s' = bo_pc s \<and> (bo_woken s \<longrightarrow> bo_woken s')"
  by (erule bo_otherE) simp_all

lemma bo_run_rank:
  assumes "bo_run s n s'" "bo_reachable s" "bo_woken s" "waiting_pc (bo_pc s)"
  shows "n + bo_rank (bo_pc s') \<le> bo_rank (bo_pc s) \<and> bo_woken s' \<and> waiting_pc (bo_pc s')"
  using assms
proof (induction rule: bo_run.induct)
  case (run_self s n s1 s2)
  from run_self woken_self_step [OF run_self(3) bo_ok_reachable [OF bo_run_reachable [OF run_self(1)]]]
  show ?case by auto
qed (auto dest: bo_wake_frame bo_other_frame bo_main_frame)

text \<open>A woken thread that is not polling always has a step to take.\<close>

lemma woken_not_stuck:
  assumes "bo_ok s" "bo_woken s" "waiting_pc (bo_pc s)"
  shows "\<exists>s'. bo_self s s'"
proof (cases "bo_pc s")
  case At_Check
  then show ?thesis by (cases "bo_token s") (blast intro: bo_check_yes bo_check_no)+
next
  case At_Try_React
  then show ?thesis by (cases "bo_lock s = Lock_Free") (blast intro: bo_try_react_yes bo_try_react_no)+
next
  case At_Try_Lock
  then show ?thesis by (cases "bo_lock s = Lock_Free") (blast intro: bo_lock_yes bo_lock_no)+
next
  case At_Check_Blocked
  then show ?thesis by (cases "bo_token s") (blast intro: bo_check_blocked_yes bo_check_blocked_no)+
next
  case At_Check_Waited
  then show ?thesis by (cases "bo_token s") (blast intro: bo_check_waited_yes bo_check_waited_no)+
next
  case At_Park
  then have "bo_token s" using assms by (auto simp: bo_ok_defs)
  then show ?thesis using At_Park by (blast intro: bo_park)
next
  case At_Park_Dropped
  then have "bo_token s" using assms by (auto simp: bo_ok_defs)
  then show ?thesis using At_Park_Dropped by (blast intro: bo_park_dropped)
qed (use assms(3) in \<open>auto simp: waiting_pc_def over_def intro: bo_enter bo_unpark_main bo_poll bo_react bo_unlock bo_set_blocked
  bo_waited bo_elapsed_no bo_rearm bo_unblock bo_unblock_dropped\<close>)

subsection \<open>An example: woken between the check and the wait\<close>

definition bo_first :: bo where
  "bo_first = \<lparr>bo_pc = At_Start, bo_token = False, bo_io_blocked = False, bo_io_polling = False,
     bo_lock = Lock_Free, bo_notified = False, bo_wakers = (\<lambda>_. Wake_Idle),
     bo_count = 1, bo_main_token = False, bo_main_parked = False, bo_others = 0, bo_leaving = 0, bo_woken = False,
     bo_consumed = False\<rparr>"

definition bo_example :: bo where
  "bo_example = \<lparr>bo_pc = At_Wait, bo_token = True, bo_io_blocked = True, bo_io_polling = True,
     bo_lock = Lock_Mine, bo_notified = False, bo_wakers = (\<lambda>_. Wake_Idle)(0 := Wake_Check),
     bo_count = 1, bo_main_token = False, bo_main_parked = False, bo_others = 0, bo_leaving = 0, bo_woken = True, bo_consumed = False\<rparr>"

lemma reach_self: "bo_reachable s \<Longrightarrow> bo_self s s' \<Longrightarrow> bo_reachable s'"
  by (rule reach_step [OF _ step_self])

lemma reach_first: "bo_reachable bo_first"
proof -
  have "bo_reachable (bo_first\<lparr>bo_pc := At_Enter, bo_count := 0\<rparr>)"
    by (rule reach_init) (simp add: bo_init_def bo_first_def)
  from reach_self [OF this bo_enter] show ?thesis by (simp add: bo_first_def)
qed

lemma reach_waiting: "bo_reachable (bo_first\<lparr>bo_pc := At_Wait, bo_lock := Lock_Mine, bo_io_polling := True, bo_io_blocked := True\<rparr>)"
proof -
  note r1 = reach_self [OF reach_first bo_poll]
  note r2 = reach_self [OF r1 bo_pending]
  note r3 = reach_self [OF r2 bo_check_no]
  note r4 = reach_self [OF r3 bo_lock_yes]
  note r5 = reach_self [OF r4 bo_set_blocked]
  note r6 = reach_self [OF r5 bo_check_blocked_no]
  show ?thesis using r6 by (simp add: bo_first_def)
qed

lemma reach_example: "bo_reachable bo_example"
  using reach_step [OF reach_waiting step_wake [OF wake_first [where i = 0]]]
  by (simp add: bo_first_def bo_example_def)

section \<open>Properties\<close>

text \<open>
  C19. No wakeup of a \<open>block_on\<close> thread is lost. In every reachable state in which the thread is
  about to sleep (in \<open>react(None)\<close>, or in one of the two \<open>park\<close>s) and its waker has been called
  since the last poll began, the parker holds the notification; and if it sleeps in the reactor,
  the poller is notified, or a waker is past its \<open>unpark\<close>: it is about to notify the poller, or
  about to read \<open>io_blocked\<close>, which is set.
\<close>

theorem block_on_loses_no_wakeup:
  assumes "bo_reachable s" "bo_woken s" "bo_pc s \<in> {At_Wait, At_Park, At_Park_Dropped}"
  shows "bo_token s \<and> (bo_pc s = At_Wait \<longrightarrow> bo_notified s \<or>
    (\<exists>i. bo_wakers s i = Wake_Notify \<or> bo_wakers s i = Wake_Check \<and> bo_io_blocked s))"
proof -
  note ok = bo_ok_reachable [OF assms(1)]
  have "\<not> on_the_way (bo_pc s)" "\<not> over (bo_pc s)" using assms(3) by (auto simp: on_the_way_def over_def)
  then have t: "bo_token s" using ok assms(2) by (auto simp: bo_ok_def)
  moreover have "bo_notified s \<or> (\<exists>i. bo_wakers s i \<noteq> Wake_Idle)" "bo_io_blocked s" if "bo_pc s = At_Wait"
    using ok t that by (simp_all add: bo_ok_def says_blocked_def)
  ultimately show ?thesis by (metis wake_pc.exhaust)
qed

theorem block_on_loses_no_wakeup_witness:
  "bo_token bo_example \<and> (\<exists>i. bo_wakers bo_example i = Wake_Notify \<or> bo_wakers bo_example i = Wake_Check)"
  using block_on_loses_no_wakeup [OF reach_example] by (auto simp: bo_example_def)



text \<open>
  A \<open>block_on\<close> thread that claims to poll I/O holds the reactor's lock, unless it is parked
  after giving the lock up, or about to withdraw the claim; so a waker that it skips because of
  the claim cannot belong to a thread that waits in the reactor. When it starts a poll, and when
  it has returned, it holds no lock and claims nothing.
\<close>

theorem io_polling_needs_lock:
  assumes "bo_reachable s"
  shows "(bo_io_polling s \<longrightarrow> bo_lock s = Lock_Mine \<or> bo_pc s \<in> {At_Unpark_Main, At_Park_Dropped, At_Unblock_Dropped}) \<and>
    (bo_pc s \<in> {At_Start, At_Polling, At_Leave, At_Leave_Unpark, At_Done} \<longrightarrow> \<not> bo_io_polling s \<and> \<not> bo_io_blocked s \<and> bo_lock s \<noteq> Lock_Mine)"
  using bo_ok_reachable [OF assms] by (auto simp: bo_ok_defs)

theorem io_polling_needs_lock_witness: "bo_io_polling bo_example \<and> bo_lock bo_example = Lock_Mine"
  using io_polling_needs_lock [OF reach_example] by (simp add: bo_example_def)

text \<open>
  C21. The counter tells the truth to the "async-io" thread: it is positive while the thread runs
  \<open>block_on\<close>, and when it is zero while the "async-io" thread is parked, that thread has a
  notification waiting, or whoever has left \<open>block_on\<close> is about to give it one. So it never sleeps on
  when no \<open>block_on\<close> is there to process I/O.
\<close>

theorem last_block_on_wakes_main:
  assumes "bo_reachable s"
  shows "(bo_pc s \<notin> {At_Enter, At_Leave_Unpark, At_Done} \<longrightarrow> 0 < bo_count s) \<and>
    (bo_main_parked s \<and> bo_count s = 0 \<longrightarrow> bo_main_token s \<or>
      bo_pc s = At_Leave_Unpark \<and> (\<exists>s'. bo_self s s' \<and> bo_main_token s') \<or>
      0 < bo_leaving s \<and> (\<exists>s'. bo_other s s' \<and> bo_main_token s'))"
proof -
  note counted = bo_counted_reachable [OF assms, unfolded bo_counted_def counted_def]
  have "\<exists>s'. bo_self s s' \<and> bo_main_token s'" if "bo_pc s = At_Leave_Unpark"
    using bo_leave_unpark [OF that] by fastforce
  moreover have "\<exists>s'. bo_other s s' \<and> bo_main_token s'" if "0 < bo_leaving s"
    using other_leave_unpark [OF that] by fastforce
  ultimately show ?thesis using counted by auto
qed

theorem last_block_on_wakes_main_witness: "0 < bo_count bo_example"
  using last_block_on_wakes_main [OF reach_example] by (simp add: bo_example_def)

text \<open>
  C28. While a \<open>block_on\<close> is active and nobody else reacts, the "async-io" thread leaves the reactor
  alone for a short time only: within eleven turns it processes I/O itself, having slept for at
  most 20.225 milliseconds, even when it finds the reactor locked every time it tries.
\<close>

theorem main_loop_reacts:
  assumes "\<forall>i\<in>set is. quiet_turn t i" "length is = 11" "unat (sleeps d) + 1 < 2 ^ 64"
    "main_turns is d = (d', outs)"
  shows "(\<exists>p. (True, p) \<in> set outs) \<and> slept outs \<le> 20225"
proof (cases "last_tick d = t")
  case True
  have "is \<noteq> []" using assms(2) by auto
  with quiet_turns_react [OF assms(1) True _ _ assms(4)] assms(2) backoff_left_le [of "unat (sleeps d)"]
  show ?thesis by fastforce
next
  case False
  obtain i is1 where turns: "is = i # is1" using assms(2) by (cases "is") auto
  define d1 where "d1 = d\<lparr>last_tick := t, sleeps := sleeps d + 1\<rparr>"
  have d1: "unat (sleeps d1) = Suc (unat (sleeps d))" using unat_sleeps [OF assms(3)] by (simp add: d1_def)
  obtain d2 outs1 where rest: "main_turns is1 d1 = (d2, outs1)" by force
  have outs: "outs = (False, Some (delay_us (sleeps d))) # outs1"
    using assms(1, 4) quiet_turn_sleeps [of t i d] False rest turns by (simp add: d1_def)
  have "(\<exists>p. (True, p) \<in> set outs1) \<and> slept outs1 \<le> backoff_left (Suc (unat (sleeps d)))"
    unfolding d1 [symmetric]
    by (rule quiet_turns_react [where t = t, OF _ _ _ _ rest]) (use assms(1, 2) turns d1 in \<open>auto simp: d1_def\<close>)
  moreover have "delay_us (sleeps d) + backoff_left (Suc (unat (sleeps d))) \<le> 20225"
  proof (cases "unat (sleeps d) < 10")
    case True
    then show ?thesis using backoff_Suc [OF True] backoff_left_le [of "unat (sleeps d)"] by simp
  next
    case False
    then have "backoff_left (Suc (unat (sleeps d))) = 0" by (simp add: backoff_left_def delays_us_def)
    then show ?thesis using delay_us_le [of "sleeps d"] by simp
  qed
  ultimately show ?thesis using outs by auto
qed

theorem main_loop_reacts_witness:
  "slept (snd (main_turns (replicate 11 \<lparr>in_tick = 7, in_try_lock = False, in_tick_reacted = 8,
      in_block_ons = 1, in_notified = False, in_tick_notified = 0\<rparr>) main_init)) \<le> 20225"
  by (rule main_loop_reacts [of _ 7, THEN conjunct2])
    (auto simp: quiet_turn_def main_init_def intro: prod.collapse [symmetric])

end
