(* ===== verification/Block_On.thy ===== *)
theory Block_On
  imports Driver Timer Rounds
begin

text \<open>
  \<open>block_on\<close> of \<open>src/src/driver.rs\<close> once more, this time as the thread that runs it sees it: a
  function that computes, over the reactor of the other theories. It is given the future, the
  thread's waker and a schedule, which says what the thread cannot know: the readings of the clock,
  whether it would get the reactor's lock, and how the threads that react while it is parked do so.
  The step relation of \<open>Driver\<close> has every interleaving of wakers, but abstracts the future and
  the rounds; here the rounds are the reactor's, and other threads run while this one is parked.
\<close>

section \<open>The thread and its surroundings\<close>

text \<open>The fields of a schedule are indexed by the moment, \<open>wd_now\<close>, which every reading advances.\<close>

record schedule =
  sc_clock :: "nat \<Rightarrow> instant"
  sc_free :: "nat \<Rightarrow> bool"                      \<comment> \<open>whether \<open>try_lock\<close> would get the lock\<close>
  sc_timeout :: "nat \<Rightarrow> duration option"       \<comment> \<open>the timeout of a round of another thread\<close>
  sc_polling :: "nat \<Rightarrow> bool"                   \<comment> \<open>\<open>IO_POLLING\<close> of that thread\<close>

record ('p, 'sw, 'ss, 'q, 'reg) world =
  wd_reactor :: "('p, 'sw, 'ss, 'q, 'reg) reactor"
  wd_now :: nat
  wd_token :: bool         \<comment> \<open>the parker's notification\<close>
  wd_polling :: bool       \<comment> \<open>this thread's \<open>IO_POLLING\<close>\<close>
  wd_blocked :: bool       \<comment> \<open>\<open>io_blocked\<close>\<close>
  wd_block_ons :: nat      \<comment> \<open>\<open>BLOCK_ON_COUNT\<close>\<close>
  wd_main_token :: bool    \<comment> \<open>the notification of the "async-io" thread's parker\<close>

text \<open>
  A future: \<open>poll\<close> is given the clock, the moment and the waker, and says how many readings it
  made; \<open>drop\<close> is what happens to the future when \<open>block_on\<close> returns.
\<close>

record ('f, 'a, 'p, 'sw, 'ss, 'q, 'reg) future_ops =
  fut_poll :: "(nat \<Rightarrow> instant) \<Rightarrow> nat \<Rightarrow> waker \<Rightarrow> 'f \<Rightarrow> ('p, 'sw, 'ss, 'q, 'reg) reactor \<Rightarrow>
    (panic + 'a poll \<times> 'f \<times> ('p, 'sw, 'ss, 'q, 'reg) reactor \<times> nat) option"
  fut_drop :: "'f \<Rightarrow> ('p, 'sw, 'ss, 'q, 'reg) reactor \<Rightarrow> (panic + ('p, 'sw, 'ss, 'q, 'reg) reactor) option"

definition new_wakes :: "('p, 'sw, 'ss, 'q, 'reg) reactor \<Rightarrow> ('p, 'sw, 'ss, 'q, 'reg) reactor \<Rightarrow> waker list" where
  "new_wakes r r' = drop (length (woken r)) (woken r')"

text \<open>
  \<open>BlockOnWaker::wake_by_ref\<close>, called by a thread whose \<open>IO_POLLING\<close> is \<open>polling\<close>, for the wakers
  that were called: \<open>unpark\<close> says whether the notification is new.
\<close>

definition wake_thread :: "('p, 'sw, 'ss, 'q, 'reg) crates \<Rightarrow> waker \<Rightarrow> bool \<Rightarrow> waker list \<Rightarrow>
    ('p, 'sw, 'ss, 'q, 'reg) world \<Rightarrow> panic + ('p, 'sw, 'ss, 'q, 'reg) world" where
  "wake_thread E me polling ws w =
     (if (\<exists>v\<in>set ws. wakes_task E v me) \<and> \<not> wd_token w
      then (if \<not> polling \<and> wd_blocked w
            then rbind (reactor_notify E (wd_reactor w)) (\<lambda>r. Inr (w\<lparr>wd_token := True, wd_reactor := r\<rparr>))
            else Inr (w\<lparr>wd_token := True\<rparr>))
      else Inr w)"

text \<open>A call of \<open>react\<close>, by this thread or another one, whose error is ignored.\<close>

definition round_by :: "('p, 'sw, 'ss, 'q, 'reg) crates \<Rightarrow> schedule \<Rightarrow> waker \<Rightarrow> bool \<Rightarrow> duration option \<Rightarrow>
    ('p, 'sw, 'ss, 'q, 'reg) world \<Rightarrow> panic + ('p, 'sw, 'ss, 'q, 'reg) world" where
  "round_by E sc me polling timeout w =
     rbind (react E (sc_clock sc (wd_now w)) (sc_clock sc (wd_now w + 1)) timeout (wd_reactor w)) (\<lambda>(_, r).
       wake_thread E me polling (new_wakes (wd_reactor w) r) (w\<lparr>wd_reactor := r, wd_now := wd_now w + 2\<rparr>))"

section \<open>The code\<close>

text \<open>\<open>park\<close>: other threads react until one of them calls the waker.\<close>

partial_function (option) park_thread :: "('p, 'sw, 'ss, 'q, 'reg) crates \<Rightarrow> schedule \<Rightarrow> waker \<Rightarrow>
    ('p, 'sw, 'ss, 'q, 'reg) world \<Rightarrow> (panic + ('p, 'sw, 'ss, 'q, 'reg) world) option" where
  "park_thread E sc me w = (if wd_token w then Some (Inr (w\<lparr>wd_token := False\<rparr>))
     else case round_by E sc me (sc_polling sc (wd_now w)) (sc_timeout sc (wd_now w)) w of
         Inl p \<Rightarrow> Some (Inl p)
       | Inr w' \<Rightarrow> park_thread E sc me w')"

text \<open>The guard that says that the thread polls I/O and is blocked on it, and what it does when dropped.\<close>

definition set_blocked :: "bool \<Rightarrow> ('p, 'sw, 'ss, 'q, 'reg) world \<Rightarrow> ('p, 'sw, 'ss, 'q, 'reg) world" where
  "set_blocked b w = w\<lparr>wd_polling := b, wd_blocked := b\<rparr>"

text \<open>The loop that waits on the reactor; \<open>start\<close> is when the lock was grabbed.\<close>

partial_function (option) wait_io :: "('p, 'sw, 'ss, 'q, 'reg) crates \<Rightarrow> schedule \<Rightarrow> waker \<Rightarrow> instant \<Rightarrow>
    ('p, 'sw, 'ss, 'q, 'reg) world \<Rightarrow> (panic + ('p, 'sw, 'ss, 'q, 'reg) world) option" where
  "wait_io E sc me start w =
     (if wd_token w then Some (Inr (set_blocked False ((set_blocked True w)\<lparr>wd_token := False\<rparr>)))
      else case round_by E sc me True None (set_blocked True w) of
          Inl p \<Rightarrow> Some (Inl p)
        | Inr w1 \<Rightarrow>
            (if wd_token w1 then Some (Inr (set_blocked False (w1\<lparr>wd_token := False\<rparr>)))
             else if 500000 < saturating_duration_since (sc_clock sc (wd_now w1)) start
             then (case park_thread E sc me (w1\<lparr>wd_now := wd_now w1 + 1, wd_main_token := True\<rparr>) of
                 None \<Rightarrow> None
               | Some (Inl p) \<Rightarrow> Some (Inl p)
               | Some (Inr w2) \<Rightarrow> Some (Inr (set_blocked False w2)))
             else wait_io E sc me start (set_blocked False (w1\<lparr>wd_now := wd_now w1 + 1\<rparr>))))"

text \<open>The ways through the body of the loop, where \<open>again\<close> is the loop itself.\<close>

lemma wait_body_cases [consumes 1, case_names notified woken gave_up looped]:
  assumes "(if wd_token w then Some (Inr (set_blocked False ((set_blocked True w)\<lparr>wd_token := False\<rparr>)))
      else case round_by E sc me True None (set_blocked True w) of
          Inl p \<Rightarrow> Some (Inl p)
        | Inr w1 \<Rightarrow>
            (if wd_token w1 then Some (Inr (set_blocked False (w1\<lparr>wd_token := False\<rparr>)))
             else if 500000 < saturating_duration_since (sc_clock sc (wd_now w1)) start
             then (case park_thread E sc me (w1\<lparr>wd_now := wd_now w1 + 1, wd_main_token := True\<rparr>) of
                 None \<Rightarrow> None
               | Some (Inl p) \<Rightarrow> Some (Inl p)
               | Some (Inr w2) \<Rightarrow> Some (Inr (set_blocked False w2)))
             else again (set_blocked False (w1\<lparr>wd_now := wd_now w1 + 1\<rparr>)))) = Some (Inr w')"
  obtains "wd_token w" "w' = set_blocked False ((set_blocked True w)\<lparr>wd_token := False\<rparr>)"
  | w1 where "\<not> wd_token w" "round_by E sc me True None (set_blocked True w) = Inr w1" "wd_token w1"
      "w' = set_blocked False (w1\<lparr>wd_token := False\<rparr>)"
  | w1 w2 where "\<not> wd_token w" "round_by E sc me True None (set_blocked True w) = Inr w1" "\<not> wd_token w1"
      "park_thread E sc me (w1\<lparr>wd_now := wd_now w1 + 1, wd_main_token := True\<rparr>) = Some (Inr w2)" "w' = set_blocked False w2"
  | w1 where "\<not> wd_token w" "round_by E sc me True None (set_blocked True w) = Inr w1" "\<not> wd_token w1"
      "again (set_blocked False (w1\<lparr>wd_now := wd_now w1 + 1\<rparr>)) = Some (Inr w')"
proof (cases "wd_token w")
  case True
  with assms show thesis by (intro that(1)) auto
next
  case False
  with assms obtain w1 where R: "round_by E sc me True None (set_blocked True w) = Inr w1" by (auto split: sum.splits)
  consider "wd_token w1" | "\<not> wd_token w1" "500000 < saturating_duration_since (sc_clock sc (wd_now w1)) start"
    | "\<not> wd_token w1" "\<not> 500000 < saturating_duration_since (sc_clock sc (wd_now w1)) start" by blast
  then show thesis
  proof cases
    case 1
    with assms False R show thesis by (intro that(2)) auto
  next
    case 2
    with assms False R obtain w2 where "park_thread E sc me (w1\<lparr>wd_now := wd_now w1 + 1, wd_main_token := True\<rparr>) = Some (Inr w2)"
      "w' = set_blocked False w2" by (auto split: option.splits sum.splits)
    with 2 False R show thesis by (intro that(3)) simp_all
  next
    case 3
    with assms False R show thesis by (intro that(4)) simp_all
  qed
qed

text \<open>What the thread does when the future is pending.\<close>

definition after_pending :: "('p, 'sw, 'ss, 'q, 'reg) crates \<Rightarrow> schedule \<Rightarrow> waker \<Rightarrow>
    ('p, 'sw, 'ss, 'q, 'reg) world \<Rightarrow> (panic + ('p, 'sw, 'ss, 'q, 'reg) world) option" where
  "after_pending E sc me w =
     (if wd_token w
      then (if sc_free sc (wd_now w)
            then Some (rbind (round_by E sc me True (Some 0) (w\<lparr>wd_token := False, wd_polling := True\<rparr>))
              (\<lambda>w1. Inr (w1\<lparr>wd_polling := False\<rparr>)))
            else Some (Inr (w\<lparr>wd_token := False\<rparr>)))
      else if sc_free sc (wd_now w)
      then wait_io E sc me (sc_clock sc (wd_now w)) (w\<lparr>wd_now := wd_now w + 1\<rparr>)
      else park_thread E sc me w)"

text \<open>Polling the future, which may wake the thread itself.\<close>

definition poll_in :: "('p, 'sw, 'ss, 'q, 'reg) crates \<Rightarrow> schedule \<Rightarrow>
    ('f, 'a, 'p, 'sw, 'ss, 'q, 'reg) future_ops \<Rightarrow> waker \<Rightarrow> 'f \<Rightarrow> ('p, 'sw, 'ss, 'q, 'reg) world \<Rightarrow>
    (panic + 'a poll \<times> 'f \<times> ('p, 'sw, 'ss, 'q, 'reg) world) option" where
  "poll_in E sc F me f w = obind (fut_poll F (sc_clock sc) (wd_now w) me f (wd_reactor w)) (\<lambda>(res, f', r, n).
     Some (rbind (wake_thread E me (wd_polling w) (new_wakes (wd_reactor w) r)
         (w\<lparr>wd_reactor := r, wd_now := wd_now w + n\<rparr>))
       (\<lambda>w'. Inr (res, f', w'))))"

partial_function (option) block_on_loop :: "('p, 'sw, 'ss, 'q, 'reg) crates \<Rightarrow> schedule \<Rightarrow>
    ('f, 'a, 'p, 'sw, 'ss, 'q, 'reg) future_ops \<Rightarrow> waker \<Rightarrow> 'f \<Rightarrow> ('p, 'sw, 'ss, 'q, 'reg) world \<Rightarrow>
    (panic + 'a \<times> 'f \<times> ('p, 'sw, 'ss, 'q, 'reg) world) option" where
  "block_on_loop E sc F me f w = (case poll_in E sc F me f w of
       None \<Rightarrow> None
     | Some (Inl p) \<Rightarrow> Some (Inl p)
     | Some (Inr (res, f', w1)) \<Rightarrow> (case res of
           Poll_Ready x \<Rightarrow> Some (Inr (x, f', w1\<lparr>wd_token := False\<rparr>))
         | Poll_Pending \<Rightarrow> (case after_pending E sc me w1 of
               None \<Rightarrow> None
             | Some (Inl p) \<Rightarrow> Some (Inl p)
             | Some (Inr w2) \<Rightarrow> block_on_loop E sc F me f' w2)))"

text \<open>The future is dropped before the guard of the counter.\<close>

definition block_on :: "('p, 'sw, 'ss, 'q, 'reg) crates \<Rightarrow> schedule \<Rightarrow>
    ('f, 'a, 'p, 'sw, 'ss, 'q, 'reg) future_ops \<Rightarrow> waker \<Rightarrow> 'f \<Rightarrow> ('p, 'sw, 'ss, 'q, 'reg) world \<Rightarrow>
    (panic + 'a \<times> ('p, 'sw, 'ss, 'q, 'reg) world) option" where
  "block_on E sc F me f w = obind (block_on_loop E sc F me f (w\<lparr>wd_block_ons := wd_block_ons w + 1\<rparr>)) (\<lambda>(x, f', w1).
     obind (fut_drop F f' (wd_reactor w1)) (\<lambda>r.
       Some (rbind (wake_thread E me (wd_polling w1) (new_wakes (wd_reactor w1) r) (w1\<lparr>wd_reactor := r\<rparr>)) (\<lambda>w2.
         Inr (x, w2\<lparr>wd_block_ons := wd_block_ons w2 - 1, wd_main_token := True\<rparr>)))))"

text \<open>A timer as a future: one reading of the clock a poll.\<close>

definition timer_future :: "('p, 'sw, 'ss, 'q, 'reg) crates \<Rightarrow> (timer, instant, 'p, 'sw, 'ss, 'q, 'reg) future_ops" where
  "timer_future E = \<lparr>fut_poll = (\<lambda>clk n cx t r. obind (timer_poll E (clk n) cx t r) (\<lambda>(res, t', r'). Some (Inr (res, t', r', 1)))),
     fut_drop = timer_drop E\<rparr>"

end
