(* ===== verification/Block_On_Waits.thy ===== *)
theory Block_On_Waits
  imports Block_On
begin

text \<open>
  Why \<open>block_on\<close> returns, whatever it waits for. The locale \<open>awaited\<close> is the contract between the thread and
  what its future waits for: a poll of a pending future leaves it registered, and a round of the reactor either
  leaves it registered and brings what it waits for nearer, or wakes the thread with the future due.
  The theories after this one interpret it on timers and on sources.
\<close>

text \<open>Time passes, and the flags and the counter are what they were.\<close>

definition later :: "('p, 'sw, 'ss, 'q, 'reg) world \<Rightarrow> ('p, 'sw, 'ss, 'q, 'reg) world \<Rightarrow> bool" where
  "later w w' \<longleftrightarrow> wd_now w \<le> wd_now w' \<and> wd_polling w' = wd_polling w \<and> wd_blocked w' = wd_blocked w \<and>
     wd_block_ons w' = wd_block_ons w"

lemma later_refl [simp]: "later w w"
  by (simp add: later_def)

lemma later_trans [trans]: "later w w1 \<Longrightarrow> later w1 w2 \<Longrightarrow> later w w2"
  by (simp add: later_def)

text \<open>What is left to wait for, a notification included.\<close>

definition to_go :: "nat \<Rightarrow> ('p, 'sw, 'ss, 'q, 'reg) world \<Rightarrow> nat" where
  "to_go n w = 2 * n + of_bool (wd_token w)"

locale awaited =
  fixes E :: "('p, 'sw, 'ss, 'q, 'reg) crates" and sc :: schedule and me :: waker
    and F :: "('f, 'a, 'p, 'sw, 'ss, 'q, 'reg) future_ops"
    and fresh :: "'f \<Rightarrow> ('p, 'sw, 'ss, 'q, 'reg) world \<Rightarrow> bool"
    and waits :: "'f \<Rightarrow> ('p, 'sw, 'ss, 'q, 'reg) world \<Rightarrow> bool"
    and ready :: "'f \<Rightarrow> ('p, 'sw, 'ss, 'q, 'reg) world \<Rightarrow> bool"
    and left :: "'f \<Rightarrow> ('p, 'sw, 'ss, 'q, 'reg) world \<Rightarrow> nat"
    and result :: "'a \<Rightarrow> 'f \<Rightarrow> ('p, 'sw, 'ss, 'q, 'reg) reactor \<Rightarrow> nat \<Rightarrow> bool"
  assumes keep_law: "wd_reactor w' = wd_reactor w \<Longrightarrow> wd_now w \<le> wd_now w' \<Longrightarrow>
      (waits f w \<longrightarrow> waits f w' \<and> left f w' \<le> left f w) \<and> (ready f w \<longrightarrow> ready f w')"
    and round_law: "waits f w \<Longrightarrow> \<exists>w'. round_by E sc me polling timeout w = Inr w' \<and> later w w' \<and>
      (waits f w' \<and> left f w' < left f w \<or> wd_token w' \<and> ready f w')"
    and poll_law: "fresh f w \<or> waits f w \<or> ready f w \<Longrightarrow> \<exists>res f' w'. poll_in E sc F me f w = Some (Inr (res, f', w')) \<and> later w w' \<and>
      (case res of Poll_Ready x \<Rightarrow> result x f' (wd_reactor w') (wd_now w')
       | Poll_Pending \<Rightarrow> waits f' w' \<and> \<not> ready f w \<and> wd_token w' = wd_token w \<and> (waits f w \<longrightarrow> left f' w' \<le> left f w))"
begin

lemma keep:
  assumes "wd_reactor w' = wd_reactor w" "wd_now w \<le> wd_now w'"
  shows "waits f w \<Longrightarrow> waits f w'" "waits f w \<Longrightarrow> left f w' \<le> left f w" "ready f w \<Longrightarrow> ready f w'"
  using keep_law [OF assms, of f] by blast+

lemma round_cases:
  assumes "waits f w"
  obtains (again) w' where "round_by E sc me polling timeout w = Inr w'" "later w w'" "waits f w'" "left f w' < left f w"
  | (woken) w' where "round_by E sc me polling timeout w = Inr w'" "later w w'" "wd_token w'" "ready f w'"
  using round_law [OF assms, of polling timeout] by blast

lemma poll_cases:
  assumes "fresh f w \<or> waits f w \<or> ready f w"
  obtains (complete) x f' w' where "poll_in E sc F me f w = Some (Inr (Poll_Ready x, f', w'))" "later w w'"
      "result x f' (wd_reactor w') (wd_now w')"
  | (pending) f' w' where "poll_in E sc F me f w = Some (Inr (Poll_Pending, f', w'))" "later w w'" "waits f' w'" "\<not> ready f w"
      "wd_token w' = wd_token w" "waits f w \<longrightarrow> left f' w' \<le> left f w"
proof -
  from poll_law [OF assms] obtain res f' w' where P: "poll_in E sc F me f w = Some (Inr (res, f', w'))" "later w w'"
    "case res of Poll_Ready x \<Rightarrow> result x f' (wd_reactor w') (wd_now w')
     | Poll_Pending \<Rightarrow> waits f' w' \<and> \<not> ready f w \<and> wd_token w' = wd_token w \<and> (waits f w \<longrightarrow> left f' w' \<le> left f w)" by blast
  show thesis
  proof (cases res)
    case (Poll_Ready x)
    with P show thesis by (intro complete [of x f' w']) simp_all
  next
    case Poll_Pending
    with P show thesis by (intro pending [of f' w']) simp_all
  qed
qed

text \<open>Parking uses up a notification that is there, or sees at least one round.\<close>

lemma park_returns:
  "waits f w \<Longrightarrow> \<exists>w'. park_thread E sc me w = Some (Inr w') \<and> later w w' \<and> \<not> wd_token w' \<and>
     (ready f w' \<or> waits f w' \<and> left f w' + of_bool (\<not> wd_token w) \<le> left f w)"
proof (induction "left f w" arbitrary: w rule: less_induct)
  case less
  have now: "park_thread E sc me w = Some (Inr (w\<lparr>wd_token := False\<rparr>))" if "wd_token w" for w
    using that by (subst park_thread.simps) simp
  show ?case
  proof (cases "wd_token w")
    case True
    with now [OF this] keep(1,2) [of "w\<lparr>wd_token := False\<rparr>" w f] less.prems show ?thesis by (simp add: later_def)
  next
    case False
    from less.prems show ?thesis
    proof (cases rule: round_cases [where polling = "sc_polling sc (wd_now w)" and timeout = "sc_timeout sc (wd_now w)"])
      case (again w1)
      with False have step: "park_thread E sc me w = park_thread E sc me w1" by (subst park_thread.simps) simp
      from less.hyps [OF again(4,3)] obtain w' where "park_thread E sc me w1 = Some (Inr w')" "later w1 w'" "\<not> wd_token w'"
        "ready f w' \<or> waits f w' \<and> left f w' + of_bool (\<not> wd_token w1) \<le> left f w1" by blast
      with step again(4) later_trans [OF again(2)] show ?thesis by (intro exI [of _ w']) auto
    next
      case (woken w1)
      with False have step: "park_thread E sc me w = park_thread E sc me w1" by (subst park_thread.simps) simp
      from woken keep(3) [of "w1\<lparr>wd_token := False\<rparr>" w1 f] now [OF woken(3)] step show ?thesis by (simp add: later_def)
    qed
  qed
qed

text \<open>The loop on the reactor sees at least one round, if there is no notification.\<close>

lemma wait_io_returns:
  "waits f w \<Longrightarrow> \<not> wd_token w \<Longrightarrow> \<not> wd_polling w \<Longrightarrow> \<not> wd_blocked w \<Longrightarrow>
    \<exists>w'. wait_io E sc me start w = Some (Inr w') \<and> later w w' \<and> \<not> wd_token w' \<and> (ready f w' \<or> waits f w' \<and> left f w' < left f w)"
proof (induction "left f w" arbitrary: w rule: less_induct)
  case less
  let ?b = "set_blocked True w"
  have same: "wd_reactor (set_blocked b v) = wd_reactor v" "wd_now (set_blocked b v) = wd_now v"
    "wd_token (set_blocked b v) = wd_token v" for b and v :: "('p, 'sw, 'ss, 'q, 'reg) world" by (simp_all add: set_blocked_def)
  have flags: "later w (set_blocked False v)" if "later ?b w1" "later w1 v" for w1 v
    using that less.prems by (simp add: later_def set_blocked_def)
  note unfold = wait_io.simps [of E sc me start w]
  have b: "waits f ?b" "left f ?b \<le> left f w" using keep(1,2) [of ?b w f] same less.prems by simp_all
  from b(1) show ?case
  proof (cases rule: round_cases [where polling = True and timeout = None])
    case (woken w1)
    let ?v = "w1\<lparr>wd_token := False\<rparr>"
    have "wait_io E sc me start w = Some (Inr (set_blocked False ?v))" using woken less.prems by (subst unfold) simp
    moreover have "ready f (set_blocked False ?v)" by (rule keep(3) [OF _ _ woken(4)]) (simp_all add: same)
    ultimately show ?thesis using flags [OF woken(2), of ?v] same by (simp add: later_def)
  next
    case (again w1)
    show ?thesis
    proof (cases "wd_token w1")
      case True
      let ?v = "w1\<lparr>wd_token := False\<rparr>"
      have "wait_io E sc me start w = Some (Inr (set_blocked False ?v))" using again True less.prems by (subst unfold) simp
      moreover have "waits f (set_blocked False ?v)" "left f (set_blocked False ?v) \<le> left f w1"
        using keep(1,2) [of "set_blocked False ?v" w1 f] again(3) by (simp_all add: same)
      ultimately show ?thesis using flags [OF again(2), of ?v] same again(4) b(2) by (simp add: later_def)
    next
      case quiet: False
      let ?n = "wd_now w1 + 1"
      show ?thesis
      proof (cases "500000 < saturating_duration_since (sc_clock sc (wd_now w1)) start")
        case True
        let ?p = "w1\<lparr>wd_now := ?n, wd_main_token := True\<rparr>"
        have p: "waits f ?p" "left f ?p \<le> left f w1" using keep(1,2) [of ?p w1 f] again(3) by simp_all
        from park_returns [OF p(1)] obtain w2 where P: "park_thread E sc me ?p = Some (Inr w2)" "later ?p w2" "\<not> wd_token w2"
          "ready f w2 \<or> waits f w2 \<and> left f w2 \<le> left f ?p" by force
        have "wait_io E sc me start w = Some (Inr (set_blocked False w2))" using again quiet True P(1) less.prems by (subst unfold) simp
        moreover have "ready f (set_blocked False w2) \<or> waits f (set_blocked False w2) \<and> left f (set_blocked False w2) < left f w"
          using keep [of "set_blocked False w2" w2 f] P(4) p(2) again(4) b(2) same by force
        ultimately show ?thesis using flags [OF again(2), of w2] P(2,3) same by (simp add: later_def)
      next
        case soon: False
        let ?s = "set_blocked False (w1\<lparr>wd_now := ?n\<rparr>)"
        have s: "waits f ?s" "left f ?s < left f w" "\<not> wd_token ?s" "\<not> wd_polling ?s" "\<not> wd_blocked ?s"
          using keep(1,2) [of ?s w1 f] again(3,4) b(2) quiet by (simp_all add: set_blocked_def)
        from less.hyps [OF s(2,1,3,4,5)] obtain w2 where "wait_io E sc me start ?s = Some (Inr w2)" "later ?s w2" "\<not> wd_token w2"
          "ready f w2 \<or> waits f w2 \<and> left f w2 < left f ?s" by blast
        moreover have "later w ?s" using flags [OF again(2), of "w1\<lparr>wd_now := ?n\<rparr>"] by (simp add: later_def)
        moreover have "wait_io E sc me start w = wait_io E sc me start ?s" using again quiet soon less.prems by (subst unfold) simp
        ultimately show ?thesis using s(2) later_trans [of w ?s w2] by auto
      qed
    qed
  qed
qed

lemma after_pending_returns:
  assumes "waits f w" "\<not> wd_polling w" "\<not> wd_blocked w"
  shows "\<exists>w'. after_pending E sc me w = Some (Inr w') \<and> later w w' \<and> (ready f w' \<or> waits f w' \<and> to_go (left f w') w' < to_go (left f w) w)"
proof (cases "wd_token w")
  case token: True
  let ?w = "w\<lparr>wd_token := False, wd_polling := True\<rparr>"
  have w: "waits f ?w" "left f ?w \<le> left f w" using keep(1,2) [of ?w w f] assms(1) by simp_all
  show ?thesis
  proof (cases "sc_free sc (wd_now w)")
    case True
    have out: ?thesis if "round_by E sc me True (Some 0) ?w = Inr w1" "later ?w w1"
      "ready f w1 \<or> waits f w1 \<and> left f w1 < left f ?w" for w1
    proof -
      let ?v = "w1\<lparr>wd_polling := False\<rparr>"
      have "ready f ?v \<or> waits f ?v \<and> to_go (left f ?v) ?v < to_go (left f w) w"
        using keep [of ?v w1 f] that(3) w(2) token by (auto simp: to_go_def)
      with that(1,2) token True assms(2) show ?thesis by (simp add: after_pending_def later_def)
    qed
    from w(1) show ?thesis by (cases rule: round_cases [where polling = True and timeout = "Some 0"]) (use out in blast)+
  next
    case False
    then show ?thesis using token keep(1,2) [of "w\<lparr>wd_token := False\<rparr>" w f] assms(1) by (simp add: after_pending_def later_def to_go_def)
  qed
next
  case quiet: False
  show ?thesis
  proof (cases "sc_free sc (wd_now w)")
    case True
    let ?w = "w\<lparr>wd_now := wd_now w + 1\<rparr>"
    have w: "waits f ?w" "left f ?w \<le> left f w" using keep(1,2) [of ?w w f] assms(1) by simp_all
    from wait_io_returns [OF w(1)] quiet assms(2,3) obtain w1 where
      "wait_io E sc me (sc_clock sc (wd_now w)) ?w = Some (Inr w1)" "later ?w w1" "\<not> wd_token w1"
      "ready f w1 \<or> waits f w1 \<and> left f w1 < left f ?w" by fastforce
    with quiet True w(2) show ?thesis by (auto simp: after_pending_def later_def to_go_def)
  next
    case False
    obtain w1 where "park_thread E sc me w = Some (Inr w1)" "later w w1" "\<not> wd_token w1"
      "ready f w1 \<or> waits f w1 \<and> left f w1 < left f w" using park_returns [OF assms(1)] quiet by force
    with quiet False show ?thesis by (intro exI [of _ w1]) (auto simp: after_pending_def to_go_def)
  qed
qed

lemma ready_returns:
  assumes "ready f w"
  shows "\<exists>x f' w'. block_on_loop E sc F me f w = Some (Inr (x, f', w')) \<and> later w w' \<and> \<not> wd_token w' \<and>
    result x f' (wd_reactor w') (wd_now w')"
proof -
  from assms have "fresh f w \<or> waits f w \<or> ready f w" by blast
  then show ?thesis
  proof (cases rule: poll_cases)
    case (complete x f' w')
    then show ?thesis by (subst block_on_loop.simps) (simp add: later_def)
  qed (use assms in simp)
qed

text \<open>The loop ends, from a future that has not been polled, that waits, or that is ready.\<close>

lemma pending_returns:
  "waits f w \<Longrightarrow> \<not> wd_polling w \<Longrightarrow> \<not> wd_blocked w \<Longrightarrow> after_pending E sc me w = Some (Inr w1) \<Longrightarrow>
    \<exists>x f' w'. block_on_loop E sc F me f w1 = Some (Inr (x, f', w')) \<and> later w w' \<and> \<not> wd_token w' \<and>
      result x f' (wd_reactor w') (wd_now w')"
proof (induction "to_go (left f w) w" arbitrary: f w w1 rule: less_induct)
  case less
  from after_pending_returns [OF less.prems(1-3)] less.prems(4)
  have A: "later w w1" "ready f w1 \<or> waits f w1 \<and> to_go (left f w1) w1 < to_go (left f w) w" by simp_all
  show ?case
  proof (cases "ready f w1")
    case True
    from ready_returns [OF this] A(1) later_trans show ?thesis by blast
  next
    case False
    with A(2) have w1: "waits f w1" "to_go (left f w1) w1 < to_go (left f w) w" by simp_all
    from w1 have "fresh f w1 \<or> waits f w1 \<or> ready f w1" by blast
    then show ?thesis
    proof (cases rule: poll_cases)
      case (complete x f2 w2)
      with A(1) show ?thesis by (subst block_on_loop.simps) (simp add: later_def)
    next
      case (pending f2 w2)
      with w1 have go: "to_go (left f2 w2) w2 < to_go (left f w) w" by (simp add: to_go_def)
      have down: "\<not> wd_polling w2" "\<not> wd_blocked w2" using A(1) pending(2) less.prems(2,3) by (simp_all add: later_def)
      from after_pending_returns [OF pending(3) down] obtain w3 where n: "after_pending E sc me w2 = Some (Inr w3)" by blast
      have "block_on_loop E sc F me f w1 = block_on_loop E sc F me f2 w3"
        using pending(1) n by (subst block_on_loop.simps) simp
      with less.hyps [OF go pending(3) down n] later_trans [OF later_trans [OF A(1) pending(2)]] show ?thesis by auto
    qed
  qed
qed

lemma loop_returns:
  assumes "fresh f w" "\<not> wd_polling w" "\<not> wd_blocked w"
  shows "\<exists>x f' w'. block_on_loop E sc F me f w = Some (Inr (x, f', w')) \<and> later w w' \<and> \<not> wd_token w' \<and>
    result x f' (wd_reactor w') (wd_now w')"
proof -
  from assms have "fresh f w \<or> waits f w \<or> ready f w" by blast
  then show ?thesis
  proof (cases rule: poll_cases)
    case (complete x f1 w1)
    then show ?thesis by (subst block_on_loop.simps) (simp add: later_def)
  next
    case (pending f1 w1)
    have down: "\<not> wd_polling w1" "\<not> wd_blocked w1" using pending(2) assms(2,3) by (simp_all add: later_def)
    from after_pending_returns [OF pending(3) down] obtain w2 where n: "after_pending E sc me w1 = Some (Inr w2)" by blast
    have "block_on_loop E sc F me f w = block_on_loop E sc F me f1 w2"
      using pending(1) n by (subst block_on_loop.simps) simp
    with pending_returns [OF pending(3) down n] later_trans [OF pending(2)] show ?thesis by auto
  qed
qed

end

end
