(* ===== verification/Block_On_Properties.thy ===== *)
theory Block_On_Properties
  imports Block_On_Waits Reactor_Properties
begin

text \<open>
  What \<open>block_on\<close> guarantees, over the functions of \<open>Block_On\<close>: rounds by a poller that never
  refuses lose no timer, so waiting for a timer ends; the future is polled no more often than its
  waker is called; and a run of these functions is a run of the step relation of \<open>Driver\<close>.
\<close>

section \<open>A poller that does not refuse\<close>

text \<open>
  \<open>calm\<close> describes states of the poller in which it accepts every change of interest for the
  registrations in \<open>G\<close>, and which its calls do not leave. Waits may still fail.
\<close>

definition calm_poller :: "('p, 'sw, 'ss, 'q, 'reg) crates \<Rightarrow> 'reg set \<Rightarrow> ('p \<Rightarrow> bool) \<Rightarrow> bool" where
  "calm_poller E G calm \<longleftrightarrow> (\<forall>p. calm p \<longrightarrow> calm (snd (po_notify (poll_calls E) p)) \<and>
     (\<forall>evs t. calm (snd (snd (po_wait (poll_calls E) evs t p)))) \<and>
     (\<forall>g\<in>G. \<forall>e. fst (reg_modify (reg_calls E) g e p) = Inr () \<and> calm (snd (reg_modify (reg_calls E) g e p))))"

lemma calm_pollerD:
  assumes "calm_poller E G calm" "calm p"
  shows "calm (snd (po_notify (poll_calls E) p))"
    and "po_wait (poll_calls E) evs t p = (res, evs', p') \<Longrightarrow> calm p'"
    and "g \<in> G \<Longrightarrow> reg_modify (reg_calls E) g e p = (mres, p') \<Longrightarrow> mres = Inr () \<and> calm p'"
  using assms unfolding calm_poller_def by (metis fst_conv snd_conv)+

text \<open>A reactor whose sources the poller accepts.\<close>

definition steady :: "('p, 'sw, 'ss, 'q, 'reg) crates \<Rightarrow> ('q \<Rightarrow> timer_op list) \<Rightarrow> 'reg set \<Rightarrow> ('p \<Rightarrow> bool) \<Rightarrow>
    ('p, 'sw, 'ss, 'q, 'reg) reactor \<Rightarrow> bool" where
  "steady E items G calm r \<longleftrightarrow> reactor_ok E items r \<and> calm (poller r) \<and>
     (\<forall>k s. source_at E r k = Some s \<longrightarrow> registration s \<in> G)"

lemma steady_same_io:
  assumes "steady E items G calm r" "same_io r r'" "timers_ok E items r'" "calm (poller r')"
  shows "steady E items G calm r'"
  using assms reactor_ok_same_io [OF assms(2,3)] source_at_same_io [OF assms(2), of E] by (simp add: steady_def)

lemma steady_deliver:
  assumes calm: "calm_poller E G calm" and slab: "slab_ok (wslab E)"
  shows "sources_ok E r \<Longrightarrow> calm (poller r) \<Longrightarrow> \<forall>k s. source_at E r k = Some s \<longrightarrow> registration s \<in> G \<Longrightarrow>
    deliver_events E tk evs ws r = (res, ws', r') \<Longrightarrow>
    res = Inr () \<and> calm (poller r') \<and> (\<forall>k s. source_at E r' k = Some s \<longrightarrow> registration s \<in> G)"
proof (induction evs arbitrary: ws r)
  case (Cons ev evs)
  from Cons.prems(1) slab show ?case
  proof (cases rule: deliver_events_step [where ev = ev and tk = tk and evs = evs and ws = ws])
    case unknown
    with Cons show ?thesis by simp
  next
    case (failed s s' ws1 r1 e)
    with deliver_source_spec(1) [OF slab failed(2)] Cons.prems(3) have "registration s' \<in> G" by (simp add: delivered_def)
    with calm_pollerD(3) [OF calm Cons.prems(2) _ failed(5)] show ?thesis by simp
  next
    case (passed s s' ws1 r1)
    with deliver_source_spec(1) [OF slab passed(2)] Cons.prems(3) have G: "registration s' \<in> G" by (simp add: delivered_def)
    have r1: "sources_ok E r1" "source_at E r1 = (source_at E r)(ev_key ev \<mapsto> s')"
      using passed(3) by (simp_all add: stored_at_def)
    have "calm (poller r1)"
      using passed(5) calm_pollerD(3) [OF calm Cons.prems(2) G] Cons.prems(2) by (auto split: if_splits)
    moreover have "\<forall>k s. source_at E r1 k = Some s \<longrightarrow> registration s \<in> G" using r1(2) G Cons.prems(3) by simp
    ultimately show ?thesis using Cons.IH [OF r1(1)] Cons.prems(4) passed(4) by simp
  qed
qed simp

section \<open>Rounds\<close>

text \<open>
  A timer survives a round that reads the clock at \<open>now\<close> and \<open>now'\<close>, or is due and its waker is among
  those woken.
\<close>

definition timer_kept :: "instant \<Rightarrow> instant \<Rightarrow> (timer_key \<Rightarrow> waker option) \<Rightarrow> (timer_key \<Rightarrow> waker option) \<Rightarrow> waker list \<Rightarrow> bool" where
  "timer_kept now now' V V' ws \<longleftrightarrow> (\<forall>u i v. V (u, i) = Some v \<longrightarrow>
     now < u \<and> V' (u, i) = Some v \<or> v \<in> set ws \<and> (u \<le> now \<or> u \<le> now'))"

lemma fires_or_keeps:
  assumes "map_of ready = due now V"
  shows "V (u, i) = Some v \<Longrightarrow> now < u \<and> not_due now V (u, i) = Some v \<or> u \<le> now \<and> v \<in> set (map snd ready)"
  using assms map_of_SomeD [of ready "(u, i)" v] by (force simp: due_def not_due_def)

lemma process_timers_frame:
  "process_timers E now ws r = Inr (d, ws', r') \<Longrightarrow>
     poller r' = poller r \<and> sources r' = sources r \<and> heap r' = heap r \<and> woken r' = woken r"
  by (auto simp: process_timers_def process_timer_ops_def Let_def rbind_eq_Inr_iff case_prod_beta)

lemma steady_finish:
  assumes calm: "calm_poller E G calm" and ok: "steady E items G calm r" and now: "now < instant_max"
  shows "\<exists>out r' ws'. react_finish E now t tk ws res r = Inr (out, r') \<and> steady E items G calm r' \<and>
    woken r' = woken r @ ws' \<and> set ws \<subseteq> set ws' \<and>
    (\<forall>u i v. timer_view items r (u, i) = Some v \<longrightarrow> timer_view items r' (u, i) = Some v \<or> v \<in> set ws' \<and> u \<le> now)"
proof -
  have R: "reactor_ok E items r" using ok by (simp add: steady_def)
  note P = reactor_ok_parts [OF R]
  have all: ?thesis if "react_finish E now t tk ws res r = Inr (out, wake_all ws r)" for out
    using that ok P(1) steady_same_io [OF ok, of "r"]
    by (intro exI [of _ out] exI [of _ "wake_all ws r"] exI [of _ ws])
      (auto simp: steady_def wake_all_def reactor_ok_def timers_ok_def sources_ok_def timer_view_def source_at_def)
  from R now show ?thesis
  proof (cases rule: react_finish_cases [where res = res and t = t and tk = tk and ws = ws])
    case (idle ready r')
    then have "poller r' = poller r"
      by (auto simp: react_finish_def rbind_eq_Inr_iff wake_all_def dest: process_timers_frame)
    with idle ok show ?thesis
      by (intro exI [of _ "Inr ()"] exI [of _ r'] exI [of _ "ws @ map snd ready"])
        (auto simp: steady_def dest: fires_or_keeps [OF idle(6)])
  next
    case (served n ws' r')
    obtain dres ws1 r1 where del: "deliver_events E tk (events r) ws r = (dres, ws1, r1)"
      using prod_cases3 by blast
    have "r' = wake_all ws1 r1"
      using served(1-3) del by (auto simp: react_finish_def split: sum.splits)
    moreover have "calm (poller r1) \<and> (\<forall>k s. source_at E r1 k = Some s \<longrightarrow> registration s \<in> G)"
      using steady_deliver [OF calm P(3) P(2) _ _ del] ok by (simp add: steady_def)
    ultimately have "steady E items G calm r'"
      using served(4) by (simp add: steady_def wake_all_def source_at_def)
    with served show ?thesis
      by (intro exI [of _ "Inr ()"] exI [of _ r'] exI [of _ ws']) auto
  next
    case (lost n e ws' r')
    with steady_deliver [OF calm P(3) P(2) _ _ lost(3)] ok show ?thesis by (simp add: steady_def)
  qed (use all in auto)
qed

lemma steady_react:
  assumes calm: "calm_poller E G calm" and ok: "steady E items G calm r" and now: "now < instant_max" "now' < instant_max"
  shows "\<exists>out r' ws. react E now now' timeout r = Inr (out, r') \<and> steady E items G calm r' \<and> woken r' = woken r @ ws \<and>
    timer_kept now now' (timer_view items r) (timer_view items r') ws"
proof -
  have R: "reactor_ok E items r" using ok by (simp add: steady_def)
  from reactor_ok_parts(1) [OF R] now(1) obtain dur and ready :: timer_map and r1 where P:
    "react_prepare E now timeout r = Inr (react_timeout dur timeout, ticker r + 1, map snd ready, r1)"
    "map_of ready = due now (timer_view items r)" "timer_view items r1 = not_due now (timer_view items r)"
    by (rule react_prepare_ok [where timeout = timeout]) blast
  note Q = react_prepare_reactor_ok [OF R now(1) P(1)]
  have r1: "steady E items G calm r1"
    using ok Q source_at_cong [OF Q(5,6), of E] by (simp add: steady_def)
  obtain res r2 where wait: "react_wait E (react_timeout dur timeout) r1 = (res, r2)" by force
  obtain evs p where W: "r2 = r1\<lparr>events := evs, poller := p\<rparr>" using react_wait_ok(1) [OF wait] by blast
  have "calm (poller r2)"
    using wait calm_pollerD(2) [OF calm, of "poller r1" "events r1" "react_timeout dur timeout"] r1
    by (auto simp: react_wait_def steady_def split: prod.splits)
  moreover have "reactor_ok E items r2" "timer_view items r2 = timer_view items r1" "source_at E r2 = source_at E r1" "woken r2 = woken r1"
    unfolding W reactor_ok_buffer source_at_buffer using r1 by (simp_all add: steady_def)
  ultimately have r2: "steady E items G calm r2" and V2: "timer_view items r2 = not_due now (timer_view items r)" "woken r2 = woken r"
    using r1 P(3) Q(9) by (simp_all add: steady_def)
  obtain out r' ws where F: "react_finish E now' (react_timeout dur timeout) (ticker r + 1) (map snd ready) res r2 = Inr (out, r')"
    "steady E items G calm r'" "woken r' = woken r2 @ ws" "set (map snd ready) \<subseteq> set ws"
    "\<forall>u i v. timer_view items r2 (u, i) = Some v \<longrightarrow> timer_view items r' (u, i) = Some v \<or> v \<in> set ws \<and> u \<le> now'"
    using steady_finish [OF calm r2 now(2)] by blast
  have "timer_kept now now' (timer_view items r) (timer_view items r') ws"
    unfolding timer_kept_def
  proof (intro allI impI)
    fix u i v assume "timer_view items r (u, i) = Some v"
    from fires_or_keeps [OF P(2) this] F(4) F(5) [unfolded V2(1), rule_format, of u i v]
    show "now < u \<and> timer_view items r' (u, i) = Some v \<or> v \<in> set ws \<and> (u \<le> now \<or> u \<le> now')" by auto
  qed
  moreover have "react E now now' timeout r = Inr (out, r')" using P(1) wait F(1) by (simp add: react_def)
  ultimately show ?thesis using F(2,3) unfolding V2(2) by blast
qed

text \<open>The clock does not go back and stays below the last instant.\<close>

definition clock_ok :: "schedule \<Rightarrow> bool" where
  "clock_ok sc \<longleftrightarrow> mono (sc_clock sc) \<and> (\<forall>n. sc_clock sc n < instant_max)"

lemma clock_mono: "clock_ok sc \<Longrightarrow> m \<le> n \<Longrightarrow> u \<le> sc_clock sc m \<Longrightarrow> u \<le> sc_clock sc n"
  using monoD [of "sc_clock sc" m n] by (simp add: clock_ok_def)

text \<open>While an instant is not reached, the moment at which it is lies ahead.\<close>

lemma not_due_yet: "clock_ok sc \<Longrightarrow> u \<le> sc_clock sc N \<Longrightarrow> \<not> u \<le> sc_clock sc n \<Longrightarrow> n < N"
  using clock_mono [of sc N n u] by (cases "N \<le> n") auto

text \<open>Waking the thread sets its notification; notifying the poller leaves the reactor steady.\<close>

lemma steady_notify:
  assumes "calm_poller E G calm" "steady E items G calm r"
  shows "reactor_notify E r = Inr (r\<lparr>poller := snd (po_notify (poll_calls E) (poller r))\<rparr>)"
    and "steady E items G calm (r\<lparr>poller := snd (po_notify (poll_calls E) (poller r))\<rparr>)"
proof -
  have R: "reactor_ok E items r" "calm (poller r)" using assms(2) by (simp_all add: steady_def)
  obtain res p where n: "po_notify (poll_calls E) (poller r) = (res, p)" by force
  have "res = Inr ()" using poller_notify [OF reactor_ok_parts(5) [OF R(1)], of "poller r"] n by simp
  moreover have "calm p" using calm_pollerD(1) [OF assms(1) R(2)] n by simp
  ultimately show "reactor_notify E r = Inr (r\<lparr>poller := snd (po_notify (poll_calls E) (poller r))\<rparr>)"
    "steady E items G calm (r\<lparr>poller := snd (po_notify (poll_calls E) (poller r))\<rparr>)"
    using n assms(2) by (auto simp: reactor_notify_def steady_def)
qed

lemma wake_thread_steady:
  assumes "calm_poller E G calm" "steady E items G calm (wd_reactor w)"
  shows "\<exists>w'. wake_thread E me polling ws w = Inr w' \<and> steady E items G calm (wd_reactor w') \<and>
    timer_view items (wd_reactor w') = timer_view items (wd_reactor w) \<and> later w w' \<and> wd_now w' = wd_now w \<and>
    (wd_token w' \<longleftrightarrow> wd_token w \<or> (\<exists>v\<in>set ws. wakes_task E v me))"
  using steady_notify [OF assms] assms(2) by (auto simp: wake_thread_def later_def timer_view_def)

text \<open>A round by any thread.\<close>

lemma round_steady:
  assumes calm: "calm_poller E G calm" and clock: "clock_ok sc" and w: "steady E items G calm (wd_reactor w)"
  shows "\<exists>w' ws. round_by E sc me polling timeout w = Inr w' \<and> steady E items G calm (wd_reactor w') \<and> later w w' \<and>
    wd_now w' = wd_now w + 2 \<and> (wd_token w' \<longleftrightarrow> wd_token w \<or> (\<exists>v\<in>set ws. wakes_task E v me)) \<and>
    timer_kept (sc_clock sc (wd_now w)) (sc_clock sc (wd_now w + 1)) (timer_view items (wd_reactor w)) (timer_view items (wd_reactor w')) ws"
proof -
  let ?n = "wd_now w" and ?r = "wd_reactor w"
  let ?now = "sc_clock sc ?n" and ?now' = "sc_clock sc (?n + 1)"
  have max: "?now < instant_max" "?now' < instant_max" using clock by (simp_all add: clock_ok_def)
  from steady_react [OF calm w max] obtain out r1 ws where R: "react E ?now ?now' timeout ?r = Inr (out, r1)"
    "steady E items G calm r1" "woken r1 = woken ?r @ ws"
    "timer_kept ?now ?now' (timer_view items ?r) (timer_view items r1) ws" by blast
  let ?w = "w\<lparr>wd_reactor := r1, wd_now := ?n + 2\<rparr>"
  have "steady E items G calm (wd_reactor ?w)" using R(2) by simp
  from wake_thread_steady [OF calm this, of me polling ws] obtain w' where W: "wake_thread E me polling ws ?w = Inr w'"
    "steady E items G calm (wd_reactor w')" "timer_view items (wd_reactor w') = timer_view items (wd_reactor ?w)" "later ?w w'"
    "wd_now w' = wd_now ?w" "wd_token w' \<longleftrightarrow> wd_token ?w \<or> (\<exists>v\<in>set ws. wakes_task E v me)" by blast
  have "round_by E sc me polling timeout w = Inr w'" using R(1,3) W(1) by (simp add: round_by_def new_wakes_def)
  with W R(4) show ?thesis by (intro exI [of _ w'] exI [of _ ws]) (simp add: later_def)
qed

section \<open>Waiting for a timer\<close>

text \<open>A poll of the timer: due, or registered with the thread's waker.\<close>

definition waiting_timer :: "waker \<Rightarrow> instant \<Rightarrow> usize \<Rightarrow> timer" where
  "waiting_timer me u i = \<lparr>id_and_waker = Some (i, me), timer_when = Some u, period = duration_max\<rparr>"

definition fired_timer :: timer where
  "fired_timer = \<lparr>id_and_waker = None, timer_when = None, period = duration_max\<rparr>"

lemma timer_poll_due:
  assumes ok: "timers_ok E items r" and t: "t = timer_at u \<or> t = waiting_timer me u i"
    and u: "instant_min + int nanos_per_sec \<le> u" "u \<le> now"
  shows "\<exists>r'. timer_poll E now me t r = Some (Inr (Poll_Ready u, fired_timer, r')) \<and> timers_ok E items r' \<and>
    same_io r r' \<and> poller r' = poller r"
proof -
  note never = checked_add_duration_max [OF u(1)]
  from ok obtain r1 where R: "remove_timer E u i r = Some (Inr r1)" "timers_ok E items r1" "same_io r r1"
    by (rule ts.remove_cases)
  with remove_timer_poller [OF ok R(1)] t never u(2) ok show ?thesis
    by (auto simp: timer_poll_def timer_poll_next_def timer_at_def timer_interval_at_def waiting_timer_def fired_timer_def)
qed

lemma timer_poll_early:
  assumes ok: "timers_ok E items r" and u: "now < u"
    and t: "t = timer_at u \<or> t = waiting_timer me u i \<and> timer_view items r (u, i) = Some me"
  shows "\<exists>j r'. timer_poll E now me t r = Some (Inr (Poll_Pending, waiting_timer me u j, r')) \<and> timers_ok E items r' \<and>
    same_io r r' \<and> timer_view items r' (u, j) = Some me \<and> poller r' \<in> {poller r, snd (po_notify (poll_calls E) (poller r))}"
proof -
  from ok obtain r1 where I: "insert_timer E u me r = Some (Inr (id_generator r, r1))" "timers_ok E items r1"
    "timer_view items r1 = (timer_view items r)((u, id_generator r) \<mapsto> me)" "same_io r r1" by (rule ts.insert_cases)
  from ok obtain r2 where D: "remove_timer E u i r = Some (Inr r2)" "timers_ok E items r2" "same_io r r2"
    by (rule ts.remove_cases)
  from D(2) obtain r3 where J: "insert_timer E u me r2 = Some (Inr (id_generator r2, r3))" "timers_ok E items r3"
    "timer_view items r3 = (timer_view items r2)((u, id_generator r2) \<mapsto> me)" "same_io r2 r3" by (rule ts.insert_cases)
  note p = insert_timer_poller [OF ok I(1)] insert_timer_poller [OF D(2) J(1)] remove_timer_poller [OF ok D(1)]
  from t consider (first) "t = timer_at u" | (kept) "t = waiting_timer me u i" "timer_view items r (u, i) = Some me" "will_wake E me me"
    | (other) "t = waiting_timer me u i" "\<not> will_wake E me me" by blast
  then show ?thesis
  proof cases
    case first
    with I p u show ?thesis
      by (intro exI [of _ "id_generator r"] exI [of _ r1])
        (simp add: timer_poll_def timer_poll_next_def timer_at_def timer_interval_at_def waiting_timer_def)
  next
    case kept
    with ok u show ?thesis
      by (intro exI [of _ i] exI [of _ r]) (simp add: timer_poll_def timer_poll_next_def waiting_timer_def)
  next
    case other
    with D J p u same_io_trans [OF D(3) J(4)] show ?thesis
      by (intro exI [of _ "id_generator r2"] exI [of _ r3]) (simp add: timer_poll_def timer_poll_next_def waiting_timer_def)
  qed
qed

lemma no_new_wakes: "woken r' = woken r \<Longrightarrow> wake_thread E me polling (new_wakes r r') w = Inr w"
  by (simp add: new_wakes_def wake_thread_def)

text \<open>
  What the wait for an instant relies on, and its states: the new timer, the timer that is registered with
  the thread's waker, and the one that is due.
\<close>

definition reaches :: "('p, 'sw, 'ss, 'q, 'reg) crates \<Rightarrow> 'reg set \<Rightarrow> ('p \<Rightarrow> bool) \<Rightarrow> schedule \<Rightarrow> instant \<Rightarrow> nat \<Rightarrow> bool" where
  "reaches E G calm sc u N \<longleftrightarrow> calm_poller E G calm \<and> clock_ok sc \<and> u \<le> sc_clock sc N \<and> instant_min + int nanos_per_sec \<le> u"

definition timer_waits :: "('p, 'sw, 'ss, 'q, 'reg) crates \<Rightarrow> ('q \<Rightarrow> timer_op list) \<Rightarrow> 'reg set \<Rightarrow> ('p \<Rightarrow> bool) \<Rightarrow> schedule \<Rightarrow> waker \<Rightarrow>
    instant \<Rightarrow> nat \<Rightarrow> timer \<Rightarrow> ('p, 'sw, 'ss, 'q, 'reg) world \<Rightarrow> bool" where
  "timer_waits E items G calm sc me u N t w \<longleftrightarrow> reaches E G calm sc u N \<and> steady E items G calm (wd_reactor w) \<and>
     (\<exists>i. t = waiting_timer me u i \<and> timer_view items (wd_reactor w) (u, i) = Some me)"

definition timer_is_due :: "('p, 'sw, 'ss, 'q, 'reg) crates \<Rightarrow> ('q \<Rightarrow> timer_op list) \<Rightarrow> 'reg set \<Rightarrow> ('p \<Rightarrow> bool) \<Rightarrow> schedule \<Rightarrow> waker \<Rightarrow>
    instant \<Rightarrow> nat \<Rightarrow> timer \<Rightarrow> ('p, 'sw, 'ss, 'q, 'reg) world \<Rightarrow> bool" where
  "timer_is_due E items G calm sc me u N t w \<longleftrightarrow> reaches E G calm sc u N \<and> steady E items G calm (wd_reactor w) \<and>
     (\<exists>i. t = waiting_timer me u i) \<and> u \<le> sc_clock sc (wd_now w)"

definition timer_starts :: "('p, 'sw, 'ss, 'q, 'reg) crates \<Rightarrow> ('q \<Rightarrow> timer_op list) \<Rightarrow> 'reg set \<Rightarrow> ('p \<Rightarrow> bool) \<Rightarrow> schedule \<Rightarrow>
    instant \<Rightarrow> nat \<Rightarrow> timer \<Rightarrow> ('p, 'sw, 'ss, 'q, 'reg) world \<Rightarrow> bool" where
  "timer_starts E items G calm sc u N t w \<longleftrightarrow> reaches E G calm sc u N \<and> steady E items G calm (wd_reactor w) \<and> t = timer_at u"

definition timer_result :: "('p, 'sw, 'ss, 'q, 'reg) crates \<Rightarrow> ('q \<Rightarrow> timer_op list) \<Rightarrow> 'reg set \<Rightarrow> ('p \<Rightarrow> bool) \<Rightarrow> schedule \<Rightarrow>
    instant \<Rightarrow> instant \<Rightarrow> timer \<Rightarrow> ('p, 'sw, 'ss, 'q, 'reg) reactor \<Rightarrow> nat \<Rightarrow> bool" where
  "timer_result E items G calm sc u x t r n \<longleftrightarrow> x = u \<and> t = fired_timer \<and> steady E items G calm r \<and> (\<exists>m<n. u \<le> sc_clock sc m)"

lemma timer_poll_in:
  assumes "timer_poll E (sc_clock sc (wd_now w)) me t (wd_reactor w) = Some (Inr (res, t', r))" "same_io (wd_reactor w) r"
  shows "poll_in E sc (timer_future E) me t w = Some (Inr (res, t', w\<lparr>wd_reactor := r, wd_now := wd_now w + 1\<rparr>))"
  using assms by (simp add: poll_in_def timer_future_def no_new_wakes same_io_def)

lemma timer_round:
  assumes "timer_waits E items G calm sc me u N t w"
  shows "\<exists>w'. round_by E sc me polling timeout w = Inr w' \<and> later w w' \<and>
    (timer_waits E items G calm sc me u N t w' \<and> N - wd_now w' < N - wd_now w \<or>
     wd_token w' \<and> timer_is_due E items G calm sc me u N t w')"
proof -
  from assms obtain i where H: "reaches E G calm sc u N" "steady E items G calm (wd_reactor w)" "t = waiting_timer me u i"
    "timer_view items (wd_reactor w) (u, i) = Some me" by (auto simp: timer_waits_def)
  then have calm: "calm_poller E G calm" and clock: "clock_ok sc" and N: "u \<le> sc_clock sc N" by (simp_all add: reaches_def)
  let ?now = "sc_clock sc (wd_now w)" and ?now' = "sc_clock sc (wd_now w + 1)"
  obtain w' ws where R: "round_by E sc me polling timeout w = Inr w'" "steady E items G calm (wd_reactor w')" "later w w'"
    "wd_now w' = wd_now w + 2" "wd_token w' \<longleftrightarrow> wd_token w \<or> (\<exists>v\<in>set ws. wakes_task E v me)"
    "timer_kept ?now ?now' (timer_view items (wd_reactor w)) (timer_view items (wd_reactor w')) ws"
    using round_steady [OF calm clock H(2)] by blast
  have "?now < u \<and> timer_view items (wd_reactor w') (u, i) = Some me \<or> me \<in> set ws \<and> (u \<le> ?now \<or> u \<le> ?now')"
    using R(6) H(4) by (auto simp: timer_kept_def)
  then show ?thesis
  proof
    assume "?now < u \<and> timer_view items (wd_reactor w') (u, i) = Some me"
    with not_due_yet [OF clock N, of "wd_now w"] R(1-4) H show ?thesis by (auto simp: timer_waits_def)
  next
    assume me: "me \<in> set ws \<and> (u \<le> ?now \<or> u \<le> ?now')"
    then have "u \<le> sc_clock sc (wd_now w')"
      using clock_mono [OF clock, of "wd_now w" "wd_now w'" u] clock_mono [OF clock, of "wd_now w + 1" "wd_now w'" u] R(4) by auto
    moreover have "wd_token w'" using me R(5) by (auto simp: wakes_task_def)
    ultimately show ?thesis using R(1-3) H by (auto simp: timer_is_due_def)
  qed
qed

lemma timer_poll_step:
  assumes "timer_starts E items G calm sc u N t w \<or> timer_waits E items G calm sc me u N t w \<or> timer_is_due E items G calm sc me u N t w"
  shows "\<exists>res t' w'. poll_in E sc (timer_future E) me t w = Some (Inr (res, t', w')) \<and> later w w' \<and>
    (case res of Poll_Ready x \<Rightarrow> timer_result E items G calm sc u x t' (wd_reactor w') (wd_now w')
     | Poll_Pending \<Rightarrow> timer_waits E items G calm sc me u N t' w' \<and> \<not> timer_is_due E items G calm sc me u N t w \<and>
         wd_token w' = wd_token w \<and> (timer_waits E items G calm sc me u N t w \<longrightarrow> N - wd_now w' \<le> N - wd_now w))"
proof -
  let ?r = "wd_reactor w" and ?now = "sc_clock sc (wd_now w)"
  from assms have H: "reaches E G calm sc u N" and st: "steady E items G calm ?r"
    by (auto simp: timer_starts_def timer_waits_def timer_is_due_def)
  from H have calm: "calm_poller E G calm" and u: "instant_min + int nanos_per_sec \<le> u" by (simp_all add: reaches_def)
  have ok: "timers_ok E items ?r" and c: "calm (poller ?r)" using st reactor_ok_parts(1) by (auto simp: steady_def)
  from assms obtain i where t: "t = timer_at u \<or> t = waiting_timer me u i"
    "\<not> u \<le> ?now \<Longrightarrow> t = timer_at u \<or> t = waiting_timer me u i \<and> timer_view items ?r (u, i) = Some me"
    by (auto simp: timer_starts_def timer_waits_def timer_is_due_def)
  show ?thesis
  proof (cases "u \<le> ?now")
    case True
    from timer_poll_due [OF ok t(1) u True] obtain r1 where P: "timer_poll E ?now me t ?r = Some (Inr (Poll_Ready u, fired_timer, r1))"
      "timers_ok E items r1" "same_io ?r r1" "poller r1 = poller ?r" by blast
    have "steady E items G calm r1" using steady_same_io [OF st P(3,2)] P(4) c by simp
    with timer_poll_in [OF P(1,3)] True show ?thesis by (auto simp: later_def timer_result_def)
  next
    case False
    from timer_poll_early [OF ok _ t(2) [OF False], of ?now] False obtain j r1 where
      P: "timer_poll E ?now me t ?r = Some (Inr (Poll_Pending, waiting_timer me u j, r1))" "timers_ok E items r1"
        "same_io ?r r1" "timer_view items r1 (u, j) = Some me" "poller r1 \<in> {poller ?r, snd (po_notify (poll_calls E) (poller ?r))}"
      by auto
    have "steady E items G calm r1"
      using steady_same_io [OF st P(3,2)] P(5) c calm_pollerD(1) [OF calm c] by auto
    with timer_poll_in [OF P(1,3)] P(4) False H show ?thesis by (auto simp: later_def timer_waits_def timer_is_due_def)
  qed
qed

interpretation tw: awaited E sc me "timer_future E" "timer_starts E items G calm sc u N" "timer_waits E items G calm sc me u N"
    "timer_is_due E items G calm sc me u N" "\<lambda>t w. N - wd_now w" "timer_result E items G calm sc u"
    for E items G calm sc me u N
proof (unfold_locales, goal_cases)
  case (1 w' w t)
  then show ?case
    using clock_mono [of sc "wd_now w" "wd_now w'" u] by (auto simp: timer_waits_def timer_is_due_def reaches_def)
next
  case (2 t w polling timeout)
  then show ?case by (rule timer_round)
next
  case (3 t w)
  then show ?case by (rule timer_poll_step)
qed

section \<open>Properties\<close>

text \<open>
  C22. Waiting for a timer ends, on time and without a trace. However the threads share the lock and
  whoever reacts, \<open>block_on\<close> of a new timer that is due at \<open>u\<close> returns \<open>u\<close>, after a reading of the
  clock at or past \<open>u\<close>, provided the clock reaches \<open>u\<close> and the poller refuses no change of interest for
  the registered sources; waits may fail. The reactor stays well formed, the parker is left without
  notification, the flags are down, the counter is what it was and the "async-io" thread is told.
\<close>

theorem block_on_timer_returns:
  assumes "calm_poller E G calm" "steady E items G calm (wd_reactor w)" "clock_ok sc" "u \<le> sc_clock sc N"
    and "instant_min + int nanos_per_sec \<le> u" "\<not> wd_polling w" "\<not> wd_blocked w"
  shows "\<exists>w' n. block_on E sc (timer_future E) me (timer_at u) w = Some (Inr (u, w')) \<and> u \<le> sc_clock sc n \<and> n < wd_now w' \<and>
    steady E items G calm (wd_reactor w') \<and> \<not> wd_token w' \<and> \<not> wd_polling w' \<and> \<not> wd_blocked w' \<and>
    wd_block_ons w' = wd_block_ons w \<and> wd_main_token w'"
proof -
  let ?w = "w\<lparr>wd_block_ons := wd_block_ons w + 1\<rparr>"
  have "timer_starts E items G calm sc u N (timer_at u) ?w" using assms by (simp add: timer_starts_def reaches_def)
  from tw.loop_returns [OF this, of me] assms(6,7) obtain w1 n where
    L: "block_on_loop E sc (timer_future E) me (timer_at u) ?w = Some (Inr (u, fired_timer, w1))"
    "steady E items G calm (wd_reactor w1)" "\<not> wd_token w1" "later ?w w1" "u \<le> sc_clock sc n" "n < wd_now w1"
    by (auto simp: timer_result_def)
  have drop: "fut_drop (timer_future E) fired_timer (wd_reactor w1) = Some (Inr (wd_reactor w1))"
    by (simp add: timer_future_def timer_drop_def fired_timer_def)
  show ?thesis using L assms(6,7)
    by (auto simp: block_on_def drop no_new_wakes later_def intro!: exI [of _ n])
qed

text \<open>
  The reactor of an earlier example, with a source that another task waits on and an event on its way. The
  timer is due at 20 microseconds; the clock moves by one at each reading, and the lock is taken every third time.
\<close>

definition sim_schedule :: schedule where
  "sim_schedule = \<lparr>sc_clock = (\<lambda>n. min (1000 * int n) 1000000), sc_free = (\<lambda>n. n mod 3 \<noteq> 0),
     sc_timeout = (\<lambda>_. None), sc_polling = (\<lambda>_. False)\<rparr>"

definition sim_world :: "(sim_poller, sim_sw, sim_ss, timer_op list, registration_unix) world" where
  "sim_world = \<lparr>wd_reactor = run_future, wd_now = 0, wd_token = True, wd_polling = False,
     wd_blocked = False, wd_block_ons = 2, wd_main_token = False\<rparr>"

definition sim_calm :: "sim_poller \<Rightarrow> bool" where
  "sim_calm p \<longleftrightarrow> sp_refuse p = [] \<and> sp_watched p 3 \<noteq> None"

lemma sim_calm_poller: "calm_poller sim {unix_new 3} sim_calm"
  by (auto simp: calm_poller_def sim_calm_def sim_polling_def sim_wait_def sim_disarm_def unix_registration_defs
    unix_new_def sim_fd_calls_def sim_set_def split: list.splits sum.splits)

lemma sim_world_steady: "steady sim id {unix_new 3} sim_calm (wd_reactor sim_world)"
  by (auto simp: steady_def sim_world_def sim_calm_def run_future_simps source_at_def sim_get_def source3_future_def
    source3_def unix_new_def split: if_splits)

lemma sim_schedule_ok: "clock_ok sim_schedule"
  by (auto simp: clock_ok_def sim_schedule_def instant_max_def nanos_per_sec_def intro!: monoI)

theorem block_on_timer_returns_witness:
  "\<exists>w'. block_on sim sim_schedule (timer_future sim) 8 (timer_at 20000) sim_world = Some (Inr (20000, w')) \<and> wd_block_ons w' = 2"
proof -
  have "20000 \<le> sc_clock sim_schedule 20" by (simp add: sim_schedule_def)
  moreover have "instant_min + int nanos_per_sec \<le> 20000" by (simp add: instant_min_def nanos_per_sec_def)
  ultimately show ?thesis
    using block_on_timer_returns [OF sim_calm_poller sim_world_steady sim_schedule_ok, of 20000 20 8] by (auto simp: sim_world_def)
qed

end
