(* ===== verification/Block_On_IO.thy ===== *)
theory Block_On_IO
  imports Block_On_Properties
begin

text \<open>
  Waiting for a source: what rounds do to a source that the thread waits on, and that \<open>block_on\<close> of
  \<open>readable()\<close> or \<open>writable()\<close> returns once the poller, which works in one-shot mode, reports the event.
\<close>

section \<open>A poller that reports the event\<close>

text \<open>
  The poller works in one-shot mode. It is \<open>armed\<close> when interest in the direction \<open>d\<close> of the source \<open>g\<close>, whose key
  is \<open>k\<close>, is registered; registering that interest arms it as long as it can be armed.
\<close>

definition can_arm :: "('p, 'sw, 'ss, 'q, 'reg) crates \<Rightarrow> 'reg \<Rightarrow> slab_key \<Rightarrow> dir \<Rightarrow> ('p \<Rightarrow> bool) \<Rightarrow> 'p \<Rightarrow> bool" where
  "can_arm E g k d armed p \<longleftrightarrow> (\<forall>e. ev_key e = k \<longrightarrow> emitted e d \<longrightarrow> armed (snd (reg_modify (reg_calls E) g e p)))"

text \<open>
  While it is armed, a wait reports an event for \<open>d\<close> or brings it nearer, as counted by \<open>left\<close>. A wait that
  brings it nearer may disarm the source, if it reports another event of the source, an event for
  the other direction say; then the source can be armed again. Neither is changed by what is done to other
  sources.
\<close>

definition event_comes :: "('p, 'sw, 'ss, 'q, 'reg) crates \<Rightarrow> 'reg set \<Rightarrow> ('p \<Rightarrow> bool) \<Rightarrow> 'reg \<Rightarrow> slab_key \<Rightarrow> dir \<Rightarrow>
    ('p \<Rightarrow> bool) \<Rightarrow> ('p \<Rightarrow> nat) \<Rightarrow> bool" where
  "event_comes E G calm g k d armed left \<longleftrightarrow> calm_poller E G calm \<and>
     (\<forall>p. armed p \<longrightarrow> can_arm E g k d armed p) \<and>
     (\<forall>p. armed p \<longrightarrow> armed (snd (po_notify (poll_calls E) p))) \<and>
     (\<forall>p. \<forall>g'\<in>G - {g}. \<forall>e. (armed p \<longrightarrow> armed (snd (reg_modify (reg_calls E) g' e p))) \<and>
        (can_arm E g k d armed p \<longrightarrow> can_arm E g k d armed (snd (reg_modify (reg_calls E) g' e p)))) \<and>
     (\<forall>p. left (snd (po_notify (poll_calls E) p)) \<le> left p \<and> (\<forall>g'\<in>G. \<forall>e. left (snd (reg_modify (reg_calls E) g' e p)) \<le> left p)) \<and>
     (\<forall>p t res evs p'. armed p \<longrightarrow> po_wait (poll_calls E) [] t p = (res, evs, p') \<longrightarrow>
        (\<exists>n. res = Inr n) \<and> d \<in> emitted_dirs evs k \<or>
        left p' < left p \<and> (armed p' \<or> (\<exists>n. res = Inr n) \<and> k \<in> ev_key ` set evs \<and> can_arm E g k d armed p'))"

lemma can_armD: "can_arm E g k d armed p \<Longrightarrow> ev_key e = k \<Longrightarrow> emitted e d \<Longrightarrow> reg_modify (reg_calls E) g e p = (res, p') \<Longrightarrow> armed p'"
  unfolding can_arm_def by (metis snd_conv)

lemma event_comesD:
  assumes "event_comes E G calm g k d armed left"
  shows "calm_poller E G calm"
    and "armed p \<Longrightarrow> can_arm E g k d armed p"
    and "g' \<in> G \<Longrightarrow> g' \<noteq> g \<Longrightarrow> reg_modify (reg_calls E) g' e p = (res, p') \<Longrightarrow>
      (armed p \<longrightarrow> armed p') \<and> (can_arm E g k d armed p \<longrightarrow> can_arm E g k d armed p')"
    and "armed p \<Longrightarrow> armed (snd (po_notify (poll_calls E) p))"
    and "left (snd (po_notify (poll_calls E) p)) \<le> left p"
    and "g' \<in> G \<Longrightarrow> reg_modify (reg_calls E) g' e p = (res, p') \<Longrightarrow> left p' \<le> left p"
    and "armed p \<Longrightarrow> po_wait (poll_calls E) [] t p = (wres, evs, p') \<Longrightarrow>
      (\<exists>n. wres = Inr n) \<and> d \<in> emitted_dirs evs k \<or>
      left p' < left p \<and> (armed p' \<or> (\<exists>n. wres = Inr n) \<and> k \<in> ev_key ` set evs \<and> can_arm E g k d armed p')"
  using assms unfolding event_comes_def by (blast, blast, metis Diff_iff singletonD snd_conv, blast, blast, metis snd_conv, blast)

text \<open>What arms it: interest that is registered already, or that the first poll registers.\<close>

definition will_arm :: "('p, 'sw, 'ss, 'q, 'reg) crates \<Rightarrow> dir \<Rightarrow> ('p \<Rightarrow> bool) \<Rightarrow> ('sw, 'reg) source \<Rightarrow> 'p \<Rightarrow> bool" where
  "will_arm E d armed s p \<longleftrightarrow> (if waiting E (src_state s d) = {}
     then can_arm E (registration s) (src_key s) d armed p else armed p)"

text \<open>The source in question, the only one with its registration.\<close>

definition sole_source :: "('p, 'sw, 'ss, 'q, 'reg) crates \<Rightarrow> 'reg \<Rightarrow> slab_key \<Rightarrow> ('p, 'sw, 'ss, 'q, 'reg) reactor \<Rightarrow>
    ('sw, 'reg) source \<Rightarrow> bool" where
  "sole_source E g k r s \<longleftrightarrow> source_at E r k = Some s \<and> registration s = g \<and>
     (\<forall>j t. source_at E r j = Some t \<longrightarrow> registration t = g \<longrightarrow> j = k)"

lemma sole_sourceD:
  assumes "sole_source E g k r s"
  shows "source_at E r k = Some s" "registration s = g" "source_at E r j = Some t \<Longrightarrow> registration t = g \<Longrightarrow> j = k"
  using assms unfolding sole_source_def by blast+

lemma sole_source_cong:
  assumes sole: "sole_source E g k r s" and same: "\<And>j. map_option registration (source_at E r' j) = map_option registration (source_at E r j)"
    and s': "source_at E r' k = Some s'"
  shows "sole_source E g k r' s'"
  unfolding sole_source_def
proof (intro conjI allI impI s')
  show "registration s' = g" using same [of k] s' sole_sourceD(1,2) [OF sole] by simp
next
  fix j t assume "source_at E r' j = Some t" "registration t = g"
  with same [of j] obtain u where "source_at E r j = Some u" "registration u = g"
    by (cases "source_at E r j") simp_all
  then show "j = k" by (rule sole_sourceD(3) [OF sole])
qed

text \<open>
  Delivering other events keeps the poller armed: when one of them is of the source, and so has disarmed it, the
  reactor registers the interest anew.
\<close>

lemma deliver_armed:
  assumes comes: "event_comes E G calm g k d armed left" and slab: "slab_ok (wslab E)"
  shows "sources_ok E r \<Longrightarrow> calm (poller r) \<Longrightarrow> \<forall>j t. source_at E r j = Some t \<longrightarrow> registration t \<in> G \<Longrightarrow>
    sole_source E g k r s \<Longrightarrow> waiting E (src_state s d) \<noteq> {} \<Longrightarrow> d \<notin> emitted_dirs evs k \<Longrightarrow>
    armed (poller r) \<or> can_arm E g k d armed (poller r) \<and> k \<in> ev_key ` set evs \<Longrightarrow>
    deliver_events E tk evs ws r = (Inr (), ws', r') \<Longrightarrow> armed (poller r') \<and> left (poller r') \<le> left (poller r)"
proof (induction evs arbitrary: ws r s)
  case (Cons ev evs)
  note calm = event_comesD(1) [OF comes]
  from Cons.prems(1) slab show ?case
  proof (cases rule: deliver_events_step [where ev = ev and tk = tk and evs = evs and ws = ws])
    case unknown
    with sole_sourceD(1) [OF Cons.prems(4)] have "ev_key ev \<noteq> k" by auto
    with unknown Cons.IH [OF Cons.prems(1-5)] Cons.prems(6-8) show ?thesis by auto
  next
    case (failed t t' ws1 r1 e)
    with Cons.prems(8) show ?thesis by simp
  next
    case (passed t t' ws1 r1)
    note D = deliver_source_spec(1) [OF slab passed(2), unfolded delivered_def]
    have r1: "sources_ok E r1" "source_at E r1 = (source_at E r)(ev_key ev \<mapsto> t')" using passed(3) by (simp_all add: stored_at_def)
    note sk = sole_sourceD(1,2) [OF Cons.prems(4)] and sole = sole_sourceD(3) [OF Cons.prems(4)]
    have regs: "map_option registration (source_at E r1 j) = map_option registration (source_at E r j)" for j
      using r1(2) passed(1) D by simp
    have G: "registration t' \<in> G" using D Cons.prems(3) passed(1) by simp
    have mod: "(\<forall>d. waiting E (src_state t' d) = {}) \<and> poller r1 = poller r \<or>
        reg_modify (reg_calls E) (registration t') (interest_event E t') (poller r) = (Inr (), poller r1)"
      using passed(5) by (simp split: if_splits)
    have "calm (poller r1)" using mod calm_pollerD(3) [OF calm Cons.prems(2) G] Cons.prems(2) by metis
    moreover have "\<forall>j t. source_at E r1 j = Some t \<longrightarrow> registration t \<in> G" using r1(2) G Cons.prems(3) by simp
    moreover have left: "left (poller r1) \<le> left (poller r)"
      using mod event_comesD(6) [OF comes G] order_refl by metis
    moreover have "\<exists>s1. sole_source E g k r1 s1 \<and> waiting E (src_state s1 d) \<noteq> {} \<and>
        (armed (poller r1) \<or> can_arm E g k d armed (poller r1) \<and> k \<in> ev_key ` set evs)"
    proof (cases "ev_key ev = k")
      case True
      then have t: "t = s" using passed(1) sk(1) by simp
      have "src_state t' d = src_state s d" using D Cons.prems(6) True t by auto
      then have w: "waiting E (src_state t' d) \<noteq> {}" using Cons.prems(5) by simp
      have key: "src_key t' = k" using D sources_ok_key [OF Cons.prems(1) passed(1)] True by simp
      have "emitted (interest_event E t') d" using w slab by (cases d) simp_all
      moreover have "reg_modify (reg_calls E) g (interest_event E t') (poller r) = (Inr (), poller r1)"
        using mod w D t sk(2) by auto
      moreover have "ev_key (interest_event E t') = k" using key by simp
      moreover have "can_arm E g k d armed (poller r)" using Cons.prems(7) event_comesD(2) [OF comes] by blast
      ultimately have "armed (poller r1)" by (blast dest: can_armD)
      moreover have "sole_source E g k r1 t'"
        using r1(2) True by (intro sole_source_cong [OF Cons.prems(4) regs]) simp
      ultimately show ?thesis using w by blast
    next
      case False
      then have g: "registration t' \<noteq> g" using sole [OF passed(1)] D by metis
      have "armed (poller r1) \<or> can_arm E g k d armed (poller r1) \<and> k \<in> ev_key ` set evs"
        using mod event_comesD(3) [OF comes G g] Cons.prems(7) False by auto
      moreover have "sole_source E g k r1 s"
        using r1(2) False sk by (intro sole_source_cong [OF Cons.prems(4) regs]) simp
      ultimately show ?thesis using Cons.prems(5) by blast
    qed
    moreover have "d \<notin> emitted_dirs evs k" using Cons.prems(6) by simp
    ultimately show ?thesis using Cons.IH [OF r1(1)] Cons.prems(8) passed(4) by fastforce
  qed
qed simp

section \<open>Rounds\<close>

text \<open>Rounds keep the table of sources, and every source its registration.\<close>

lemma finish_slab:
  assumes "react_finish E now t tk ws res r = Inr (out, r')"
  shows "sources r' = sources r"
proof -
  have del: "deliver_events E tk evs ws r = (dres, ws', r1) \<Longrightarrow> sources r1 = sources r" for evs ws r dres ws' r1
    by (induction E tk evs ws r rule: deliver_events.induct)
      (fastforce simp: Let_def split: option.splits prod.splits sum.splits if_splits)+
  show ?thesis
    using assms by (auto simp: react_finish_def wake_all_def rbind_eq_Inr_iff
        dest: process_timers_frame del split: sum.splits if_splits prod.splits)
qed

text \<open>
  After a wait, the round wakes whoever waits on the direction, or the direction is left alone and the poller
  armed as before.
\<close>

lemma finish_source:
  assumes comes: "event_comes E G calm g k d armed left" and ok: "steady E items G calm r" and now: "now < instant_max"
    and s: "sole_source E g k r s" "waiting E (src_state s d) \<noteq> {}"
    and hit: "hit \<longleftrightarrow> (\<exists>n. res = Inr n \<and> n \<noteq> 0) \<and> d \<in> emitted_dirs (events r) k"
    and event: "\<not> hit \<longrightarrow> armed (poller r) \<or> (\<exists>n. res = Inr n \<and> n \<noteq> 0) \<and> k \<in> ev_key ` set (events r) \<and> can_arm E g k d armed (poller r)"
    and fin: "react_finish E now t tk ws res r = Inr (out, r')"
  shows "\<exists>ws' s'. woken r' = woken r @ ws' \<and> sole_source E g k r' s' \<and> ticker r' = ticker r \<and>
    (if hit then waiting E (src_state s d) \<subseteq> set ws' \<and> tick (src_state s' d) = tk
     else armed (poller r') \<and> left (poller r') \<le> left (poller r) \<and> src_state s' d = src_state s d)"
proof -
  have R: "reactor_ok E items r" and c: "calm (poller r)" and G: "\<forall>j t. source_at E r j = Some t \<longrightarrow> registration t \<in> G"
    using ok by (simp_all add: steady_def)
  note P = reactor_ok_parts [OF R]
  note sk = sole_sourceD(1,2) [OF s(1)]
  have quiet: ?thesis if "\<exists>ws'. woken r' = woken r @ ws'" "source_at E r' = source_at E r" "poller r' = poller r"
    "ticker r' = ticker r" "\<not> (\<exists>n. res = Inr n \<and> n \<noteq> 0)"
    using that(1,3,4,5) hit event sole_source_cong [OF s(1), of r' s] that(2) sk(1) by auto
  have still: "source_at E (wake_all ws r) = source_at E r" by (rule source_at_cong) (simp_all add: wake_all_def)
  have woke: ?thesis if "r' = wake_all ws r" "\<not> (\<exists>n. res = Inr n \<and> n \<noteq> 0)"
    using that still by (intro quiet) (simp_all add: wake_all_def)
  from R now show ?thesis
  proof (cases rule: react_finish_cases [where res = res and t = t and tk = tk and ws = ws])
    case (idle ready r1)
    then have "poller r1 = poller r" by (auto simp: react_finish_def rbind_eq_Inr_iff wake_all_def dest: process_timers_frame)
    with idle fin show ?thesis by (intro quiet) auto
  next
    case (served n ws1 r1)
    have r': "r1 = r'" using served(3) fin by simp
    obtain dres ws2 r2 where del: "deliver_events E tk (events r) ws r = (dres, ws2, r2)" using prod_cases3 by blast
    then have r2: "dres = Inr ()" "r' = wake_all ws2 r2" using served(1-3) r' by (auto simp: react_finish_def split: sum.splits)
    have key: "key_served E tk (emitted_dirs (events r) j) (Inr ()) ws1 (source_at E r j) (source_at E r' j)" for j
      using served(8) r' by (simp add: loop_served_def)
    from key [of k] sk(1) obtain s' where s': "source_at E r' k = Some s'" "served E tk (emitted_dirs (events r) k) ws1 s s'"
      by (auto simp: key_served_def)
    have "map_option registration (source_at E r' j) = map_option registration (source_at E r j)" for j
      using key [of j] by (auto simp: key_served_def served_def delivered_def split: option.splits)
    from sole_source_cong [OF s(1) this s'(1)] have one: "sole_source E g k r' s'" .
    show ?thesis
    proof (cases "d \<in> emitted_dirs (events r) k")
      case True
      with hit served(1,2) have hit by simp
      with True s'(2) served(7,9) r' one show ?thesis by (intro exI [of _ ws1] exI [of _ s']) (auto simp: served_def delivered_def)
    next
      case False
      with hit have miss: "\<not> hit" by simp
      with event have a: "armed (poller r) \<or> can_arm E g k d armed (poller r) \<and> k \<in> ev_key ` set (events r)" by blast
      have "poller r' = poller r2" using r2(2) by (simp add: wake_all_def)
      with deliver_armed [OF comes P(3,2) c G s(1,2) False a] del r2(1) have "armed (poller r') \<and> left (poller r') \<le> left (poller r)" by simp
      moreover have "src_state s' d = src_state s d" using s'(2) False by (simp add: served_def delivered_def)
      ultimately show ?thesis using miss served(7,9) r' one by (intro exI [of _ ws1] exI [of _ s']) simp
    qed
  next
    case (lost n e ws1 r1)
    from steady_deliver [OF event_comesD(1) [OF comes] P(3) P(2) c G lost(3)] show ?thesis by simp
  qed (use fin woke in auto)
qed

text \<open>A source that is waited on, in a reactor whose poller refuses nothing.\<close>

definition watched_source :: "('p, 'sw, 'ss, 'q, 'reg) crates \<Rightarrow> ('q \<Rightarrow> timer_op list) \<Rightarrow> 'reg set \<Rightarrow> ('p \<Rightarrow> bool) \<Rightarrow> 'reg \<Rightarrow>
    slab_key \<Rightarrow> addr \<Rightarrow> ('p, 'sw, 'ss, 'q, 'reg) reactor \<Rightarrow> ('sw, 'reg) source \<Rightarrow> bool" where
  "watched_source E items G calm g k a r s \<longleftrightarrow> steady E items G calm r \<and> sole_source E g k r s \<and>
     sl_get (sslab E) k (sources r) = Some a"

lemma watched_sourceD:
  assumes "watched_source E items G calm g k a r s"
  shows "steady E items G calm r" "sole_source E g k r s" "live E r a s" "src_key s = k" "registration s = g" "g \<in> G"
proof -
  from assms show W: "steady E items G calm r" "sole_source E g k r s" by (simp_all add: watched_source_def)
  note S = sole_sourceD(1,2) [OF W(2)]
  show "src_key s = k" using sources_ok_key [of E r k s] W(1) S(1) reactor_ok_parts(2) by (auto simp: steady_def)
  with assms S(1) show "live E r a s" by (auto simp: watched_source_def live_def source_at_def)
  show "registration s = g" "g \<in> G" using S W(1) by (auto simp: steady_def)
qed

lemma watched_source_poller:
  "watched_source E items G calm g k a r s \<Longrightarrow> calm p \<Longrightarrow> watched_source E items G calm g k a (r\<lparr>poller := p\<rparr>) s"
  by (simp add: watched_source_def steady_def sole_source_def)

lemma io_react:
  assumes comes: "event_comes E G calm g k d armed left" and W: "watched_source E items G calm g k a r s"
    and now: "now < instant_max" "now' < instant_max" and w: "waiting E (src_state s d) \<noteq> {}" and a: "armed (poller r)"
  shows "\<exists>out r' ws s'. react E now now' timeout r = Inr (out, r') \<and> woken r' = woken r @ ws \<and>
    watched_source E items G calm g k a r' s' \<and> ticker r' = ticker r + 1 \<and>
    (waiting E (src_state s d) \<subseteq> set ws \<and> tick (src_state s' d) = ticker r + 1 \<or>
     armed (poller r') \<and> left (poller r') < left (poller r) \<and> src_state s' d = src_state s d)"
proof -
  note calm = event_comesD(1) [OF comes] and S = watched_sourceD [OF W]
  from steady_react [OF calm S(1) now, of timeout] obtain out r' where
    R: "react E now now' timeout r = Inr (out, r')" "steady E items G calm r'" by blast
  have ok: "reactor_ok E items r" using S(1) by (simp add: steady_def)
  from R(1) obtain t tk tws r1 where P: "react_prepare E now timeout r = Inr (t, tk, tws, r1)"
    by (auto simp: react_def rbind_eq_Inr_iff)
  note Q = react_prepare_reactor_ok [OF ok now(1) P]
  obtain res r2 where wait: "react_wait E t r1 = (res, r2)" by force
  have fin: "react_finish E now' t tk tws res r2 = Inr (out, r')" using R(1) react_eq [OF P wait] by simp
  obtain evs p where po: "po_wait (poll_calls E) [] t (poller r) = (res, evs, p)" "r2 = r1\<lparr>events := evs, poller := p\<rparr>"
    using wait Q(4,8) by (auto simp: react_wait_def split: prod.splits)
  have at: "source_at E r2 = source_at E r" using source_at_cong [OF Q(5,6), of E] unfolding po(2) source_at_buffer .
  have "calm p" using calm_pollerD(2) [OF calm _ po(1)] S(1) by (simp add: steady_def)
  moreover have "reactor_ok E items r2" unfolding po(2) reactor_ok_buffer by (rule Q(1))
  ultimately have st: "steady E items G calm r2" using S(1) at by (simp add: steady_def po(2))
  have s2: "sole_source E g k r2 s" using S(2) by (simp add: sole_source_def at)
  define hit where "hit \<longleftrightarrow> (\<exists>n. res = Inr n \<and> n \<noteq> 0) \<and> d \<in> emitted_dirs (events r2) k"
  have len: "length evs = n" if "res = Inr n" for n
    using react_wait_ok(2) [OF wait reactor_ok_parts(5) [OF ok] Q(4) that] by (simp add: po(2))
  have miss: "left p < left (poller r) \<and> (armed p \<or> (\<exists>n. res = Inr n \<and> n \<noteq> 0) \<and> k \<in> ev_key ` set evs \<and> can_arm E g k d armed p)"
    if "\<not> hit"
  proof -
    have "\<not> ((\<exists>n. res = Inr n) \<and> d \<in> emitted_dirs evs k)"
    proof
      assume e: "(\<exists>n. res = Inr n) \<and> d \<in> emitted_dirs evs k"
      then obtain n where n: "res = Inr n" by blast
      with e len [OF n] have "n \<noteq> 0" by (auto simp: emitted_dirs_def)
      with e n that show False by (simp add: hit_def po(2))
    qed
    moreover have "n \<noteq> 0" if "res = Inr n" "k \<in> ev_key ` set evs" for n using that len [OF that(1)] by auto
    ultimately show ?thesis using event_comesD(7) [OF comes a po(1)] by blast
  qed
  then have "\<not> hit \<longrightarrow> armed (poller r2) \<or> (\<exists>n. res = Inr n \<and> n \<noteq> 0) \<and> k \<in> ev_key ` set (events r2) \<and> can_arm E g k d armed (poller r2)"
    by (simp add: po(2))
  from finish_source [OF comes st now(2) s2 w hit_def this fin] obtain ws s' where
    F: "woken r' = woken r2 @ ws" "sole_source E g k r' s'" "ticker r' = ticker r2"
    "if hit then waiting E (src_state s d) \<subseteq> set ws \<and> tick (src_state s' d) = tk
     else armed (poller r') \<and> left (poller r') \<le> left (poller r2) \<and> src_state s' d = src_state s d" by blast
  have "watched_source E items G calm g k a r' s'"
    using R(2) F(2) finish_slab [OF fin] Q(5) W by (simp add: watched_source_def po(2))
  moreover have "woken r' = woken r @ ws" "ticker r' = ticker r + 1" using F(1,3) Q(3,9) by (simp_all add: po(2))
  moreover have "waiting E (src_state s d) \<subseteq> set ws \<and> tick (src_state s' d) = ticker r + 1 \<or>
     armed (poller r') \<and> left (poller r') < left (poller r) \<and> src_state s' d = src_state s d"
    using F(4) miss Q(2) by (cases hit) (auto simp: po(2))
  ultimately show ?thesis using R(1) by blast
qed

section \<open>Waiting for a source\<close>

text \<open>
  What the wait relies on, and its states. The future is new; or it is registered with the thread's waker and
  the ticks \<open>T\<close> of the reactor and \<open>b\<close> of the direction, with at most \<open>L\<close> rounds past and to come;
  or the event has been delivered. None of those rounds carries a tick that the future remembers.
\<close>

definition brings :: "('p, 'sw, 'ss, 'q, 'reg) crates \<Rightarrow> 'reg set \<Rightarrow> ('p \<Rightarrow> bool) \<Rightarrow> 'reg \<Rightarrow> slab_key \<Rightarrow> dir \<Rightarrow>
    ('p \<Rightarrow> bool) \<Rightarrow> ('p \<Rightarrow> nat) \<Rightarrow> schedule \<Rightarrow> usize \<Rightarrow> usize \<Rightarrow> nat \<Rightarrow> bool" where
  "brings E G calm g k d armed left sc T b L \<longleftrightarrow> event_comes E G calm g k d armed left \<and> clock_ok sc \<and>
     (\<forall>j\<in>{1..Suc L}. fresh_event (Some (T, b)) (T + of_nat j))"

definition ready_waits :: "dir \<Rightarrow> usize \<Rightarrow> usize \<Rightarrow> slab_key \<Rightarrow> ready_future" where
  "ready_waits d T b i = \<lparr>rf_dir = d, rf_ticks = Some (T, b), rf_index = Some i\<rparr>"

definition io_new :: "('p, 'sw, 'ss, 'q, 'reg) crates \<Rightarrow> ('q \<Rightarrow> timer_op list) \<Rightarrow> 'reg set \<Rightarrow> ('p \<Rightarrow> bool) \<Rightarrow> 'reg \<Rightarrow> slab_key \<Rightarrow> dir \<Rightarrow> addr \<Rightarrow>
    ('p \<Rightarrow> bool) \<Rightarrow> ('p \<Rightarrow> nat) \<Rightarrow> usize \<Rightarrow> usize \<Rightarrow> nat \<Rightarrow> ready_future \<Rightarrow> ('p, 'sw, 'ss, 'q, 'reg) reactor \<Rightarrow> bool" where
  "io_new E items G calm g k d a armed left T b L f r \<longleftrightarrow> (\<exists>s. watched_source E items G calm g k a r s \<and> f = source_ready d \<and>
     will_arm E d armed s (poller r) \<and> tick (src_state s d) = b \<and> ticker r = T \<and> left (poller r) \<le> L)"

definition io_waits :: "('p, 'sw, 'ss, 'q, 'reg) crates \<Rightarrow> ('q \<Rightarrow> timer_op list) \<Rightarrow> 'reg set \<Rightarrow> ('p \<Rightarrow> bool) \<Rightarrow> 'reg \<Rightarrow> slab_key \<Rightarrow> dir \<Rightarrow> addr \<Rightarrow>
    ('p \<Rightarrow> bool) \<Rightarrow> ('p \<Rightarrow> nat) \<Rightarrow> usize \<Rightarrow> usize \<Rightarrow> nat \<Rightarrow> waker \<Rightarrow> ready_future \<Rightarrow> ('p, 'sw, 'ss, 'q, 'reg) reactor \<Rightarrow> bool" where
  "io_waits E items G calm g k d a armed left T b L me f r \<longleftrightarrow> (\<exists>s i m. watched_source E items G calm g k a r s \<and> f = ready_waits d T b i \<and>
     sl_get (wslab E) i (wakers (src_state s d)) = Some (Some me) \<and> armed (poller r) \<and> tick (src_state s d) = b \<and>
     ticker r = T + of_nat m \<and> m + left (poller r) \<le> L)"

definition io_arrived :: "('p, 'sw, 'ss, 'q, 'reg) crates \<Rightarrow> ('q \<Rightarrow> timer_op list) \<Rightarrow> 'reg set \<Rightarrow> ('p \<Rightarrow> bool) \<Rightarrow> 'reg \<Rightarrow> slab_key \<Rightarrow> dir \<Rightarrow> addr \<Rightarrow>
    usize \<Rightarrow> usize \<Rightarrow> nat \<Rightarrow> ready_future \<Rightarrow> ('p, 'sw, 'ss, 'q, 'reg) reactor \<Rightarrow> bool" where
  "io_arrived E items G calm g k d a T b L f r \<longleftrightarrow> (\<exists>s i. \<exists>j\<in>{1..Suc L}. watched_source E items G calm g k a r s \<and>
     f = ready_waits d T b i \<and> tick (src_state s d) = T + of_nat j)"

text \<open>A round brings the event nearer, or delivers it and wakes the thread.\<close>

lemma io_round:
  assumes H: "brings E G calm g k d armed left sc T b L" and w: "io_waits E items G calm g k d a armed left T b L me f (wd_reactor w)"
  shows "\<exists>w'. round_by E sc me polling timeout w = Inr w' \<and> later w w' \<and>
    (io_waits E items G calm g k d a armed left T b L me f (wd_reactor w') \<and> left (poller (wd_reactor w')) < left (poller (wd_reactor w)) \<or>
     wd_token w' \<and> io_arrived E items G calm g k d a T b L f (wd_reactor w'))"
proof -
  from H have comes: "event_comes E G calm g k d armed left" and clock: "clock_ok sc" by (simp_all add: brings_def)
  note calm = event_comesD(1) [OF comes]
  let ?r = "wd_reactor w" and ?now = "sc_clock sc (wd_now w)" and ?now' = "sc_clock sc (wd_now w + 1)"
  from w obtain s i m where W: "watched_source E items G calm g k a ?r s" "f = ready_waits d T b i"
    "sl_get (wslab E) i (wakers (src_state s d)) = Some (Some me)" "armed (poller ?r)" "tick (src_state s d) = b"
    "ticker ?r = T + of_nat m" "m + left (poller ?r) \<le> L" by (auto simp: io_waits_def)
  have me: "me \<in> waiting E (src_state s d)" using W(3) by (auto simp: waiting_def)
  have max: "?now < instant_max" "?now' < instant_max" using clock by (simp_all add: clock_ok_def)
  from me have "waiting E (src_state s d) \<noteq> {}" by blast
  from io_react [OF comes W(1) max this W(4), of timeout] obtain out r1 ws s' where R: "react E ?now ?now' timeout ?r = Inr (out, r1)"
    "woken r1 = woken ?r @ ws" "watched_source E items G calm g k a r1 s'" "ticker r1 = ticker ?r + 1"
    "waiting E (src_state s d) \<subseteq> set ws \<and> tick (src_state s' d) = ticker ?r + 1 \<or>
     armed (poller r1) \<and> left (poller r1) < left (poller ?r) \<and> src_state s' d = src_state s d" by blast
  let ?w = "w\<lparr>wd_reactor := r1, wd_now := wd_now w + 2\<rparr>" and ?p = "snd (po_notify (poll_calls E) (poller r1))"
  have "steady E items G calm (wd_reactor ?w)" using watched_sourceD(1) [OF R(3)] by simp
  from wake_thread_steady [OF calm this, of me polling ws] obtain w' where N: "wake_thread E me polling ws ?w = Inr w'" "later ?w w'"
    "wd_token w' \<longleftrightarrow> wd_token w \<or> (\<exists>v\<in>set ws. wakes_task E v me)" by auto
  have round: "round_by E sc me polling timeout w = Inr w'" "later w w'"
    using R(1,2) N(1,2) by (simp_all add: round_by_def new_wakes_def later_def)
  have "calm ?p" using calm_pollerD(1) [OF calm] watched_sourceD(1) [OF R(3)] by (simp add: steady_def)
  then have r': "wd_reactor w' = r1 \<or> wd_reactor w' = r1\<lparr>poller := ?p\<rparr> \<and> calm ?p"
    using N(1) steady_notify(1) [OF calm watched_sourceD(1) [OF R(3)]] by (auto simp: wake_thread_def split: if_splits)
  then have W': "watched_source E items G calm g k a (wd_reactor w') s'" "ticker (wd_reactor w') = T + of_nat (Suc m)"
    using R(3,4) W(6) watched_source_poller [OF R(3), of ?p] by auto
  have n: "armed (poller r1) \<Longrightarrow> armed (poller (wd_reactor w'))" "left (poller (wd_reactor w')) \<le> left (poller r1)"
    using r' event_comesD(4,5) [OF comes, of "poller r1"] by auto
  from R(5) show ?thesis
  proof
    assume A: "waiting E (src_state s d) \<subseteq> set ws \<and> tick (src_state s' d) = ticker ?r + 1"
    have "io_arrived E items G calm g k d a T b L f (wd_reactor w')"
      unfolding io_arrived_def using A W(2,6,7) W'(1) by (intro exI [of _ s'] exI [of _ i] bexI [of _ "Suc m"]) auto
    moreover have "wd_token w'" using A me N(3) by (auto simp: wakes_task_def)
    ultimately show ?thesis using round by blast
  next
    assume A: "armed (poller r1) \<and> left (poller r1) < left (poller ?r) \<and> src_state s' d = src_state s d"
    then have "io_waits E items G calm g k d a armed left T b L me f (wd_reactor w')"
      unfolding io_waits_def using W W' n by (intro exI [of _ s'] exI [of _ i] exI [of _ "Suc m"]) auto
    with A n(2) round show ?thesis by auto
  qed
qed

text \<open>Writing the source back after a poll.\<close>

lemma watched_source_put:
  assumes W: "watched_source E items G calm g k a r s" and r': "r' = put_source a s' (r\<lparr>poller := p\<rparr>)" "reactor_ok E items r'" "calm p"
    and at: "source_at E r' = (source_at E r)(k \<mapsto> s')" and g: "registration s' = g"
  shows "watched_source E items G calm g k a r' s'"
proof -
  note S = watched_sourceD [OF W]
  have "steady E items G calm r'"
    using S(1,6) r' at g by (auto simp: steady_def put_source_def)
  moreover have "sole_source E g k r' s'"
    using at g sole_sourceD(1,2) [OF S(2)] by (intro sole_source_cong [OF S(2)]) auto
  moreover have "sl_get (sslab E) k (sources r') = Some a" using W r'(1) by (simp add: watched_source_def put_source_def)
  ultimately show ?thesis by (simp add: watched_source_def)
qed

text \<open>A poll of the future completes when the event has been delivered, and otherwise registers the thread.\<close>

lemma io_poll_arrived:
  assumes H: "brings E G calm g k d armed left sc T b L" and f: "io_arrived E items G calm g k d a T b L f r"
  shows "\<exists>r'. poll_future E f me a r = Inr (Poll_Ready (Inr ()), f, r') \<and> woken r' = woken r \<and> io_arrived E items G calm g k d a T b L f r'"
proof -
  from f obtain s i j where W: "watched_source E items G calm g k a r s" "f = ready_waits d T b i"
    "tick (src_state s d) = T + of_nat j" "j \<in> {1..Suc L}" by (auto simp: io_arrived_def)
  have "fresh_event (rf_ticks f) (tick (src_state s (rf_dir f)))" using H W(2-4) by (auto simp: brings_def ready_waits_def)
  moreover have s: "heap r a = Some s" using watched_sourceD(3) [OF W(1)] by (simp add: live_def)
  ultimately have "poll_future E f me a r = Inr (Poll_Ready (Inr ()), f, put_source a s r)"
    by (simp add: poll_future_def ready_poll_def deref_def)
  moreover have "put_source a s r = r" using s by (simp add: put_source_def fun_upd_idem)
  ultimately show ?thesis using f by simp
qed

lemma io_poll_pending:
  assumes H: "brings E G calm g k d armed left sc T b L"
    and f: "io_new E items G calm g k d a armed left T b L f r \<or> io_waits E items G calm g k d a armed left T b L me f r"
  shows "\<exists>f' r'. poll_future E f me a r = Inr (Poll_Pending, f', r') \<and> woken r' = woken r \<and>
    io_waits E items G calm g k d a armed left T b L me f' r' \<and> left (poller r') \<le> left (poller r)"
proof -
  from H have comes: "event_comes E G calm g k d armed left" by (simp add: brings_def)
  note calm = event_comesD(1) [OF comes]
  from f obtain s m where W: "watched_source E items G calm g k a r s" "tick (src_state s d) = b" "ticker r = T + of_nat m"
    "m + left (poller r) \<le> L" "will_arm E d armed s (poller r)" "f = source_ready d \<and> m = 0 \<or>
      (\<exists>i. f = ready_waits d T b i \<and> sl_get (wslab E) i (wakers (src_state s d)) = Some (Some me) \<and> waiting E (src_state s d) \<noteq> {})"
  proof
    assume "io_new E items G calm g k d a armed left T b L f r"
    then obtain s where "watched_source E items G calm g k a r s" "f = source_ready d"
      "will_arm E d armed s (poller r)" "tick (src_state s d) = b" "ticker r = T" "left (poller r) \<le> L"
      by (auto simp: io_new_def)
    then show thesis by (intro that [of s 0]) simp_all
  next
    assume "io_waits E items G calm g k d a armed left T b L me f r"
    then obtain s i m where "watched_source E items G calm g k a r s" "f = ready_waits d T b i"
      "sl_get (wslab E) i (wakers (src_state s d)) = Some (Some me)" "armed (poller r)" "tick (src_state s d) = b"
      "ticker r = T + of_nat m" "m + left (poller r) \<le> L" by (auto simp: io_waits_def)
    moreover from this(3) have "waiting E (src_state s d) \<noteq> {}" by (auto simp: waiting_def)
    ultimately show thesis by (intro that [of s m]) (auto simp: will_arm_def)
  qed
  note S = watched_sourceD [OF W(1)]
  have ok: "reactor_ok E items r" and cp: "calm (poller r)" using S(1) by (simp_all add: steady_def)
  note slab = reactor_ok_parts(3) [OF ok]
  have fok: "future_ok E f d s" using W(6) slab by (auto simp: future_ok_def ready_waits_def source_ready_def)
  from ok S(3) fok show ?thesis
  proof (cases rule: poll_future_cases [where cx = me])
    case (1 res f' s' p r')
    from fok show ?thesis
    proof (cases rule: ready_poll_cases [where cx = me and r = r])
      case fresh
      with W(2,6) show ?thesis by (auto simp: source_ready_def ready_waits_def)
    next
      case (stored res1 r1 s1 f1 i sl)
      with 1(1) have eqs: "res1 = res" "f1 = f'" "s1 = s'" "r1 = r\<lparr>poller := p\<rparr>" by auto
      note P = stored [unfolded eqs]
      have f': "f' = ready_waits d T b i" using W(2,3,6) P(4,5) by (auto simp: ready_waits_def source_ready_def)
      have own: "sl_get (wslab E) i (wakers (src_state s' d)) = Some (Some me)" using P(2,3) by simp
      have w: "waiting E (src_state s' d) \<noteq> {}" using own by (auto simp: waiting_def)
      have same: "registration s' = g" "src_key s' = k" "tick (src_state s' d) = b" using P(2) S(4,5) W(2) by simp_all
      have up: "res = Poll_Pending \<and> calm p \<and> armed p \<and> left p \<le> left (poller r)"
      proof (cases "waiting E (src_state s d) = {}")
        case True
        obtain mres q where M: "reg_modify (reg_calls E) g (interest_event E s') (poller r) = (mres, q)" by force
        have e: "ev_key (interest_event E s') = k" "emitted (interest_event E s') d"
          using same(2) w slab by (cases d; simp)+
        have "armed (snd (reg_modify (reg_calls E) g (interest_event E s') (poller r)))"
          using W(5) True e S(4,5) unfolding will_arm_def can_arm_def by simp
        with M have "armed q" by simp
        with M have q: "mres = Inr ()" "calm q" "armed q" "left q \<le> left (poller r)"
          using calm_pollerD(3) [OF calm cp S(6)] event_comesD(6) [OF comes S(6)] by blast+
        then have "update_interest E True s' r = (Poll_Pending, r\<lparr>poller := q\<rparr>)" using M same(1) by (simp add: update_interest_def)
        with P(10) True slab have "res = Poll_Pending" "p = q" by (auto dest: arg_cong [of "r\<lparr>poller := q\<rparr>" _ poller])
        with q show ?thesis by simp
      next
        case False
        with P(10) slab have "res = Poll_Pending" "p = poller r"
          by (auto simp: update_interest_def dest: arg_cong [of r _ poller])
        with False cp W(5) show ?thesis by (simp add: will_arm_def)
      qed
      have "watched_source E items G calm g k a r' s'"
        using 1(4,7) up same(1) S(4) by (intro watched_source_put [OF W(1) 1(3)]) simp_all
      then have "io_waits E items G calm g k d a armed left T b L me f' r'"
        unfolding io_waits_def using f' own up same(3) W(3,4) 1(3)
        by (intro exI [of _ s'] exI [of _ i] exI [of _ m]) (simp add: put_source_def)
      with 1(2,3) up show ?thesis by (simp add: put_source_def)
    qed
  qed
qed

text \<open>The future as \<open>block_on\<close> polls it: it owns a handle of the source, and reads no clock.\<close>

definition readiness_future :: "('p, 'sw, 'ss, 'q, 'reg) crates \<Rightarrow> addr \<Rightarrow>
    (ready_future, unit io_result, 'p, 'sw, 'ss, 'q, 'reg) future_ops" where
  "readiness_future E a = \<lparr>fut_poll = (\<lambda>_ _ cx f r. Some (rbind (poll_future E f cx a r) (\<lambda>(res, f', r'). Inr (res, f', r', 0)))),
     fut_drop = (\<lambda>f r. Some (drop_future E f a r))\<rparr>"

lemma poll_in_readiness:
  assumes "poll_future E f me a (wd_reactor w) = Inr (res, f', r')" "woken r' = woken (wd_reactor w)"
  shows "poll_in E sc (readiness_future E a) me f w = Some (Inr (res, f', w\<lparr>wd_reactor := r'\<rparr>))"
  using assms by (simp add: poll_in_def readiness_future_def no_new_wakes)

interpretation iw: awaited E sc me "readiness_future E a"
    "\<lambda>f w. brings E G calm g k d armed left sc T b L \<and> io_new E items G calm g k d a armed left T b L f (wd_reactor w)"
    "\<lambda>f w. brings E G calm g k d armed left sc T b L \<and> io_waits E items G calm g k d a armed left T b L me f (wd_reactor w)"
    "\<lambda>f w. brings E G calm g k d armed left sc T b L \<and> io_arrived E items G calm g k d a T b L f (wd_reactor w)"
    "\<lambda>_ w. left (poller (wd_reactor w))"
    "\<lambda>x f r _. x = Inr () \<and> io_arrived E items G calm g k d a T b L f r"
    for E items G calm g k d a armed left sc me T b L
proof (unfold_locales, goal_cases)
  case (1 w' w f)
  then show ?case by simp
next
  case (2 f w polling timeout)
  then show ?case using io_round [OF conjunct1 [OF 2] conjunct2 [OF 2], of polling timeout] by simp
next
  case (3 f w)
  show ?case
  proof (cases "io_arrived E items G calm g k d a T b L f (wd_reactor w)")
    case True
    from 3 io_poll_arrived [OF _ True, of armed left sc me] obtain r' where
      "poll_future E f me a (wd_reactor w) = Inr (Poll_Ready (Inr ()), f, r')" "woken r' = woken (wd_reactor w)"
      "io_arrived E items G calm g k d a T b L f r'" by blast
    with poll_in_readiness show ?thesis by (fastforce simp: later_def)
  next
    case False
    with 3 io_poll_pending [of E G calm g k d armed left sc T b L items a f "wd_reactor w" me] obtain f' r' where
      "poll_future E f me a (wd_reactor w) = Inr (Poll_Pending, f', r')" "woken r' = woken (wd_reactor w)"
      "io_waits E items G calm g k d a armed left T b L me f' r'" "left (poller r') \<le> left (poller (wd_reactor w))" by blast
    with poll_in_readiness 3 False show ?thesis by (fastforce simp: later_def)
  qed
qed

text \<open>A ticker that does not wrap around gives rounds that are newer than what the future remembers.\<close>

lemma newer_round:
  fixes T b :: usize
  assumes "b \<le> T" "unat T + Suc L < 2 ^ 64" "j \<in> {1..Suc L}"
  shows "T < T + of_nat j" "fresh_event (Some (T, b)) (T + of_nat j)"
proof -
  have "unat (T + of_nat j) = unat T + j" using assms(2,3) by (simp add: unat_word_ariths unat_of_nat)
  with assms(3) show "T < T + of_nat j" by (simp add: word_less_nat_alt)
  with assms(1) show "fresh_event (Some (T, b)) (T + of_nat j)" by auto
qed

section \<open>Properties\<close>

text \<open>
  C23. Waiting for I/O ends, and not before the event. However the threads share the lock and whoever
  reacts, \<open>block_on\<close> of a new readiness future of a registered source returns without error, if the
  poller refuses no change of interest and, while interest in the direction is registered, reports the event
  or brings it nearer at each wait. The poller works in one-shot mode: a wait that reports another event of the
  source, for its other direction say, may disarm the source and then reports nothing of it any more; that the
  event comes all the same is the work of the round, which registers the interest anew. The event is
  one of a round after the call: the tick of the direction is newer than the ticker was. The reactor stays
  well formed, the parker is left without notification, the flags are down, the counter is what it was and
  the "async-io" thread is told. The source is the only one with its registration, and the ticker must
  not wrap around during the wait.
\<close>

theorem block_on_readiness_returns:
  assumes "event_comes E G calm (registration s) (src_key s) d armed left" "steady E items G calm (wd_reactor w)" "clock_ok sc"
    and "live E (wd_reactor w) a s" "sole_source E (registration s) (src_key s) (wd_reactor w) s"
    and "will_arm E d armed s (poller (wd_reactor w))"
    and "tick (src_state s d) \<le> ticker (wd_reactor w)" "unat (ticker (wd_reactor w)) + Suc (left (poller (wd_reactor w))) < 2 ^ 64"
    and "\<not> wd_polling w" "\<not> wd_blocked w"
  shows "\<exists>w' s'. block_on E sc (readiness_future E a) me (source_ready d) w = Some (Inr (Inr (), w')) \<and>
    live E (wd_reactor w') a s' \<and> registration s' = registration s \<and> ticker (wd_reactor w) < tick (src_state s' d) \<and>
    steady E items G calm (wd_reactor w') \<and> \<not> wd_token w' \<and> \<not> wd_polling w' \<and> \<not> wd_blocked w' \<and>
    wd_block_ons w' = wd_block_ons w \<and> wd_main_token w'"
proof -
  let ?r = "wd_reactor w" and ?w = "w\<lparr>wd_block_ons := wd_block_ons w + 1\<rparr>"
  define L g k T b where "L = left (poller ?r)" "g = registration s" "k = src_key s" "T = ticker ?r" "b = tick (src_state s d)"
  note defs = this
  note newer = newer_round [OF assms(7,8), folded defs]
  have H: "brings E G calm g k d armed left sc T b L" using assms(1,3) newer by (simp add: brings_def defs)
  have "io_new E items G calm g k d a armed left T b L (source_ready d) ?r"
    using assms(2,4,5,6) by (auto simp: io_new_def watched_source_def live_def defs)
  with iw.loop_returns [of E G calm g k d armed left sc T b L items a "source_ready d" ?w me] H assms(9,10) obtain f w1 where
    L: "block_on_loop E sc (readiness_future E a) me (source_ready d) ?w = Some (Inr (Inr (), f, w1))" "later ?w w1" "\<not> wd_token w1"
      "io_arrived E items G calm g k d a T b L f (wd_reactor w1)" by auto
  from L(4) obtain s1 j where W: "watched_source E items G calm g k a (wd_reactor w1) s1" "j \<in> {1..Suc L}"
    "tick (src_state s1 d) = T + of_nat j" by (auto simp: io_arrived_def)
  note S = watched_sourceD [OF W(1)]
  have ok: "reactor_ok E items (wd_reactor w1)" "calm (poller (wd_reactor w1))" using S(1) by (simp_all add: steady_def)
  from ok(1) S(3) obtain s' r' where D: "drop_future E f a (wd_reactor w1) = Inr r'" "r' = put_source a s' (wd_reactor w1)"
    "reactor_ok E items r'" "live E r' a s'" "source_at E r' = (source_at E (wd_reactor w1))(k \<mapsto> s')" "registration s' = g"
    "tick (src_state s' d) = T + of_nat j" using W(3) S(4,5) by (cases rule: drop_future_cases [where f = f]) auto
  have "watched_source E items G calm g k a r' s'"
    using watched_source_put [OF W(1) _ D(3) ok(2) D(5,6)] D(2) by simp
  moreover have "woken r' = woken (wd_reactor w1)" using D(2) by (simp add: put_source_def)
  moreover have "T < tick (src_state s' d)" using D(7) newer(1) W(2) by simp
  ultimately show ?thesis using L(1-3) D(1,4,6) assms(9,10) watched_sourceD(1)
    by (intro exI [of _ "w1\<lparr>wd_reactor := r', wd_block_ons := wd_block_ons w1 - 1, wd_main_token := True\<rparr>"] exI [of _ s'])
      (auto simp: block_on_def no_new_wakes readiness_future_def later_def defs)
qed

text \<open>
  A poller in one-shot mode: the descriptor 3 becomes ready as the script says, and a wait reports of that what
  the registered interest asks for, if anything, and then disarms the descriptor.
\<close>

definition sim_mask :: "event \<Rightarrow> event \<Rightarrow> event option" where
  "sim_mask i ev = (if ev_key ev = ev_key i \<and> (ev_readable i \<and> ev_readable ev \<or> ev_writable i \<and> ev_writable ev)
     then Some \<lparr>ev_key = ev_key i, ev_readable = (ev_readable i \<and> ev_readable ev), ev_writable = (ev_writable i \<and> ev_writable ev)\<rparr>
     else None)"

definition sim_reports :: "sim_poller \<Rightarrow> event list \<Rightarrow> event list" where
  "sim_reports p new = (case sp_watched p 3 of None \<Rightarrow> [] | Some i \<Rightarrow> List.map_filter (sim_mask i) new)"

definition oneshot_wait :: "event list \<Rightarrow> duration option \<Rightarrow> sim_poller \<Rightarrow> nat io_result \<times> event list \<times> sim_poller" where
  "oneshot_wait evs t p = (case sp_script p of
       [] \<Rightarrow> (Inr 0, evs, p)
     | Inl e # rest \<Rightarrow> (Inl e, evs, p\<lparr>sp_script := rest\<rparr>)
     | Inr new # rest \<Rightarrow> (Inr (length (sim_reports p new)), evs @ sim_reports p new,
         p\<lparr>sp_script := rest, sp_watched := sim_disarm (sim_reports p new) (sp_watched p)\<rparr>))"

definition oneshot :: "(sim_poller, sim_sw, sim_ss, timer_op list, registration_unix) crates" where
  "oneshot = sim\<lparr>poll_calls := sim_polling\<lparr>po_wait := oneshot_wait\<rparr>\<rparr>"

lemma oneshot_simps [simp]:
  "will_wake oneshot = (=)" "wslab oneshot = sim_slab" "sslab oneshot = sim_slab" "queue oneshot = sim_queue"
  "reg_calls oneshot = unix_registration sim_fd_calls" "on_espidf oneshot = False"
  "po_wait (poll_calls oneshot) = oneshot_wait" "po_notify (poll_calls oneshot) = po_notify sim_polling"
  by (simp_all add: oneshot_def)

lemma oneshot_ok [simp, intro]: "crates_ok oneshot id"
  by (auto simp: crates_ok_def poller_ok_def sim_polling_def oneshot_wait_def split: list.splits sum.splits)

text \<open>It will become readable, and is registered for that.\<close>

definition sim_coming :: "sim_poller \<Rightarrow> bool" where
  "sim_coming p \<longleftrightarrow> sim_calm p \<and> (\<exists>evs. Inr evs \<in> set (sp_script p) \<and> READ \<in> emitted_dirs evs 0)"

definition sim_armed :: "sim_poller \<Rightarrow> bool" where
  "sim_armed p \<longleftrightarrow> sim_coming p \<and> (\<exists>e. sp_watched p 3 = Some e \<and> ev_key e = 0 \<and> ev_readable e)"

lemma sim_can_arm: "can_arm oneshot (unix_new 3) 0 READ sim_armed p \<longleftrightarrow> sim_coming p" if "sim_calm p"
proof -
  have step: "sim_armed (snd (reg_modify (reg_calls oneshot) (unix_new 3) e p)) \<longleftrightarrow> sim_coming p \<and> ev_key e = 0 \<and> ev_readable e" for e
    using that by (auto simp: sim_armed_def sim_coming_def sim_calm_def unix_registration_defs unix_new_def
      sim_fd_calls_def sim_set_def Let_def split: list.splits option.splits)
  have "ev_key ev_read = 0 \<and> ev_readable ev_read" by (simp add: ev_read_def)
  then show ?thesis unfolding can_arm_def step by auto
qed

lemma oneshot_calm_poller: "calm_poller oneshot {unix_new 3} sim_calm"
  by (auto simp: calm_poller_def sim_calm_def sim_polling_def oneshot_wait_def sim_disarm_def unix_registration_defs
    unix_new_def sim_fd_calls_def sim_set_def split: list.splits sum.splits)

lemma sim_reports_read:
  assumes "sp_watched p 3 = Some e" "ev_key e = 0" "ev_readable e" "READ \<in> emitted_dirs evs 0"
  shows "READ \<in> emitted_dirs (sim_reports p evs) 0"
proof -
  from assms(4) obtain ev where "ev \<in> set evs" "ev_key ev = 0" "ev_readable ev" by (auto simp: emitted_dirs_def)
  with assms(1-3) show ?thesis
    by (auto simp: emitted_dirs_def sim_reports_def List.map_filter_def sim_mask_def image_iff intro!: bexI [of _ ev])
qed

lemma oneshot_wait_coming:
  assumes a: "sim_armed p" and wait: "oneshot_wait [] t p = (res, evs, p')"
  shows "(\<exists>n. res = Inr n) \<and> READ \<in> emitted_dirs evs 0 \<or> length (sp_script p') < length (sp_script p) \<and>
    (sim_armed p' \<or> (\<exists>n. res = Inr n) \<and> 0 \<in> ev_key ` set evs \<and> can_arm oneshot (unix_new 3) 0 READ sim_armed p')"
proof (cases "sp_script p")
  case Nil
  with a show ?thesis by (simp add: sim_armed_def sim_coming_def)
next
  case (Cons x rest)
  from a obtain e where e: "sp_watched p 3 = Some e" "ev_key e = 0" "ev_readable e" by (auto simp: sim_armed_def)
  show ?thesis
  proof (cases x)
    case (Inl err)
    with Cons a wait show ?thesis by (auto simp: oneshot_wait_def sim_armed_def sim_coming_def sim_calm_def)
  next
    case (Inr new)
    with Cons wait have w: "res = Inr (length (sim_reports p new))" "evs = sim_reports p new"
      "p' = p\<lparr>sp_script := rest, sp_watched := sim_disarm (sim_reports p new) (sp_watched p)\<rparr>" by (auto simp: oneshot_wait_def)
    show ?thesis
    proof (cases "READ \<in> emitted_dirs new 0")
      case True
      with sim_reports_read [OF e] w show ?thesis by simp
    next
      case False
      with a Cons Inr w(3) have c: "sim_coming p'" by (auto simp: sim_armed_def sim_coming_def sim_calm_def sim_disarm_def)
      show ?thesis
      proof (cases "0 \<in> ev_key ` set evs")
        case True
        with c w Cons sim_can_arm [of p'] show ?thesis by (auto simp: sim_coming_def)
      next
        case False
        with w(2,3) e have "sp_watched p' 3 = Some e" by (auto simp: sim_disarm_def list_ex_iff image_iff)
        with c e w(3) Cons show ?thesis by (simp add: sim_armed_def)
      qed
    qed
  qed
qed

lemma oneshot_event_comes: "event_comes oneshot {unix_new 3} sim_calm (unix_new 3) 0 READ sim_armed (length \<circ> sp_script)"
  unfolding event_comes_def
proof (intro conjI allI impI)
  show "calm_poller oneshot {unix_new 3} sim_calm" by (rule oneshot_calm_poller)
next
  fix p assume "sim_armed p"
  then show "can_arm oneshot (unix_new 3) 0 READ sim_armed p" by (subst sim_can_arm) (auto simp: sim_armed_def sim_coming_def)
next
  fix p t res evs p' assume "sim_armed p" "po_wait (poll_calls oneshot) [] t p = (res, evs, p')"
  with oneshot_wait_coming [of p t res evs p']
  show "(\<exists>n. res = Inr n) \<and> READ \<in> emitted_dirs evs 0 \<or> (length \<circ> sp_script) p' < (length \<circ> sp_script) p \<and>
    (sim_armed p' \<or> (\<exists>n. res = Inr n) \<and> 0 \<in> ev_key ` set evs \<and> can_arm oneshot (unix_new 3) 0 READ sim_armed p')"
    by simp
qed (auto simp: sim_armed_def sim_coming_def sim_calm_def sim_polling_def unix_registration_defs unix_new_def sim_fd_calls_def
    sim_set_def Let_def split: list.splits option.splits)

text \<open>
  Another task waits for the descriptor to be writable, which it will be first. The poller then disarms it, and
  the round has to register the interest of the thread anew.
\<close>

definition source3_writer :: "(sim_sw, registration_unix) source" where
  "source3_writer = set_dir WRITE \<lparr>tick = 0, ticks = Some (0, 0), dwaker = Some 7, wakers = []\<rparr> source3"

definition oneshot_world :: "(sim_poller, sim_sw, sim_ss, timer_op list, registration_unix) world" where
  "oneshot_world = sim_world\<lparr>wd_reactor := run_opened\<lparr>heap := [0 \<mapsto> source3_writer],
     poller := (poller run_opened)\<lparr>sp_watched := [3 \<mapsto> \<lparr>ev_key = 0, ev_readable = False, ev_writable = True\<rparr>],
       sp_script := [Inr [\<lparr>ev_key = 0, ev_readable = False, ev_writable = True\<rparr>], Inr [ev_read]]\<rparr>\<rparr>\<rparr>"

lemmas oneshot_world_defs = oneshot_world_def sim_world_def run_opened_simps source3_writer_def source3_def

lemma oneshot_world_at: "source_at oneshot (wd_reactor oneshot_world) k = (if k = 0 then Some source3_writer else None)"
  by (simp add: source_at_def oneshot_world_defs sim_get_def)

lemma oneshot_world_steady: "steady oneshot id {unix_new 3} sim_calm (wd_reactor oneshot_world)"
proof -
  have "slot_ok oneshot d source3_writer" for d
    by (cases d) (simp_all add: slot_ok_def source3_writer_def source3_def direction_default_def)
  then have "sources_ok oneshot (wd_reactor oneshot_world)"
    by (auto simp: sources_ok_def oneshot_world_def run_opened_simps sim_get_def source3_writer_def source3_def split: if_splits)
  then have "reactor_ok oneshot id (wd_reactor oneshot_world)"
    by (simp add: reactor_ok_def timers_ok_def oneshot_world_def run_opened_simps)
  then show ?thesis
    by (auto simp: steady_def oneshot_world_at source3_writer_def source3_def unix_new_def)
      (simp add: oneshot_world_def run_opened_simps sim_calm_def)
qed

theorem block_on_readiness_returns_witness:
  "\<exists>w' s'. block_on oneshot sim_schedule (readiness_future oneshot 0) 8 (source_ready READ) oneshot_world = Some (Inr (Inr (), w')) \<and>
    live oneshot (wd_reactor w') 0 s' \<and> 0 < tick (src_state s' READ)"
proof -
  have s: "registration source3_writer = unix_new 3" "src_key source3_writer = 0" "tick (src_state source3_writer READ) = 0"
    by (simp_all add: source3_writer_def source3_def unix_new_def direction_default_def)
  have "live oneshot (wd_reactor oneshot_world) 0 source3_writer"
    by (simp add: live_def oneshot_world_def run_opened_simps s sim_get_def)
  moreover have "sole_source oneshot (unix_new 3) 0 (wd_reactor oneshot_world) source3_writer"
    by (simp add: sole_source_def oneshot_world_at s)
  moreover have "waiting oneshot (src_state source3_writer READ) = {}"
    by (auto simp: waiting_def source3_writer_def source3_def direction_default_def sim_get_def)
  moreover have "sim_coming (poller (wd_reactor oneshot_world))"
    by (auto simp: sim_coming_def sim_calm_def oneshot_world_def run_opened_simps ev_read_def emitted_dirs_def)
  ultimately have will: "live oneshot (wd_reactor oneshot_world) 0 source3_writer"
    "sole_source oneshot (unix_new 3) 0 (wd_reactor oneshot_world) source3_writer"
    "will_arm oneshot READ sim_armed source3_writer (poller (wd_reactor oneshot_world))"
    using sim_can_arm [of "poller (wd_reactor oneshot_world)"] by (auto simp: will_arm_def s sim_coming_def)
  have z: "ticker (wd_reactor oneshot_world) = 0" "length (sp_script (poller (wd_reactor oneshot_world))) = 2"
    "\<not> wd_polling oneshot_world" "\<not> wd_blocked oneshot_world"
    by (simp_all add: oneshot_world_def sim_world_def run_opened_simps)
  show ?thesis
    using block_on_readiness_returns [OF _ oneshot_world_steady sim_schedule_ok will(1), of READ sim_armed "length \<circ> sp_script" 8]
      oneshot_event_comes will(2,3) z by (auto simp: s)
qed

end
