(* ===== verification/Block_On_Wakes.thy ===== *)
theory Block_On_Wakes
  imports Block_On_Properties
begin

text \<open>
  How often \<open>block_on\<close> polls its future. Every poll but the first is paid for by a notification of the
  parker, and a notification by a call of the thread's waker; several calls may share one, and the
  parker may hold one at the start.
\<close>

section \<open>Keeping the books\<close>

text \<open>The calls of the thread's waker so far.\<close>

definition calls :: "('p, 'sw, 'ss, 'q, 'reg) crates \<Rightarrow> waker \<Rightarrow> ('p, 'sw, 'ss, 'q, 'reg) world \<Rightarrow> nat" where
  "calls E me w = length (filter (\<lambda>v. wakes_task E v me) (woken (wd_reactor w)))"

text \<open>From \<open>w\<close> to \<open>w'\<close> the thread uses up \<open>n\<close> notifications: no more than there were and have been added.\<close>

definition ledger :: "('p, 'sw, 'ss, 'q, 'reg) crates \<Rightarrow> waker \<Rightarrow> ('p, 'sw, 'ss, 'q, 'reg) world \<Rightarrow> nat \<Rightarrow>
    ('p, 'sw, 'ss, 'q, 'reg) world \<Rightarrow> bool" where
  "ledger E me w n w' \<longleftrightarrow> calls E me w + n + of_bool (wd_token w') \<le> calls E me w' + of_bool (wd_token w)"

lemma ledger_trans: "ledger E me w m w1 \<Longrightarrow> ledger E me w1 n w2 \<Longrightarrow> ledger E me w (m + n) w2"
  by (simp add: ledger_def)

lemma ledger_take [simp]: "wd_token w \<Longrightarrow> ledger E me w 1 (w\<lparr>wd_token := False\<rparr>)"
  by (simp add: ledger_def calls_def)

lemma ledger_same:
  assumes "wd_reactor w1 = wd_reactor w" "wd_token w1 = wd_token w" "wd_reactor w2 = wd_reactor w'" "wd_token w2 = wd_token w'"
  shows "ledger E me w1 n w2 \<longleftrightarrow> ledger E me w n w'"
  using assms by (simp add: ledger_def calls_def)

text \<open>Rounds only add to the history of wakes.\<close>

lemma deliver_events_frame: "deliver_events E tk evs ws r = (res, ws', r') \<Longrightarrow> woken r' = woken r"
  by (induction E tk evs ws r rule: deliver_events.induct)
    (fastforce simp: Let_def split: option.splits prod.splits sum.splits if_splits)+

lemma react_appends:
  assumes "react E now now' timeout r = Inr (out, r')"
  shows "\<exists>ws. woken r' = woken r @ ws"
proof -
  obtain t tk ws r1 where P: "react_prepare E now timeout r = Inr (t, tk, ws, r1)"
    using assms by (auto simp: react_def rbind_eq_Inr_iff)
  obtain res r2 where W: "react_wait E t r1 = (res, r2)" by force
  have "woken r1 = woken r" using P by (auto simp: react_prepare_def rbind_eq_Inr_iff dest: process_timers_frame)
  moreover have "woken r2 = woken r1" using W by (auto simp: react_wait_def split: prod.splits)
  moreover have "react_finish E now' t tk ws res r2 = Inr (out, r')" using assms P W by (simp add: react_def)
  then have "\<exists>ws. woken r' = woken r2 @ ws"
    by (auto simp: react_finish_def wake_all_def rbind_eq_Inr_iff
        dest: process_timers_frame deliver_events_frame split: sum.splits if_splits prod.splits)
  ultimately show ?thesis by simp
qed

lemma ledger_wake:
  assumes "wake_thread E me polling ws w1 = Inr w'" "woken (wd_reactor w1) = woken (wd_reactor w) @ ws" "wd_token w1 = wd_token w"
  shows "ledger E me w 0 w'"
proof -
  have "woken (wd_reactor w') = woken (wd_reactor w1)"
    using assms(1) by (auto simp: wake_thread_def reactor_notify_def rbind_eq_Inr_iff split: if_splits sum.splits prod.splits)
  moreover have "wd_token w' \<Longrightarrow> wd_token w \<or> filter (\<lambda>v. wakes_task E v me) ws \<noteq> []"
    using assms(1,3) by (auto simp: wake_thread_def filter_empty_conv split: if_splits)
  ultimately show ?thesis using assms(2) by (cases "wd_token w'") (auto simp: ledger_def calls_def Suc_le_eq)
qed

lemma ledger_round:
  assumes "round_by E sc me polling timeout w = Inr w'"
  shows "ledger E me w 0 w'"
proof -
  obtain out r where R: "react E (sc_clock sc (wd_now w)) (sc_clock sc (wd_now w + 1)) timeout (wd_reactor w) = Inr (out, r)"
    "wake_thread E me polling (new_wakes (wd_reactor w) r) (w\<lparr>wd_reactor := r, wd_now := wd_now w + 2\<rparr>) = Inr w'"
    using assms by (auto simp: round_by_def rbind_eq_Inr_iff)
  from react_appends [OF R(1)] show ?thesis by (intro ledger_wake [OF R(2)]) (auto simp: new_wakes_def)
qed

lemma ledger_park_all: "park_thread E sc me w = Some y \<Longrightarrow> y = Inr w' \<Longrightarrow> ledger E me w 1 w'"
proof (induction arbitrary: w' rule: park_thread.raw_induct [rotated, consumes 1, case_names step])
  case (step f E sc me w y)
  show ?case
  proof (cases "wd_token w")
    case True
    with step(2,3) have "w' = w\<lparr>wd_token := False\<rparr>" by simp
    with ledger_take [OF True] show ?thesis by simp
  next
    case False
    with step(2,3) obtain w1 where R: "round_by E sc me (sc_polling sc (wd_now w)) (sc_timeout sc (wd_now w)) w = Inr w1"
      "f E sc me w1 = Some y" by (auto split: sum.splits)
    from ledger_trans [OF ledger_round [OF R(1)] step(1) [OF R(2) step(3)]] show ?thesis by simp
  qed
qed

lemma ledger_wait_all: "wait_io E sc me start w = Some y \<Longrightarrow> y = Inr w' \<Longrightarrow> ledger E me w 1 w'"
proof (induction arbitrary: w' rule: wait_io.raw_induct [rotated, consumes 1, case_names step])
  case (step f E sc me start w y)
  have same: "ledger E me w1 1 w2 \<Longrightarrow> ledger E me w 1 w2" if "round_by E sc me True None (set_blocked True w) = Inr w1" for w1 w2
    using ledger_trans [OF ledger_round [OF that], of 1 w2]
      ledger_same [of "set_blocked True w" w w2 w2 E me 1] by (simp add: set_blocked_def)
  from step(2) [unfolded step(3)] show ?case
  proof (cases rule: wait_body_cases)
    case notified
    with ledger_take [of w E me] show ?thesis by (simp add: ledger_def calls_def set_blocked_def)
  next
    case (woken w1)
    with ledger_take [of w1 E me] show ?thesis by (intro same [OF woken(2)]) (simp add: ledger_def calls_def set_blocked_def)
  next
    case (gave_up w1 w2)
    from ledger_park_all [OF gave_up(4) refl] gave_up(5) show ?thesis
      by (intro same [OF gave_up(2)]) (simp add: ledger_def calls_def set_blocked_def)
  next
    case (looped w1)
    from step(1) [OF looped(4) refl] show ?thesis
      by (intro same [OF looped(2)]) (simp add: ledger_def calls_def set_blocked_def)
  qed
qed

lemma ledger_pending:
  assumes "after_pending E sc me w = Some (Inr w')"
  shows "ledger E me w 1 w'"
proof (cases "wd_token w")
  case True
  let ?w = "w\<lparr>wd_token := False, wd_polling := True\<rparr>"
  have t: "ledger E me w 1 ?w" using ledger_take [OF True] by (simp add: ledger_def calls_def)
  from assms True consider w1 where "round_by E sc me True (Some 0) ?w = Inr w1" "w' = w1\<lparr>wd_polling := False\<rparr>"
    | "w' = w\<lparr>wd_token := False\<rparr>" by (auto simp: after_pending_def rbind_eq_Inr_iff split: if_splits)
  then show ?thesis
  proof cases
    case 1
    with ledger_trans [OF t ledger_round [OF 1(1)]] show ?thesis by (simp add: ledger_def calls_def)
  qed (use ledger_take [OF True] in simp)
next
  case False
  with assms consider "wait_io E sc me (sc_clock sc (wd_now w)) (w\<lparr>wd_now := wd_now w + 1\<rparr>) = Some (Inr w')"
    | "park_thread E sc me w = Some (Inr w')" by (auto simp: after_pending_def split: if_splits)
  then show ?thesis
  proof cases
    case 1
    with ledger_wait_all [OF 1 refl] show ?thesis by (simp add: ledger_def calls_def)
  qed (blast intro: ledger_park_all)
qed

section \<open>Counting polls\<close>

text \<open>A future with a count of its polls, and the futures that only add to the history of wakes.\<close>

definition counting :: "('f, 'a, 'p, 'sw, 'ss, 'q, 'reg) future_ops \<Rightarrow> ('f \<times> nat, 'a, 'p, 'sw, 'ss, 'q, 'reg) future_ops" where
  "counting F = \<lparr>fut_poll = (\<lambda>clk now cx (f, n) r. obind (fut_poll F clk now cx f r) (\<lambda>(res, f', r', k). Some (Inr (res, (f', n + 1), r', k)))),
     fut_drop = (\<lambda>(f, n) r. fut_drop F f r)\<rparr>"

definition appends_wakes :: "('f, 'a, 'p, 'sw, 'ss, 'q, 'reg) future_ops \<Rightarrow> bool" where
  "appends_wakes F \<longleftrightarrow> (\<forall>clk now cx f r res f' r' k. fut_poll F clk now cx f r = Some (Inr (res, f', r', k)) \<longrightarrow>
     (\<exists>ws. woken r' = woken r @ ws))"

lemma ledger_poll:
  assumes "appends_wakes F" "poll_in E sc (counting F) me (f, n) w = Some (Inr (res, f', w'))"
  shows "snd f' = n + 1 \<and> ledger E me w 0 w'"
proof -
  obtain g r k where P: "fut_poll F (sc_clock sc) (wd_now w) me f (wd_reactor w) = Some (Inr (res, g, r, k))" "f' = (g, n + 1)"
    "wake_thread E me (wd_polling w) (new_wakes (wd_reactor w) r) (w\<lparr>wd_reactor := r, wd_now := wd_now w + k\<rparr>) = Inr w'"
    using assms(2) by (auto simp: poll_in_def counting_def obind_eq_Some_Inr rbind_eq_Inr_iff)
  then obtain ws where "woken r = woken (wd_reactor w) @ ws" using assms(1) unfolding appends_wakes_def by blast
  with P(2) show ?thesis by (auto simp: new_wakes_def intro!: ledger_wake [OF P(3)])
qed

lemma ledger_loop_all:
  "block_on_loop E sc F' me f w = Some y \<Longrightarrow> F' = counting F \<Longrightarrow> appends_wakes F \<Longrightarrow> y = Inr (x, f', w') \<Longrightarrow>
     snd f < snd f' \<and> ledger E me w (snd f' - snd f - 1) w'"
proof (induction arbitrary: x f' w' rule: block_on_loop.raw_induct [rotated, consumes 1, case_names step])
  case (step loop E sc F' me f w y)
  obtain g n where f: "f = (g, n)" by force
  from step(2,5) obtain res f1 w1 where P: "poll_in E sc F' me f w = Some (Inr (res, f1, w1))"
    by (auto split: option.splits sum.splits)
  from ledger_poll [OF step(4) P [unfolded step(3) f]] have L: "snd f1 = Suc n" "ledger E me w 0 w1" by simp_all
  show ?case
  proof (cases res)
    case (Poll_Ready z)
    with step(2,5) P have "f' = f1" "w' = w1\<lparr>wd_token := False\<rparr>" by auto
    then show ?thesis using L f by (simp add: ledger_def calls_def)
  next
    case Poll_Pending
    with step(2,5) P obtain w2 where A: "after_pending E sc me w1 = Some (Inr w2)" "loop E sc F' me f1 w2 = Some y"
      by (auto split: option.splits sum.splits)
    from step(1) [OF A(2) step(3-5)] L have later: "Suc n < snd f'" "ledger E me w2 (snd f' - Suc n - 1) w'" by simp_all
    from ledger_trans [OF ledger_trans [OF L(2) ledger_pending [OF A(1)]] later(2)] later(1) f show ?thesis by (simp add: Suc_diff_Suc)
  qed
qed

section \<open>Properties\<close>

text \<open>
  C24. \<open>block_on\<close> does not poll in vain. Whatever the future and the schedule, when it returns it has
  polled the future at least once, and at most once more than its waker has been called since the
  start, not counting a notification that the parker held before.
\<close>

theorem polls_are_paid_for:
  assumes "appends_wakes F" "block_on_loop E sc (counting F) me (f, 0) w = Some (Inr (x, (f', n), w'))"
  shows "0 < n \<and> n \<le> 1 + of_bool (wd_token w) +
    (length (filter (\<lambda>v. wakes_task E v me) (woken (wd_reactor w'))) - length (filter (\<lambda>v. wakes_task E v me) (woken (wd_reactor w))))"
  using ledger_loop_all [OF assms(2) refl assms(1) refl] by (auto simp: ledger_def calls_def split: if_splits)

text \<open>A future that wakes its task once and is ready at the next poll, while another thread has the lock.\<close>

definition yield_future :: "(bool, nat, sim_poller, sim_sw, sim_ss, timer_op list, registration_unix) future_ops" where
  "yield_future = \<lparr>fut_poll = (\<lambda>clk n cx f r. Some (Inr (if f then (Poll_Ready 5, f, r, 0) else (Poll_Pending, True, wake_all [cx] r, 0)))),
     fut_drop = (\<lambda>_ r. Some (Inr r))\<rparr>"

definition sim_locked :: schedule where
  "sim_locked = sim_schedule\<lparr>sc_free := \<lambda>_. False\<rparr>"

definition yield_world :: "(sim_poller, sim_sw, sim_ss, timer_op list, registration_unix) world" where
  "yield_world = sim_world\<lparr>wd_token := False\<rparr>"

lemma yield_first: "poll_in sim sim_locked (counting yield_future) 8 (False, 0) yield_world =
    Some (Inr (Poll_Pending, (True, Suc 0), yield_world\<lparr>wd_reactor := wake_all [8] run_future, wd_token := True\<rparr>))"
  by (simp add: poll_in_def counting_def yield_future_def yield_world_def sim_world_def wake_all_def new_wakes_def
    wake_thread_def wakes_task_def)

lemma yield_second: "poll_in sim sim_locked (counting yield_future) 8 (True, Suc 0) (yield_world\<lparr>wd_reactor := wake_all [8] run_future\<rparr>) =
    Some (Inr (Poll_Ready 5, (True, 2), yield_world\<lparr>wd_reactor := wake_all [8] run_future\<rparr>))"
  by (simp add: poll_in_def counting_def yield_future_def yield_world_def sim_world_def wake_all_def new_wakes_def wake_thread_def)

lemma yield_loop: "block_on_loop sim sim_locked (counting yield_future) 8 (False, 0) yield_world =
    Some (Inr (5, (True, 2), yield_world\<lparr>wd_reactor := wake_all [8] run_future\<rparr>))"
proof -
  let ?w = "yield_world\<lparr>wd_reactor := wake_all [8] run_future\<rparr>"
  have pend: "after_pending sim sim_locked 8 (yield_world\<lparr>wd_reactor := wake_all [8] run_future, wd_token := True\<rparr>) = Some (Inr ?w)"
    by (simp add: after_pending_def sim_locked_def yield_world_def)
  have same: "?w\<lparr>wd_token := False\<rparr> = ?w" by (simp add: yield_world_def)
  have "block_on_loop sim sim_locked (counting yield_future) 8 (True, Suc 0) ?w = Some (Inr (5, (True, 2), ?w\<lparr>wd_token := False\<rparr>))"
    by (subst block_on_loop.simps) (simp add: yield_second)
  then show ?thesis by (subst block_on_loop.simps) (simp only: yield_first pend same option.case sum.case poll.case prod.case)
qed

theorem polls_are_paid_for_witness:
  "(2 :: nat) \<le> 1 + (length (filter (\<lambda>v. wakes_task sim v 8) (woken (wake_all [8] run_future))) - length (filter (\<lambda>v. wakes_task sim v 8) (woken run_future)))"
proof -
  have "appends_wakes yield_future" by (auto simp: appends_wakes_def yield_future_def wake_all_def)
  from polls_are_paid_for [OF this yield_loop] show ?thesis by (simp add: yield_world_def sim_world_def)
qed

end
