(* ===== verification/Block_On_Steps.thy ===== *)
theory Block_On_Steps
  imports Block_On_Wakes
begin

text \<open>
  The functions of \<open>Block_On\<close> against the step relation of \<open>Driver\<close>: whatever \<open>block_on\<close> computes, the
  steps can do, with the other threads' steps where the schedule says so.
\<close>

section \<open>What a state shows of the thread\<close>

definition appears :: "bo_pc \<Rightarrow> bo_lock \<Rightarrow> ('p, 'sw, 'ss, 'q, 'reg) world \<Rightarrow> bo \<Rightarrow> bool" where
  "appears c l w s \<longleftrightarrow> bo_pc s = c \<and> bo_lock s = l \<and> bo_token s = wd_token w \<and> bo_io_polling s = wd_polling w \<and>
     bo_io_blocked s = wd_blocked w \<and> bo_count s = wd_block_ons w \<and> bo_main_token s = wd_main_token w \<and>
     bo_wakers s = (\<lambda>_. Wake_Idle)"

definition leads :: "bo_pc \<Rightarrow> bo_lock \<Rightarrow> ('p, 'sw, 'ss, 'q, 'reg) world \<Rightarrow>
    bo_pc \<Rightarrow> bo_lock \<Rightarrow> ('p, 'sw, 'ss, 'q, 'reg) world \<Rightarrow> bool" where
  "leads c l w c' l' w' \<longleftrightarrow> (\<forall>s. appears c l w s \<longrightarrow> (\<exists>s'. bo_step\<^sup>*\<^sup>* s s' \<and> appears c' l' w' s'))"

lemma leads_refl: "leads c l w c l w"
  by (auto simp: leads_def)

lemma leads_trans [trans]: "leads c l w c1 l1 w1 \<Longrightarrow> leads c1 l1 w1 c2 l2 w2 \<Longrightarrow> leads c l w c2 l2 w2"
  unfolding leads_def by (meson rtranclp_trans)

lemma leads_self: "(\<And>s. appears c l w s \<Longrightarrow> \<exists>s'. bo_self s s' \<and> appears c' l' w' s') \<Longrightarrow> leads c l w c' l' w'"
  unfolding leads_def by (meson r_into_rtranclp step_self)

lemma leads_other: "(\<And>s. appears c l w s \<Longrightarrow> \<exists>s'. bo_other s s' \<and> appears c' l' w' s') \<Longrightarrow> leads c l w c' l' w'"
  unfolding leads_def by (meson r_into_rtranclp step_other)

lemma leads_wake: "(\<And>s. appears c l w s \<Longrightarrow> \<exists>s'. (bo_wake\<^sup>*\<^sup>* s s') \<and> appears c' l' w' s') \<Longrightarrow> leads c l w c' l' w'"
  unfolding leads_def using rtranclp_mono [of bo_wake bo_step] step_wake by blast

text \<open>Readings of the clock and the reactor are not in the abstract state.\<close>

lemma leads_cong:
  assumes "wd_token w' = wd_token w" "wd_polling w' = wd_polling w" "wd_blocked w' = wd_blocked w"
    "wd_block_ons w' = wd_block_ons w" "wd_main_token w' = wd_main_token w"
  shows "leads c l w c l w'"
  using assms by (auto simp: leads_def appears_def)

section \<open>One step each\<close>

lemma leads_enter: "leads At_Enter l w At_Start l (w\<lparr>wd_block_ons := wd_block_ons w + 1\<rparr>)"
  by (rule leads_self, rule exI, rule conjI, rule bo_enter) (auto simp: appears_def)

lemma leads_poll: "leads At_Start l w At_Polling l w"
  by (rule leads_self, rule exI, rule conjI, rule bo_poll) (auto simp: appears_def)

lemma leads_wake_self: "leads At_Polling l w At_Polling l (w\<lparr>wd_token := True\<rparr>)"
  by (rule leads_self, rule exI, rule conjI, rule bo_wake_self) (auto simp: appears_def)

lemma leads_ready: "leads At_Polling l w At_Leave l (w\<lparr>wd_token := False\<rparr>)"
  by (rule leads_self, rule exI, rule conjI, rule bo_ready) (auto simp: appears_def)

lemma leads_pending: "leads At_Polling l w At_Check l w"
  by (rule leads_self, rule exI, rule conjI, rule bo_pending) (auto simp: appears_def)

lemma leads_check_yes: "wd_token w \<Longrightarrow> leads At_Check l w At_Try_React l (w\<lparr>wd_token := False\<rparr>)"
  by (rule leads_self, rule exI, rule conjI, rule bo_check_yes) (auto simp: appears_def)

lemma leads_check_no: "\<not> wd_token w \<Longrightarrow> leads At_Check l w At_Try_Lock l w"
  by (rule leads_self, rule exI, rule conjI, rule bo_check_no) (auto simp: appears_def)

lemma leads_try_react_yes: "leads At_Try_React Lock_Free w At_React Lock_Mine (w\<lparr>wd_polling := True\<rparr>)"
  by (rule leads_self, rule exI, rule conjI, rule bo_try_react_yes) (auto simp: appears_def)

lemma leads_try_react_no: "leads At_Try_React Lock_Other w At_Start Lock_Other w"
  by (rule leads_self, rule exI, rule conjI, rule bo_try_react_no) (auto simp: appears_def)

lemma leads_react: "leads At_React l w At_Unlock l (w\<lparr>wd_polling := False, wd_token := wd_token w \<or> b\<rparr>)"
  by (rule leads_self, rule exI, rule conjI, rule bo_react [where b = b and n = True]) (auto simp: appears_def)

lemma leads_unlock: "leads At_Unlock l w At_Start Lock_Free w"
  by (rule leads_self, rule exI, rule conjI, rule bo_unlock) (auto simp: appears_def)

lemma leads_lock_yes: "leads At_Try_Lock Lock_Free w At_Set_Blocked Lock_Mine w"
  by (rule leads_self, rule exI, rule conjI, rule bo_lock_yes) (auto simp: appears_def)

lemma leads_lock_no: "leads At_Try_Lock Lock_Other w At_Park Lock_Other w"
  by (rule leads_self, rule exI, rule conjI, rule bo_lock_no) (auto simp: appears_def)

lemma leads_set_blocked: "leads At_Set_Blocked l w At_Check_Blocked l (set_blocked True w)"
  by (rule leads_self, rule exI, rule conjI, rule bo_set_blocked) (auto simp: appears_def set_blocked_def)

lemma leads_check_blocked_yes: "wd_token w \<Longrightarrow> leads At_Check_Blocked l w At_Unblock l (w\<lparr>wd_token := False\<rparr>)"
  by (rule leads_self, rule exI, rule conjI, rule bo_check_blocked_yes) (auto simp: appears_def)

lemma leads_check_blocked_no: "\<not> wd_token w \<Longrightarrow> leads At_Check_Blocked l w At_Wait l w"
  by (rule leads_self, rule exI, rule conjI, rule bo_check_blocked_no) (auto simp: appears_def)

lemma leads_waited: "leads At_Wait l w At_Check_Waited l (w\<lparr>wd_token := wd_token w \<or> b\<rparr>)"
  by (rule leads_self, rule exI, rule conjI, rule bo_waited [where b = b]) (auto simp: appears_def)

lemma leads_check_waited_yes: "wd_token w \<Longrightarrow> leads At_Check_Waited l w At_Unblock l (w\<lparr>wd_token := False\<rparr>)"
  by (rule leads_self, rule exI, rule conjI, rule bo_check_waited_yes) (auto simp: appears_def)

lemma leads_check_waited_no: "\<not> wd_token w \<Longrightarrow> leads At_Check_Waited l w At_Elapsed l w"
  by (rule leads_self, rule exI, rule conjI, rule bo_check_waited_no) (auto simp: appears_def)

lemma leads_elapsed_no: "leads At_Elapsed l w At_Rearm l w"
  by (rule leads_self, rule exI, rule conjI, rule bo_elapsed_no) (auto simp: appears_def)

lemma leads_rearm: "leads At_Rearm l w At_Set_Blocked l (set_blocked False w)"
  by (rule leads_self, rule exI, rule conjI, rule bo_rearm) (auto simp: appears_def set_blocked_def)

lemma leads_elapsed_yes: "leads At_Elapsed l w At_Unpark_Main Lock_Free w"
  by (rule leads_self, rule exI, rule conjI, rule bo_elapsed_yes) (auto simp: appears_def)

lemma leads_unpark_main: "leads At_Unpark_Main l w At_Park_Dropped l (w\<lparr>wd_main_token := True\<rparr>)"
  by (rule leads_self, rule exI, rule conjI, rule bo_unpark_main) (auto simp: appears_def)

lemma leads_park_dropped: "wd_token w \<Longrightarrow> leads At_Park_Dropped l w At_Unblock_Dropped l (w\<lparr>wd_token := False\<rparr>)"
  by (rule leads_self, rule exI, rule conjI, rule bo_park_dropped) (auto simp: appears_def)

lemma leads_unblock_dropped: "leads At_Unblock_Dropped l w At_Start l (set_blocked False w)"
  by (rule leads_self, rule exI, rule conjI, rule bo_unblock_dropped) (auto simp: appears_def set_blocked_def)

lemma leads_unblock: "leads At_Unblock l w At_Unlock l (set_blocked False w)"
  by (rule leads_self, rule exI, rule conjI, rule bo_unblock) (auto simp: appears_def set_blocked_def)

lemma leads_park: "wd_token w \<Longrightarrow> leads At_Park l w At_Start l (w\<lparr>wd_token := False\<rparr>)"
  by (rule leads_self, rule exI, rule conjI, rule bo_park) (auto simp: appears_def)

lemma leads_leave: "leads At_Leave l w At_Leave_Unpark l (w\<lparr>wd_block_ons := wd_block_ons w - 1\<rparr>)"
  by (rule leads_self, rule exI, rule conjI, rule bo_leave) (auto simp: appears_def)

lemma leads_leave_unpark: "leads At_Leave_Unpark l w At_Done l (w\<lparr>wd_main_token := True\<rparr>)"
  by (rule leads_self, rule exI, rule conjI, rule bo_leave_unpark) (auto simp: appears_def)

lemma leads_other_lock: "leads c Lock_Free w c Lock_Other w"
  by (rule leads_other, rule exI, rule conjI, rule other_lock) (auto simp: appears_def)

lemma leads_other_unlock: "leads c Lock_Other w c Lock_Free w"
  by (rule leads_other, rule exI, rule conjI, rule other_unlock) (auto simp: appears_def)

lemma leads_other_react: "leads c Lock_Other w c Lock_Other (w\<lparr>wd_token := True\<rparr>)"
  by (rule leads_other, rule exI, rule conjI, rule other_react [where b = True and n = True]) (auto simp: appears_def)

text \<open>\<open>wake_by_ref\<close> by a thread that does not poll I/O.\<close>

lemma leads_waker:
  assumes "\<not> wd_token w"
  shows "leads c l w c l (w\<lparr>wd_token := True\<rparr>)"
proof (rule leads_wake)
  fix s assume s: "appears c l w s"
  let ?a = "s\<lparr>bo_token := True, bo_woken := True, bo_wakers := (bo_wakers s)(0 := Wake_Check)\<rparr>"
  have first: "bo_wake s ?a" using s assms by (intro wake_first) (simp_all add: appears_def)
  show "\<exists>s'. bo_wake\<^sup>*\<^sup>* s s' \<and> appears c l (w\<lparr>wd_token := True\<rparr>) s'"
  proof (cases "bo_io_blocked s")
    case True
    have "bo_wake ?a (?a\<lparr>bo_wakers := (bo_wakers ?a)(0 := Wake_Notify)\<rparr>)" (is "bo_wake _ ?b")
      using True by (intro wake_blocked) simp_all
    moreover have "bo_wake ?b (?b\<lparr>bo_notified := True, bo_wakers := (bo_wakers ?b)(0 := Wake_Idle)\<rparr>)" (is "bo_wake _ ?c")
      by (intro wake_notify) simp
    ultimately have "bo_wake\<^sup>*\<^sup>* s ?c"
      by (rule rtranclp.rtrancl_into_rtrancl [OF rtranclp.rtrancl_into_rtrancl [OF r_into_rtranclp [of bo_wake, OF first]]])
    moreover have "appears c l (w\<lparr>wd_token := True\<rparr>) ?c" using s by (auto simp: appears_def)
    ultimately show ?thesis by blast
  next
    case False
    have "bo_wake ?a (?a\<lparr>bo_wakers := (bo_wakers ?a)(0 := Wake_Idle)\<rparr>)" (is "bo_wake _ ?b")
      using False by (intro wake_running) simp_all
    then have "bo_wake\<^sup>*\<^sup>* s ?b" by (rule rtranclp.rtrancl_into_rtrancl [OF r_into_rtranclp [of bo_wake, OF first]])
    moreover have "appears c l (w\<lparr>wd_token := True\<rparr>) ?b" using s by (auto simp: appears_def)
    ultimately show ?thesis by blast
  qed
qed

section \<open>Runs of the functions\<close>

text \<open>Waking the thread, and so a round, may set the notification and nothing else that the steps can see.\<close>

definition may_notify :: "('p, 'sw, 'ss, 'q, 'reg) world \<Rightarrow> ('p, 'sw, 'ss, 'q, 'reg) world \<Rightarrow> bool" where
  "may_notify w w' \<longleftrightarrow> (wd_token w \<longrightarrow> wd_token w') \<and> wd_polling w' = wd_polling w \<and> wd_blocked w' = wd_blocked w \<and>
     wd_block_ons w' = wd_block_ons w \<and> wd_main_token w' = wd_main_token w"

lemma wake_thread_notifies: "wake_thread E me polling ws w = Inr w' \<Longrightarrow> may_notify w w'"
  by (auto simp: wake_thread_def may_notify_def rbind_eq_Inr_iff split: if_splits)

lemma round_notifies: "round_by E sc me polling timeout w = Inr w' \<Longrightarrow> may_notify w w'"
  by (auto simp: round_by_def rbind_eq_Inr_iff may_notify_def dest!: wake_thread_notifies)

lemma may_notify_leads:
  assumes "may_notify w w'" "\<And>b. leads c l w c' l' (w\<lparr>wd_token := wd_token w \<or> b\<rparr>)"
  shows "leads c l w c' l' w'"
proof -
  have "leads c' l' (w\<lparr>wd_token := wd_token w \<or> wd_token w'\<rparr>) c' l' w'"
    using assms(1) by (intro leads_cong) (auto simp: may_notify_def)
  with assms(2) show ?thesis by (rule leads_trans)
qed

text \<open>A notification from outside, and one in a poll of the future.\<close>

lemma leads_notified: "may_notify w w' \<Longrightarrow> leads c l w c l w'"
proof (rule may_notify_leads)
  show "leads c l w c l (w\<lparr>wd_token := wd_token w \<or> b\<rparr>)" for b
  proof (cases "wd_token w \<or> \<not> b")
    case True
    then show ?thesis by (intro leads_cong) auto
  next
    case False
    with leads_waker [of w c l] show ?thesis by simp
  qed
qed

lemma leads_polled: "may_notify w w' \<Longrightarrow> leads At_Polling l w At_Polling l w'"
proof (rule may_notify_leads)
  show "leads At_Polling l w At_Polling l (w\<lparr>wd_token := wd_token w \<or> b\<rparr>)" for b
  proof (cases b)
    case True
    with leads_wake_self [of l w] show ?thesis by simp
  next
    case False
    then show ?thesis by (intro leads_cong) auto
  qed
qed

lemma leads_round_other:
  assumes "round_by E sc me polling timeout w = Inr w'"
  shows "leads c Lock_Other w c Lock_Other w'"
  using round_notifies [OF assms]
proof (rule may_notify_leads)
  show "leads c Lock_Other w c Lock_Other (w\<lparr>wd_token := wd_token w \<or> b\<rparr>)" for b
  proof (cases b)
    case True
    with leads_other_react [of c w] show ?thesis by simp
  next
    case False
    then show ?thesis by (intro leads_cong) auto
  qed
qed

text \<open>While the thread is parked, another one has the lock.\<close>

lemma park_leads:
  "park_thread E sc me w = Some y \<Longrightarrow> y = Inr w' \<Longrightarrow>
     \<exists>w1. leads c Lock_Other w c Lock_Other w1 \<and> wd_token w1 \<and> w' = w1\<lparr>wd_token := False\<rparr>"
proof (induction arbitrary: w' rule: park_thread.raw_induct [rotated, consumes 1, case_names step])
  case (step f E sc me w y)
  show ?case
  proof (cases "wd_token w")
    case True
    with step(2,3) show ?thesis by (intro exI [of _ w]) (simp add: leads_refl)
  next
    case False
    with step(2,3) obtain w1 where R: "round_by E sc me (sc_polling sc (wd_now w)) (sc_timeout sc (wd_now w)) w = Inr w1"
      "f E sc me w1 = Some y" by (auto split: sum.splits)
    from step(1) [OF R(2) step(3)] leads_trans [OF leads_round_other [OF R(1)]] show ?thesis by blast
  qed
qed

lemma unblock_leads: "leads At_Unblock Lock_Mine w At_Start Lock_Free (set_blocked False w)"
  by (rule leads_trans [OF leads_unblock leads_unlock])

lemma give_up_leads:
  assumes "park_thread E sc me (w\<lparr>wd_now := n, wd_main_token := True\<rparr>) = Some (Inr w2)"
  shows "leads At_Elapsed Lock_Mine w At_Start Lock_Free (set_blocked False w2)"
proof -
  let ?p = "w\<lparr>wd_now := n, wd_main_token := True\<rparr>"
  obtain w1 where P: "leads At_Park_Dropped Lock_Other ?p At_Park_Dropped Lock_Other w1" "wd_token w1" "w2 = w1\<lparr>wd_token := False\<rparr>"
    using park_leads [OF assms refl] by blast
  have "leads At_Elapsed Lock_Mine w At_Unpark_Main Lock_Free w" by (rule leads_elapsed_yes)
  also have "leads At_Unpark_Main Lock_Free w At_Park_Dropped Lock_Free (w\<lparr>wd_main_token := True\<rparr>)" by (rule leads_unpark_main)
  also have "leads At_Park_Dropped Lock_Free (w\<lparr>wd_main_token := True\<rparr>) At_Park_Dropped Lock_Free ?p" by (rule leads_cong) simp_all
  also have "leads At_Park_Dropped Lock_Free ?p At_Park_Dropped Lock_Other ?p" by (rule leads_other_lock)
  also note P(1)
  also have "leads At_Park_Dropped Lock_Other w1 At_Unblock_Dropped Lock_Other w2" unfolding P(3) using P(2) by (rule leads_park_dropped)
  also have "leads At_Unblock_Dropped Lock_Other w2 At_Start Lock_Other (set_blocked False w2)" by (rule leads_unblock_dropped)
  also have "leads At_Start Lock_Other (set_blocked False w2) At_Start Lock_Free (set_blocked False w2)" by (rule leads_other_unlock)
  finally show ?thesis .
qed

lemma wait_round_leads:
  assumes "\<not> wd_token w" "round_by E sc me True timeout (set_blocked True w) = Inr w1"
  shows "leads At_Set_Blocked Lock_Mine w At_Check_Waited Lock_Mine w1"
proof -
  have "\<not> wd_token (set_blocked True w)" using assms(1) by (simp add: set_blocked_def)
  from leads_trans [OF leads_set_blocked leads_check_blocked_no [OF this]]
  show ?thesis by (rule leads_trans) (rule may_notify_leads [OF round_notifies [OF assms(2)] leads_waited])
qed

lemma wait_io_leads:
  "wait_io E sc me start w = Some y \<Longrightarrow> y = Inr w' \<Longrightarrow> leads At_Set_Blocked Lock_Mine w At_Start Lock_Free w'"
proof (induction arbitrary: w' rule: wait_io.raw_induct [rotated, consumes 1, case_names step])
  case (step f E sc me start w y)
  from step(2) [unfolded step(3)] show ?case
  proof (cases rule: wait_body_cases)
    case notified
    then have "wd_token (set_blocked True w)" by (simp add: set_blocked_def)
    from leads_trans [OF leads_trans [OF leads_set_blocked leads_check_blocked_yes [OF this]] unblock_leads]
    show ?thesis unfolding notified(2) .
  next
    case (woken w1)
    from leads_trans [OF wait_round_leads [OF woken(1,2)] leads_trans [OF leads_check_waited_yes [OF woken(3)] unblock_leads]]
    show ?thesis unfolding woken(4) .
  next
    case (gave_up w1 w2)
    from leads_trans [OF leads_trans [OF wait_round_leads [OF gave_up(1,2)] leads_check_waited_no [OF gave_up(3)]] give_up_leads [OF gave_up(4)]]
    show ?thesis unfolding gave_up(5) .
  next
    case (looped w1)
    let ?s = "set_blocked False (w1\<lparr>wd_now := wd_now w1 + 1\<rparr>)"
    have "leads At_Set_Blocked Lock_Mine w At_Elapsed Lock_Mine w1"
      by (rule leads_trans [OF wait_round_leads [OF looped(1,2)] leads_check_waited_no [OF looped(3)]])
    also have "leads At_Elapsed Lock_Mine w1 At_Set_Blocked Lock_Mine (set_blocked False w1)"
      by (rule leads_trans [OF leads_elapsed_no leads_rearm])
    also have "leads At_Set_Blocked Lock_Mine (set_blocked False w1) At_Set_Blocked Lock_Mine ?s"
      by (rule leads_cong) (simp_all add: set_blocked_def)
    finally show ?thesis using step(1) [OF looped(4) refl] by (rule leads_trans)
  qed
qed

lemma react_at_once_leads:
  assumes "wd_token w" "round_by E sc me True timeout (w\<lparr>wd_token := False, wd_polling := True\<rparr>) = Inr w1"
  shows "leads At_Check Lock_Free w At_Start Lock_Free (w1\<lparr>wd_polling := False\<rparr>)"
proof -
  let ?w = "w\<lparr>wd_token := False, wd_polling := True\<rparr>"
  have "leads At_React Lock_Mine ?w At_Unlock Lock_Mine (?w\<lparr>wd_polling := False, wd_token := wd_token ?w \<or> wd_token w1\<rparr>)"
    by (rule leads_react)
  also have "leads At_Unlock Lock_Mine (?w\<lparr>wd_polling := False, wd_token := wd_token ?w \<or> wd_token w1\<rparr>)
      At_Unlock Lock_Mine (w1\<lparr>wd_polling := False\<rparr>)"
    using round_notifies [OF assms(2)] by (intro leads_cong) (auto simp: may_notify_def)
  also have "leads At_Unlock Lock_Mine (w1\<lparr>wd_polling := False\<rparr>) At_Start Lock_Free (w1\<lparr>wd_polling := False\<rparr>)" by (rule leads_unlock)
  finally show ?thesis
    using leads_trans [OF leads_check_yes [OF assms(1)] leads_try_react_yes] by (rule leads_trans [rotated])
qed

lemma after_pending_leads:
  assumes "after_pending E sc me w = Some (Inr w')"
  shows "leads At_Check Lock_Free w At_Start Lock_Free w'"
proof (cases "wd_token w")
  case token: True
  show ?thesis
  proof (cases "sc_free sc (wd_now w)")
    case True
    with assms token obtain w1 where "round_by E sc me True (Some 0) (w\<lparr>wd_token := False, wd_polling := True\<rparr>) = Inr w1"
      "w' = w1\<lparr>wd_polling := False\<rparr>" by (auto simp: after_pending_def rbind_eq_Inr_iff)
    with react_at_once_leads [OF token] show ?thesis by blast
  next
    case False
    with assms token have "w' = w\<lparr>wd_token := False\<rparr>" by (simp add: after_pending_def)
    with leads_trans [OF leads_check_yes [OF token] leads_trans [OF leads_other_lock
        leads_trans [OF leads_try_react_no leads_other_unlock]]] show ?thesis by simp
  qed
next
  case False
  note check = leads_check_no [OF False]
  show ?thesis
  proof (cases "sc_free sc (wd_now w)")
    case True
    let ?w = "w\<lparr>wd_now := wd_now w + 1\<rparr>"
    from assms False True have "wait_io E sc me (sc_clock sc (wd_now w)) ?w = Some (Inr w')" by (simp add: after_pending_def)
    note waits = wait_io_leads [OF this refl]
    have "leads At_Set_Blocked Lock_Mine w At_Set_Blocked Lock_Mine ?w" by (rule leads_cong) simp_all
    from leads_trans [OF leads_trans [OF check leads_lock_yes] leads_trans [OF this waits]] show ?thesis .
  next
    case locked: False
    with assms False have "park_thread E sc me w = Some (Inr w')" by (simp add: after_pending_def)
    from park_leads [OF this refl] obtain w1 where P: "leads At_Park Lock_Other w At_Park Lock_Other w1" "wd_token w1"
      "w' = w1\<lparr>wd_token := False\<rparr>" by blast
    from leads_trans [OF leads_trans [OF check leads_trans [OF leads_other_lock leads_lock_no]]
        leads_trans [OF P(1) leads_trans [OF leads_park [OF P(2)] leads_other_unlock]]]
    show ?thesis unfolding P(3) .
  qed
qed

lemma poll_in_leads:
  assumes "poll_in E sc F me f w = Some (Inr (res, f', w'))"
  shows "leads At_Start l w At_Polling l w'"
proof -
  obtain r n where "wake_thread E me (wd_polling w) (new_wakes (wd_reactor w) r) (w\<lparr>wd_reactor := r, wd_now := n\<rparr>) = Inr w'"
    using assms by (auto simp: poll_in_def obind_eq_Some_Inr rbind_eq_Inr_iff)
  note W = leads_polled [OF wake_thread_notifies [OF this], of l]
  have "leads At_Polling l w At_Polling l (w\<lparr>wd_reactor := r, wd_now := n\<rparr>)" by (rule leads_cong) simp_all
  from leads_trans [OF leads_poll leads_trans [OF this W]] show ?thesis .
qed

lemma block_on_loop_leads:
  "block_on_loop E sc F me f w = Some y \<Longrightarrow> y = Inr (x, f', w') \<Longrightarrow> leads At_Start Lock_Free w At_Leave Lock_Free w'"
proof (induction arbitrary: x f' w' rule: block_on_loop.raw_induct [rotated, consumes 1, case_names step])
  case (step loop E sc F me f w y)
  from step(2,3) obtain res f1 w1 where P: "poll_in E sc F me f w = Some (Inr (res, f1, w1))"
    by (auto split: option.splits sum.splits)
  note polled = poll_in_leads [OF P, of Lock_Free]
  show ?case
  proof (cases res)
    case (Poll_Ready z)
    with step(2,3) P have "w' = w1\<lparr>wd_token := False\<rparr>" by auto
    with leads_trans [OF polled leads_ready] show ?thesis by simp
  next
    case Poll_Pending
    with step(2,3) P obtain w2 where A: "after_pending E sc me w1 = Some (Inr w2)" "loop E sc F me f1 w2 = Some y"
      by (auto split: option.splits sum.splits)
    from leads_trans [OF polled leads_trans [OF leads_pending leads_trans [OF after_pending_leads [OF A(1)] step(1) [OF A(2) step(3)]]]]
    show ?thesis .
  qed
qed

lemma block_on_leads:
  assumes "block_on E sc F me f w = Some (Inr (x, w'))"
  shows "leads At_Enter Lock_Free w At_Done Lock_Free w'"
proof -
  let ?w = "w\<lparr>wd_block_ons := wd_block_ons w + 1\<rparr>"
  obtain f1 w1 r w2 where L: "block_on_loop E sc F me f ?w = Some (Inr (x, f1, w1))"
    "wake_thread E me (wd_polling w1) (new_wakes (wd_reactor w1) r) (w1\<lparr>wd_reactor := r\<rparr>) = Inr w2"
    "w' = w2\<lparr>wd_block_ons := wd_block_ons w2 - 1, wd_main_token := True\<rparr>"
    using assms by (auto simp: block_on_def obind_eq_Some_Inr rbind_eq_Inr_iff)
  have "leads At_Leave Lock_Free w1 At_Leave Lock_Free (w1\<lparr>wd_reactor := r\<rparr>)" by (rule leads_cong) simp_all
  also have "leads At_Leave Lock_Free (w1\<lparr>wd_reactor := r\<rparr>) At_Leave Lock_Free w2"
    by (rule leads_notified [OF wake_thread_notifies [OF L(2)]])
  also have "leads At_Leave Lock_Free w2 At_Leave_Unpark Lock_Free (w2\<lparr>wd_block_ons := wd_block_ons w2 - 1\<rparr>)" by (rule leads_leave)
  also have "leads At_Leave_Unpark Lock_Free (w2\<lparr>wd_block_ons := wd_block_ons w2 - 1\<rparr>) At_Done Lock_Free w'"
    using leads_leave_unpark [of Lock_Free "w2\<lparr>wd_block_ons := wd_block_ons w2 - 1\<rparr>"] L(3) by simp
  finally show ?thesis
    using leads_trans [OF leads_enter block_on_loop_leads [OF L(1) refl]] by (rule leads_trans [rotated])
qed

section \<open>Property\<close>

text \<open>
  C25. The functions refine the step relation: whenever \<open>block_on\<close> returns, for whatever future and
  schedule, there is a run of the steps of the thread, of wakers and of other threads from any state that
  shows its notification, its flags, the counter and a free lock to one that shows those it leaves,
  with the thread past its last step. So what holds in every reachable state of the step relation
  holds after it.
\<close>

theorem block_on_refines_steps:
  assumes "block_on E sc F me f w = Some (Inr (x, w'))" "bo_reachable s" "appears At_Enter Lock_Free w s"
  shows "\<exists>s'. bo_step\<^sup>*\<^sup>* s s' \<and> bo_reachable s' \<and> appears At_Done Lock_Free w' s'"
proof -
  from block_on_leads [OF assms(1)] assms(3) obtain s' where s': "bo_step\<^sup>*\<^sup>* s s'" "appears At_Done Lock_Free w' s'"
    by (auto simp: leads_def)
  have "bo_reachable s'" using s'(1) assms(2) by (induction rule: rtranclp_induct) (blast intro: reach_step)+
  with s' show ?thesis by blast
qed

text \<open>The yielding future, with one other thread inside \<open>block_on\<close>.\<close>

definition bo_before :: bo where
  "bo_before = bo_first\<lparr>bo_pc := At_Enter, bo_count := 1, bo_others := 1\<rparr>"

theorem block_on_refines_steps_witness:
  "\<exists>s'. bo_step\<^sup>*\<^sup>* bo_before s' \<and> bo_pc s' = At_Done \<and> bo_count s' = 1"
proof -
  let ?w = "yield_world\<lparr>wd_block_ons := 1\<rparr>"
  have "?w\<lparr>wd_block_ons := wd_block_ons ?w + 1\<rparr> = yield_world" by (simp add: yield_world_def sim_world_def)
  moreover have "fut_drop (counting yield_future) (True, 2) r = Some (Inr r)" for r by (simp add: counting_def yield_future_def)
  ultimately obtain w' where w': "block_on sim sim_locked (counting yield_future) 8 (False, 0) ?w = Some (Inr (5, w'))"
    "wd_block_ons w' = wd_block_ons yield_world - 1" by (simp add: block_on_def yield_loop no_new_wakes [OF refl])
  have "bo_reachable bo_before" by (rule reach_init) (simp add: bo_init_def bo_before_def bo_first_def)
  moreover have "appears At_Enter Lock_Free ?w bo_before"
    by (simp add: appears_def bo_before_def bo_first_def yield_world_def sim_world_def)
  ultimately show ?thesis using block_on_refines_steps [OF w'(1)] w'(2) by (auto simp: appears_def yield_world_def sim_world_def)
qed

end
