(* ===== verification/Globals.thy ===== *)
theory Globals
  imports Sim_Crates
begin

text \<open>
  The global state and how it comes into being: \<open>Reactor::get\<close> with its lock (\<open>src/src/reactor.rs\<close>),
  \<open>unparker\<close> and \<open>init\<close> (\<open>src/src/driver.rs\<close>). Any number of threads call them at once. A \<open>OnceLock\<close> is
  new, being initialised by a thread, or set; when the initialiser panics it is new again.
\<close>

section \<open>The lock of the reactor\<close>

text \<open>\<open>Mutex<Events>\<close>: whoever holds it has a \<open>ReactorLock\<close>. A thread that panics with it poisons it.\<close>

record events_mutex =
  mx_owner :: "nat option"
  mx_poisoned :: bool

definition mx_new :: events_mutex where
  "mx_new = \<lparr>mx_owner = None, mx_poisoned = False\<rparr>"

text \<open>\<open>None\<close>: the call blocks.\<close>

definition reactor_lock :: "nat \<Rightarrow> events_mutex \<Rightarrow> (panic + events_mutex) option" where
  "reactor_lock t m =
     (if mx_owner m \<noteq> None then None
      else if mx_poisoned m then Some (Inl Lock_Poisoned)
      else Some (Inr (m\<lparr>mx_owner := Some t\<rparr>)))"

text \<open>\<open>ok()\<close> drops the guard of a poisoned mutex at once.\<close>

definition reactor_try_lock :: "nat \<Rightarrow> events_mutex \<Rightarrow> events_mutex option" where
  "reactor_try_lock t m =
     (if mx_owner m \<noteq> None \<or> mx_poisoned m then None else Some (m\<lparr>mx_owner := Some t\<rparr>))"

definition reactor_unlock :: "bool \<Rightarrow> events_mutex \<Rightarrow> events_mutex" where
  "reactor_unlock panicking m = \<lparr>mx_owner = None, mx_poisoned = mx_poisoned m \<or> panicking\<rparr>"

inductive mx_step :: "events_mutex \<Rightarrow> events_mutex \<Rightarrow> bool" where
  mx_lock: "reactor_lock t m = Some (Inr m') \<Longrightarrow> mx_step m m'"
| mx_try_lock: "reactor_try_lock t m = Some m' \<Longrightarrow> mx_step m m'"
| mx_unlock: "mx_owner m = Some t \<Longrightarrow> mx_step m (reactor_unlock panicking m)"

section \<open>The threads\<close>

datatype 'v once = Once_New | Once_Running nat | Once_Set 'v

text \<open>
  Where a thread is. The flag of \<open>At_Unparker\<close>, \<open>Spawning\<close> and \<open>Spawned\<close> says that \<open>unparker\<close> was called by
  \<open>init\<close> inside the initialiser of the reactor. A parker and its unparker are named after the
  thread that parks.
\<close>

datatype 'r g_pc =
    Absent
  | Idle
  | At_Reactor
  | At_Unparker bool
  | Spawning bool
  | Spawned bool nat
  | Opening
  | Got_Reactor 'r
  | Got_Unparker nat
  | Unwinding panic
  | Panicked panic

record 'r globals =
  g_pc :: "nat \<Rightarrow> 'r g_pc"
  g_reactor :: "'r once"
  g_unparker :: "nat once"
  g_lock :: events_mutex
  g_mains :: "nat set"   \<comment> \<open>ghost: the "async-io" threads spawned so far\<close>

abbreviation set_pc :: "nat \<Rightarrow> 'r g_pc \<Rightarrow> 'r globals \<Rightarrow> 'r globals" where
  "set_pc t c st \<equiv> st\<lparr>g_pc := (g_pc st)(t := c)\<rparr>"

text \<open>
  The program starts with one thread; other threads are started by it. The lock is that of the reactor, of
  which only one is ever made, and nobody reaches it before.
\<close>

definition g_init :: "'r globals" where
  "g_init = \<lparr>g_pc = (\<lambda>_. Absent)(0 := Idle), g_reactor = Once_New, g_unparker = Once_New, g_lock = mx_new, g_mains = {}\<rparr>"

definition spawn_panic :: panic where
  "spawn_panic = Expect_Failed ''cannot spawn async-io thread''"

definition poller_panic :: panic where
  "poller_panic = Expect_Failed ''cannot initialize I/O event notification''"

text \<open>What follows a call of \<open>unparker\<close>: the caller's code, or the rest of the reactor's initialiser.\<close>

fun after_unparker :: "bool \<Rightarrow> nat \<Rightarrow> 'r g_pc" where
  "after_unparker True u = Opening"
| "after_unparker False u = Got_Unparker u"

text \<open>
  The steps of thread \<open>t\<close> inside \<open>unparker\<close>, for any caller. \<open>spawns\<close> says whether a thread can be spawned
  (\<open>True\<close>) and whether that may fail (\<open>False\<close>).
\<close>

inductive unparker_step :: "(bool \<Rightarrow> bool) \<Rightarrow> nat \<Rightarrow> 'r globals \<Rightarrow> 'r globals \<Rightarrow> bool"
  for spawns t where
  u_set: "g_pc st t = At_Unparker k \<Longrightarrow> g_unparker st = Once_Set u \<Longrightarrow>
     unparker_step spawns t st (set_pc t (after_unparker k u) st)"
| u_first: "g_pc st t = At_Unparker k \<Longrightarrow> g_unparker st = Once_New \<Longrightarrow>
     unparker_step spawns t st (set_pc t (Spawning k) (st\<lparr>g_unparker := Once_Running t\<rparr>))"
| u_spawn: "g_pc st t = Spawning k \<Longrightarrow> spawns True \<Longrightarrow> g_pc st m = Absent \<Longrightarrow>
     unparker_step spawns t st
       (set_pc t (Spawned k m) (set_pc m At_Reactor (st\<lparr>g_mains := insert m (g_mains st)\<rparr>)))"
| u_failed: "g_pc st t = Spawning k \<Longrightarrow> spawns False \<Longrightarrow>
     unparker_step spawns t st
       (set_pc t (if k then Unwinding spawn_panic else Panicked spawn_panic) (st\<lparr>g_unparker := Once_New\<rparr>))"
| u_spawned: "g_pc st t = Spawned k m \<Longrightarrow>
     unparker_step spawns t st (set_pc t (after_unparker k m) (st\<lparr>g_unparker := Once_Set m\<rparr>))"

text \<open>
  The steps of \<open>Reactor::get\<close>, which calls \<open>init\<close> and so \<open>unparker\<close> first. \<open>opens\<close> says which results
  \<open>Poller::new\<close> may have.
\<close>

inductive reactor_get_step :: "('p, 'sw, 'ss, 'q, 'reg) crates \<Rightarrow> ('p io_result \<Rightarrow> bool) \<Rightarrow> nat \<Rightarrow>
    ('p, 'sw, 'ss, 'q, 'reg) reactor globals \<Rightarrow> ('p, 'sw, 'ss, 'q, 'reg) reactor globals \<Rightarrow> bool"
  for E :: "('p, 'sw, 'ss, 'q, 'reg) crates" and opens t where
  r_set: "g_pc st t = At_Reactor \<Longrightarrow> g_reactor st = Once_Set r \<Longrightarrow>
     reactor_get_step E opens t st (set_pc t (Got_Reactor r) st)"
| r_first: "g_pc st t = At_Reactor \<Longrightarrow> g_reactor st = Once_New \<Longrightarrow>
     reactor_get_step E opens t st (set_pc t (At_Unparker True) (st\<lparr>g_reactor := Once_Running t\<rparr>))"
| r_opened: "g_pc st t = Opening \<Longrightarrow> opens (Inr p) \<Longrightarrow>
     reactor_get_step E opens t st
       (set_pc t (Got_Reactor (reactor_new E p)) (st\<lparr>g_reactor := Once_Set (reactor_new E p)\<rparr>))"
| r_failed: "g_pc st t = Opening \<Longrightarrow> opens (Inl e) \<Longrightarrow> reactor_get_step E opens t st (set_pc t (Unwinding poller_panic) st)"
| r_unwound: "g_pc st t = Unwinding e \<Longrightarrow>
     reactor_get_step E opens t st (set_pc t (Panicked e) (st\<lparr>g_reactor := Once_New\<rparr>))"

inductive get_step :: "('p, 'sw, 'ss, 'q, 'reg) crates \<Rightarrow> ('p io_result \<Rightarrow> bool) \<Rightarrow> (bool \<Rightarrow> bool) \<Rightarrow> nat \<Rightarrow>
    ('p, 'sw, 'ss, 'q, 'reg) reactor globals \<Rightarrow> ('p, 'sw, 'ss, 'q, 'reg) reactor globals \<Rightarrow> bool"
  for E :: "('p, 'sw, 'ss, 'q, 'reg) crates" and opens spawns t where
  get_unparker: "unparker_step spawns t st st' \<Longrightarrow> get_step E opens spawns t st st'"
| get_reactor: "reactor_get_step E opens t st st' \<Longrightarrow> get_step E opens spawns t st st'"

lemmas unparker_set = u_set [THEN get_unparker]
lemmas unparker_first = u_first [THEN get_unparker]
lemmas spawn_ok = u_spawn [THEN get_unparker]
lemmas spawn_failed = u_failed [THEN get_unparker]
lemmas spawned = u_spawned [THEN get_unparker]
lemmas reactor_set = r_set [THEN get_reactor]
lemmas reactor_first = r_first [THEN get_reactor]
lemmas opened = r_opened [THEN get_reactor]
lemmas open_failed = r_failed [THEN get_reactor]
lemmas unwound = r_unwound [THEN get_reactor]

lemma get_step_cases [consumes 1, case_names reactor_set reactor_first unparker_set unparker_first spawn_ok
    spawn_failed spawned opened open_failed unwound]:
  assumes "get_step E opens spawns t st st'"
  obtains r where "st' = set_pc t (Got_Reactor r) st" "g_pc st t = At_Reactor" "g_reactor st = Once_Set r"
  | "st' = set_pc t (At_Unparker True) (st\<lparr>g_reactor := Once_Running t\<rparr>)" "g_pc st t = At_Reactor" "g_reactor st = Once_New"
  | k u where "st' = set_pc t (after_unparker k u) st" "g_pc st t = At_Unparker k" "g_unparker st = Once_Set u"
  | k where "st' = set_pc t (Spawning k) (st\<lparr>g_unparker := Once_Running t\<rparr>)" "g_pc st t = At_Unparker k"
      "g_unparker st = Once_New"
  | k m where "st' = set_pc t (Spawned k m) (set_pc m At_Reactor (st\<lparr>g_mains := insert m (g_mains st)\<rparr>))"
      "g_pc st t = Spawning k" "spawns True" "g_pc st m = Absent"
  | k where "st' = set_pc t (if k then Unwinding spawn_panic else Panicked spawn_panic) (st\<lparr>g_unparker := Once_New\<rparr>)"
      "g_pc st t = Spawning k" "spawns False"
  | k m where "st' = set_pc t (after_unparker k m) (st\<lparr>g_unparker := Once_Set m\<rparr>)" "g_pc st t = Spawned k m"
  | p where "st' = set_pc t (Got_Reactor (reactor_new E p)) (st\<lparr>g_reactor := Once_Set (reactor_new E p)\<rparr>)"
      "g_pc st t = Opening" "opens (Inr p)"
  | e where "st' = set_pc t (Unwinding poller_panic) st" "g_pc st t = Opening" "opens (Inl e)"
  | e where "st' = set_pc t (Panicked e) (st\<lparr>g_reactor := Once_New\<rparr>)" "g_pc st t = Unwinding e"
  using assms
proof (cases rule: get_step.cases)
  case get_unparker
  then show thesis by (cases rule: unparker_step.cases) (rule that(3-7); assumption)+
next
  case get_reactor
  then show thesis by (cases rule: reactor_get_step.cases) (rule that(1,2,8-10); assumption)+
qed

text \<open>
  What threads do besides: they start, call, go on with what they got, and a thread of the
  client may catch a panic; the "async-io" thread has nothing that would. A thread that has the reactor may
  take its lock, which panics when the lock is poisoned, or try to; it gives the lock back, or
  panics while it holds it. A thread of the client may also panic without it; the "async-io" thread
  does nothing else with the reactor that could panic.
\<close>

inductive g_step :: "('p, 'sw, 'ss, 'q, 'reg) crates \<Rightarrow> ('p io_result \<Rightarrow> bool) \<Rightarrow> (bool \<Rightarrow> bool) \<Rightarrow>
    ('p, 'sw, 'ss, 'q, 'reg) reactor globals \<Rightarrow> ('p, 'sw, 'ss, 'q, 'reg) reactor globals \<Rightarrow> bool"
  for E :: "('p, 'sw, 'ss, 'q, 'reg) crates" and opens spawns where
  g_get: "get_step E opens spawns t st st' \<Longrightarrow> g_step E opens spawns st st'"
| g_start: "g_pc st t = Absent \<Longrightarrow> g_step E opens spawns st (set_pc t Idle st)"
| g_call_reactor: "g_pc st t = Idle \<Longrightarrow> g_step E opens spawns st (set_pc t At_Reactor st)"
| g_call_unparker: "g_pc st t = Idle \<Longrightarrow> g_step E opens spawns st (set_pc t (At_Unparker False) st)"
| g_use_reactor: "g_pc st t = Got_Reactor r \<Longrightarrow> mx_owner (g_lock st) \<noteq> Some t \<Longrightarrow>
     g_step E opens spawns st (set_pc t Idle st)"
| g_take_lock: "g_pc st t = Got_Reactor r \<Longrightarrow> reactor_lock t (g_lock st) = Some (Inr m) \<Longrightarrow>
     g_step E opens spawns st (st\<lparr>g_lock := m\<rparr>)"
| g_lock_panics: "g_pc st t = Got_Reactor r \<Longrightarrow> reactor_lock t (g_lock st) = Some (Inl e) \<Longrightarrow>
     g_step E opens spawns st (set_pc t (Panicked e) st)"
| g_try_lock: "g_pc st t = Got_Reactor r \<Longrightarrow> reactor_try_lock t (g_lock st) = Some m \<Longrightarrow>
     g_step E opens spawns st (st\<lparr>g_lock := m\<rparr>)"
| g_unlock: "mx_owner (g_lock st) = Some t \<Longrightarrow>
     g_step E opens spawns st (st\<lparr>g_lock := reactor_unlock False (g_lock st)\<rparr>)"
| g_react_panics: "g_pc st t = Got_Reactor r \<Longrightarrow> mx_owner (g_lock st) = Some t \<Longrightarrow>
     g_step E opens spawns st (set_pc t (Panicked e) (st\<lparr>g_lock := reactor_unlock True (g_lock st)\<rparr>))"
| g_client_panics: "g_pc st t = Got_Reactor r \<Longrightarrow> mx_owner (g_lock st) \<noteq> Some t \<Longrightarrow> t \<notin> g_mains st \<Longrightarrow>
     g_step E opens spawns st (set_pc t (Panicked e) st)"
| g_use_unparker: "g_pc st t = Got_Unparker u \<Longrightarrow> g_step E opens spawns st (set_pc t Idle st)"
| g_catch: "g_pc st t = Panicked p \<Longrightarrow> t \<notin> g_mains st \<Longrightarrow> g_step E opens spawns st (set_pc t Idle st)"

inductive g_reachable :: "('p, 'sw, 'ss, 'q, 'reg) crates \<Rightarrow> ('p io_result \<Rightarrow> bool) \<Rightarrow> (bool \<Rightarrow> bool) \<Rightarrow>
    ('p, 'sw, 'ss, 'q, 'reg) reactor globals \<Rightarrow> bool"
  for E :: "('p, 'sw, 'ss, 'q, 'reg) crates" and opens spawns where
  g_first: "g_reachable E opens spawns g_init"
| g_next: "g_reachable E opens spawns st \<Longrightarrow> g_step E opens spawns st st' \<Longrightarrow> g_reachable E opens spawns st'"

inductive_cases g_stepE: "g_step E opens spawns st st'"

section \<open>One cell\<close>

text \<open>
  What a \<open>OnceLock\<close> promises, whatever is around it. \<open>inside\<close> says that a thread runs the initialiser,
  \<open>got\<close> that it holds the value.
\<close>

locale once_cell =
  fixes inside :: "'c \<Rightarrow> bool" and got :: "'c \<Rightarrow> 'v \<Rightarrow> bool"
  assumes got_outside: "got c v \<Longrightarrow> \<not> inside c"
begin

definition cell_ok :: "(nat \<Rightarrow> 'c) \<Rightarrow> 'v once \<Rightarrow> bool" where
  "cell_ok pc x \<longleftrightarrow> (\<forall>t. inside (pc t) \<longleftrightarrow> x = Once_Running t) \<and> (\<forall>t v. got (pc t) v \<longrightarrow> x = Once_Set v)"

lemma insideD: "cell_ok pc x \<Longrightarrow> inside (pc t) \<Longrightarrow> x = Once_Running t"
  by (simp add: cell_ok_def)

lemma runningD: "cell_ok pc (Once_Running t) \<Longrightarrow> inside (pc t)"
  by (simp add: cell_ok_def)

lemma gotD: "cell_ok pc x \<Longrightarrow> got (pc t) v \<Longrightarrow> x = Once_Set v"
  by (simp add: cell_ok_def)

lemma one_initialiser: "cell_ok pc x \<Longrightarrow> inside (pc t) \<Longrightarrow> inside (pc u) \<Longrightarrow> t = u"
  by (simp add: cell_ok_def)

lemma keep: "cell_ok pc x \<Longrightarrow> inside c = inside (pc t) \<Longrightarrow> (\<And>v. got c v \<Longrightarrow> x = Once_Set v) \<Longrightarrow> cell_ok (pc(t := c)) x"
  by (simp add: cell_ok_def)

lemma enter: "cell_ok pc Once_New \<Longrightarrow> inside c \<Longrightarrow> cell_ok (pc(t := c)) (Once_Running t)"
  using got_outside by (auto simp: cell_ok_def)

lemma leave:
  assumes "cell_ok pc x" "inside (pc t)" "\<not> inside c" "\<And>u. y \<noteq> Once_Running u" "\<And>v. got c v \<Longrightarrow> y = Once_Set v"
  shows "cell_ok (pc(t := c)) y"
  using assms by (auto simp: cell_ok_def)

end

section \<open>The invariant\<close>

text \<open>Where a thread is inside the initialiser of the reactor, and of the unparker.\<close>

fun in_reactor_init :: "'r g_pc \<Rightarrow> bool" where
  "in_reactor_init (At_Unparker k) = k"
| "in_reactor_init (Spawning k) = k"
| "in_reactor_init (Spawned k m) = k"
| "in_reactor_init Opening = True"
| "in_reactor_init (Unwinding e) = True"
| "in_reactor_init _ = False"

fun in_unparker_init :: "'r g_pc \<Rightarrow> bool" where
  "in_unparker_init (Spawning k) = True"
| "in_unparker_init (Spawned k m) = True"
| "in_unparker_init _ = False"

fun got_reactor :: "'r g_pc \<Rightarrow> 'r \<Rightarrow> bool" where
  "got_reactor (Got_Reactor r) v = (v = r)"
| "got_reactor _ v = False"

fun got_unparker :: "'r g_pc \<Rightarrow> nat \<Rightarrow> bool" where
  "got_unparker (Got_Unparker u) v = (v = u)"
| "got_unparker _ v = False"

lemma got_iff: "got_reactor c r \<longleftrightarrow> c = Got_Reactor r" "got_unparker c u \<longleftrightarrow> c = Got_Unparker u"
  by (cases c; auto)+

interpretation rc: once_cell in_reactor_init got_reactor
  by unfold_locales (auto simp: got_iff)

interpretation uc: once_cell in_unparker_init got_unparker
  by unfold_locales (auto simp: got_iff)

text \<open>The "async-io" threads there are, by the state of the unparker's cell.\<close>

fun mains_ok :: "(nat \<Rightarrow> 'r g_pc) \<Rightarrow> nat once \<Rightarrow> nat set \<Rightarrow> bool" where
  "mains_ok pc Once_New M = (M = {})"
| "mains_ok pc (Once_Set m) M = (M = {m})"
| "mains_ok pc (Once_Running t) M =
     ((\<exists>k. pc t = Spawning k) \<and> M = {} \<or> (\<exists>k m. pc t = Spawned k m \<and> M = {m}))"

text \<open>What a thread may conclude from the cells, and that the threads are finitely many.\<close>

definition known_ok :: "('p, 'sw, 'ss, 'q, 'reg) crates \<Rightarrow> ('p io_result \<Rightarrow> bool) \<Rightarrow>
    ('p, 'sw, 'ss, 'q, 'reg) reactor globals \<Rightarrow> bool" where
  "known_ok E opens st \<longleftrightarrow>
     ((\<exists>r. g_reactor st = Once_Set r) \<or> (\<exists>t. g_pc st t = Opening) \<longrightarrow> (\<exists>u. g_unparker st = Once_Set u)) \<and>
     (\<forall>r. g_reactor st = Once_Set r \<longrightarrow> (\<exists>p. opens (Inr p) \<and> r = reactor_new E p))"

definition threads_ok :: "'r globals \<Rightarrow> bool" where
  "threads_ok st \<longleftrightarrow> finite {t. g_pc st t \<noteq> Absent} \<and> (\<forall>m\<in>g_mains st. g_pc st m \<noteq> Absent)"

definition g_ok :: "('p, 'sw, 'ss, 'q, 'reg) crates \<Rightarrow> ('p io_result \<Rightarrow> bool) \<Rightarrow>
    ('p, 'sw, 'ss, 'q, 'reg) reactor globals \<Rightarrow> bool" where
  "g_ok E opens st \<longleftrightarrow> rc.cell_ok (g_pc st) (g_reactor st) \<and> uc.cell_ok (g_pc st) (g_unparker st) \<and>
     mains_ok (g_pc st) (g_unparker st) (g_mains st) \<and> known_ok E opens st \<and> threads_ok st"

lemma g_ok_init: "g_ok E opens g_init"
  by (auto simp: g_ok_def rc.cell_ok_def uc.cell_ok_def g_init_def known_ok_def threads_ok_def)

lemma after_unparker_simps [simp]:
  "in_reactor_init (after_unparker k u) = k" "\<not> in_unparker_init (after_unparker k u)"
  "got_unparker (after_unparker k u) v \<longleftrightarrow> \<not> k \<and> v = u" "\<not> got_reactor (after_unparker k u) r"
  "after_unparker k u = Opening \<longleftrightarrow> k" "after_unparker k u \<noteq> Absent"
  "after_unparker k u \<noteq> Panicked e" "after_unparker k u \<noteq> Unwinding e"
  by (cases k; auto)+

lemma cells_ok_get:
  assumes "get_step E opens spawns t st st'"
    and R: "rc.cell_ok (g_pc st) (g_reactor st)" and U: "uc.cell_ok (g_pc st) (g_unparker st)"
  shows "rc.cell_ok (g_pc st') (g_reactor st') \<and> uc.cell_ok (g_pc st') (g_unparker st')"
  using assms(1)
proof (cases rule: get_step_cases)
  case (reactor_set r)
  then show ?thesis using R U by (auto simp del: fun_upd_apply intro!: rc.keep uc.keep)
next
  case reactor_first
  then show ?thesis using rc.enter [of "g_pc st" "At_Unparker True" t] R U by (auto simp del: fun_upd_apply intro!: uc.keep)
next
  case (unparker_set k u)
  then show ?thesis using R U by (auto simp del: fun_upd_apply intro!: rc.keep uc.keep)
next
  case (unparker_first k)
  then show ?thesis using uc.enter [of "g_pc st" "Spawning k" t] R U by (auto simp del: fun_upd_apply intro!: rc.keep)
next
  case (spawn_ok k m)
  have "rc.cell_ok ((g_pc st)(m := At_Reactor)) (g_reactor st)" "uc.cell_ok ((g_pc st)(m := At_Reactor)) (g_unparker st)"
    using R U spawn_ok by (auto simp del: fun_upd_apply intro!: rc.keep uc.keep)
  moreover have "((g_pc st)(m := At_Reactor)) t = Spawning k" using spawn_ok by auto
  ultimately show ?thesis using spawn_ok by (auto simp del: fun_upd_apply intro!: rc.keep uc.keep)
next
  case (spawn_failed k)
  have "uc.cell_ok ((g_pc st)(t := if k then Unwinding spawn_panic else Panicked spawn_panic)) Once_New"
    by (rule uc.leave [OF U]) (use spawn_failed in \<open>auto split: if_splits\<close>)
  then show ?thesis using R spawn_failed by (auto simp del: fun_upd_apply intro!: rc.keep)
next
  case (spawned k m)
  have "uc.cell_ok ((g_pc st)(t := after_unparker k m)) (Once_Set m)"
    by (rule uc.leave [OF U]) (use spawned in auto)
  then show ?thesis using R spawned by (auto simp del: fun_upd_apply intro!: rc.keep)
next
  case (opened p)
  have "rc.cell_ok ((g_pc st)(t := Got_Reactor (reactor_new E p))) (Once_Set (reactor_new E p))"
    by (rule rc.leave [OF R]) (use opened in auto)
  then show ?thesis using U opened by (auto simp del: fun_upd_apply intro!: uc.keep)
next
  case (open_failed e)
  then show ?thesis using R U by (auto simp del: fun_upd_apply intro!: rc.keep uc.keep)
next
  case (unwound e)
  have "rc.cell_ok ((g_pc st)(t := Panicked e)) Once_New"
    by (rule rc.leave [OF R]) (use unwound in auto)
  then show ?thesis using U unwound by (auto simp del: fun_upd_apply intro!: uc.keep)
qed

lemma cells_ok_other:
  assumes "g_pc st t = c0" "\<not> in_reactor_init c0" "\<not> in_unparker_init c0"
    and "c \<in> {Idle, At_Reactor, At_Unparker False} \<union> range Panicked"
    and "rc.cell_ok (g_pc st) (g_reactor st)" "uc.cell_ok (g_pc st) (g_unparker st)"
  shows "rc.cell_ok ((g_pc st)(t := c)) (g_reactor st) \<and> uc.cell_ok ((g_pc st)(t := c)) (g_unparker st)"
  using assms by (auto simp del: fun_upd_apply intro!: rc.keep uc.keep)

text \<open>The "async-io" threads: only the thread that initialises the unparker changes what is known of them.\<close>

lemma mains_finite: "mains_ok pc x M \<Longrightarrow> finite M"
  by (cases x) auto

lemma mains_ok_keep:
  assumes "mains_ok pc x M" "uc.cell_ok pc x" "\<not> in_unparker_init (pc t)"
  shows "mains_ok (pc(t := c)) x M"
  using assms by (cases x) (auto dest: uc.runningD)

lemma mains_ok_get:
  assumes "get_step E opens spawns t st st'" and U: "uc.cell_ok (g_pc st) (g_unparker st)"
    and M: "mains_ok (g_pc st) (g_unparker st) (g_mains st)"
  shows "mains_ok (g_pc st') (g_unparker st') (g_mains st')"
  using assms(1)
proof (cases rule: get_step_cases)
  case (spawn_ok k m)
  then have "g_unparker st = Once_Running t" using uc.insideD [OF U, of t] by simp
  then show ?thesis using M spawn_ok by auto
next
  case (spawn_failed k)
  then have "g_unparker st = Once_Running t" using uc.insideD [OF U, of t] by simp
  then show ?thesis using M spawn_failed by auto
next
  case (spawned k m)
  then have "g_unparker st = Once_Running t" using uc.insideD [OF U, of t] by simp
  then show ?thesis using M spawned by auto
next
  case (unparker_first k)
  then show ?thesis using M by simp
next
  case (unparker_set k u)
  then show ?thesis using M by simp
qed (use mains_ok_keep [OF M U] in \<open>auto simp del: fun_upd_apply\<close>)

lemma known_ok_get:
  assumes "get_step E opens spawns t st st'" and U: "uc.cell_ok (g_pc st) (g_unparker st)" and K: "known_ok E opens st"
  shows "known_ok E opens st'"
  using assms(1)
proof (cases rule: get_step_cases)
  case (spawn_failed k)
  then have "g_unparker st = Once_Running t" using uc.insideD [OF U, of t] by simp
  then show ?thesis using K spawn_failed by (auto simp: known_ok_def split: if_splits)
qed (use K in \<open>auto simp: known_ok_def split: if_splits\<close>)

text \<open>How far a thread is from having what it asked for. Every step brings it closer.\<close>

fun g_rank :: "'r g_pc \<Rightarrow> nat" where
  "g_rank At_Reactor = 6"
| "g_rank (At_Unparker k) = (if k then 5 else 3)"
| "g_rank (Spawning k) = (if k then 4 else 2)"
| "g_rank (Spawned k m) = (if k then 3 else 1)"
| "g_rank Opening = 2"
| "g_rank (Unwinding e) = 1"
| "g_rank _ = 0"

lemma get_step_moves:
  fixes E :: "('p, 'sw, 'ss, 'q, 'reg) crates"
  assumes "get_step E opens spawns t st st'"
  obtains (one) c where "g_pc st' = (g_pc st)(t := c)" "c \<noteq> Absent" "g_mains st' = g_mains st"
      "g_rank c < g_rank (g_pc st t)"
  | (spawn) k m where "g_pc st t = Spawning k" "g_pc st m = Absent"
      "g_pc st' = (g_pc st)(m := At_Reactor, t := Spawned k m)" "g_mains st' = insert m (g_mains st)"
proof -
  have moved: thesis if "g_pc st' = (g_pc st)(t := g_pc st' t)" "g_pc st' t \<noteq> Absent" "g_mains st' = g_mains st"
    "g_rank (g_pc st' t) < g_rank (g_pc st t)"
    using that by (rule one)
  have after: "g_rank (after_unparker k u :: ('p, 'sw, 'ss, 'q, 'reg) reactor g_pc) < g_rank (At_Unparker k :: 'p g_pc)"
    "g_rank (after_unparker k u :: ('p, 'sw, 'ss, 'q, 'reg) reactor g_pc) < g_rank (Spawned k u :: 'p g_pc)" for k u
    by (cases k; simp)+
  from assms show thesis
  proof (cases rule: get_step_cases)
    case (spawn_ok k m)
    then show thesis by (intro spawn) simp_all
  qed (rule moved; use after in simp)+
qed

lemma threads_ok_upd:
  assumes "threads_ok st" "c \<noteq> Absent" "g_pc st' = (g_pc st)(t := c)" "g_mains st' = g_mains st"
  shows "threads_ok st'"
  using assms by (auto simp: threads_ok_def intro: finite_subset [of _ "insert t {u. g_pc st u \<noteq> Absent}"])

lemma threads_ok_get:
  assumes "get_step E opens spawns t st st'" "threads_ok st"
  shows "threads_ok st'"
  using assms(1)
proof (cases rule: get_step_moves)
  case (one c)
  with assms(2) show ?thesis by (elim threads_ok_upd)
next
  case (spawn k m)
  have "threads_ok (set_pc m At_Reactor st)" using assms(2) by (elim threads_ok_upd) simp_all
  then have "threads_ok (set_pc m At_Reactor (st\<lparr>g_mains := insert m (g_mains st)\<rparr>))"
    by (simp add: threads_ok_def)
  then show ?thesis using spawn by (elim threads_ok_upd) simp_all
qed

lemma g_ok_get: "get_step E opens spawns t st st' \<Longrightarrow> g_ok E opens st \<Longrightarrow> g_ok E opens st'"
  by (simp add: g_ok_def cells_ok_get mains_ok_get known_ok_get threads_ok_get)

text \<open>A step that is not part of the initialisation moves one thread between places outside of it.\<close>

lemma g_ok_move:
  assumes "g_ok E opens st" "\<not> in_reactor_init (g_pc st t)" "\<not> in_unparker_init (g_pc st t)"
    and "c \<in> {Idle, At_Reactor, At_Unparker False} \<union> range Panicked"
  shows "g_ok E opens (set_pc t c st)"
proof -
  have "known_ok E opens (set_pc t c st)" using assms(1,4) by (auto simp: g_ok_def known_ok_def)
  with assms show ?thesis
    using cells_ok_other [of st t "g_pc st t" c] mains_ok_keep [of "g_pc st" "g_unparker st" "g_mains st" t c] threads_ok_upd [of st c "set_pc t c st" t]
    by (auto simp: g_ok_def simp del: fun_upd_apply)
qed

lemma g_ok_lock [simp]: "g_ok E opens (st\<lparr>g_lock := m\<rparr>) = g_ok E opens st"
  by (simp add: g_ok_def known_ok_def threads_ok_def)

lemma g_ok_step:
  assumes "g_step E opens spawns st st'" "g_ok E opens st"
  shows "g_ok E opens st'"
  using assms(1)
proof (cases rule: g_step.cases)
  case (g_get t)
  then show ?thesis using assms(2) by (rule g_ok_get)
next
  case (g_react_panics t r e)
  let ?st = "st\<lparr>g_lock := reactor_unlock True (g_lock st)\<rparr>"
  have "g_ok E opens (set_pc t (Panicked e) ?st)"
    using assms(2) g_react_panics(2) by (intro g_ok_move) simp_all
  with g_react_panics(1) show ?thesis by simp
qed (use g_ok_move [OF assms(2)] assms(2) in auto)

lemma g_ok_reachable: "g_reachable E opens spawns st \<Longrightarrow> g_ok E opens st"
  by (induction rule: g_reachable.induct) (auto intro: g_ok_init g_ok_step)

section \<open>The initialisation comes to an end\<close>

text \<open>The steps that are left to all threads together; a new "async-io" thread has six.\<close>

definition g_work :: "'r globals \<Rightarrow> nat" where
  "g_work st = (\<Sum>t | g_pc st t \<noteq> Absent. g_rank (g_pc st t)) + (if g_mains st = {} then 7 else 0)"

lemma get_step_work:
  assumes "get_step E opens spawns t st st'" and ok: "g_ok E opens st"
  shows "g_work st' < g_work st"
  using assms(1)
proof (cases rule: get_step_moves)
  case (one c)
  let ?A = "{u. g_pc st u \<noteq> Absent}"
  have "finite ?A" using ok by (simp add: g_ok_def threads_ok_def)
  moreover have t: "t \<in> ?A" using one(4) by auto
  moreover have "{u. g_pc st' u \<noteq> Absent} = ?A" using one(1,2) t by auto
  moreover have "(\<Sum>u\<in>?A - {t}. g_rank (g_pc st' u)) = (\<Sum>u\<in>?A - {t}. g_rank (g_pc st u))"
    by (rule sum.cong) (use one(1) in auto)
  ultimately show ?thesis using one(1,3,4) by (simp add: g_work_def sum.remove [of ?A t] del: fun_upd_apply) simp
next
  case (spawn k m)
  let ?A = "{u. g_pc st u \<noteq> Absent}"
  from ok have U: "uc.cell_ok (g_pc st) (g_unparker st)" and M: "mains_ok (g_pc st) (g_unparker st) (g_mains st)"
    and fin: "finite ?A" by (simp_all add: g_ok_def threads_ok_def)
  have none: "g_mains st = {}" using uc.insideD [OF U, of t] M spawn(1) by auto
  have A: "t \<in> ?A" "m \<notin> ?A" "{u. g_pc st' u \<noteq> Absent} = insert m ?A" using spawn by auto
  have "(\<Sum>u\<in>?A - {t}. g_rank (g_pc st' u)) = (\<Sum>u\<in>?A - {t}. g_rank (g_pc st u))"
    by (rule sum.cong) (use A spawn(3) in auto)
  then show ?thesis using A fin spawn none by (auto simp: g_work_def sum.remove [of ?A t])
qed

inductive get_steps :: "('p, 'sw, 'ss, 'q, 'reg) crates \<Rightarrow> ('p io_result \<Rightarrow> bool) \<Rightarrow> (bool \<Rightarrow> bool) \<Rightarrow> nat \<Rightarrow>
    ('p, 'sw, 'ss, 'q, 'reg) reactor globals \<Rightarrow> ('p, 'sw, 'ss, 'q, 'reg) reactor globals \<Rightarrow> bool"
  for E :: "('p, 'sw, 'ss, 'q, 'reg) crates" and opens spawns where
  get_none: "get_steps E opens spawns 0 st st"
| get_more: "get_steps E opens spawns n st st1 \<Longrightarrow> get_step E opens spawns t st1 st2 \<Longrightarrow>
     get_steps E opens spawns (Suc n) st st2"

lemma get_steps_work:
  assumes "get_steps E opens spawns n st st'" "g_ok E opens st"
  shows "g_ok E opens st' \<and> n + g_work st' \<le> g_work st"
  using assms
proof (induction rule: get_steps.induct)
  case (get_more n st st1 t st2)
  with g_ok_get [OF get_more(2)] get_step_work [OF get_more(2)] show ?case by fastforce
qed simp

text \<open>A thread that has something to do either can do it or waits for one that can.\<close>

definition answers :: "(bool \<Rightarrow> bool) \<Rightarrow> ('p io_result \<Rightarrow> bool) \<Rightarrow> bool" where
  "answers spawns opens \<longleftrightarrow> (\<exists>b. spawns b) \<and> (\<exists>res. opens res)"

lemma initialiser_can_step:
  assumes ok: "g_ok E opens st" and may: "answers spawns opens"
    and pc: "in_unparker_init (g_pc st t) \<or> g_pc st t = Opening \<or> (\<exists>e. g_pc st t = Unwinding e)"
  shows "\<exists>st'. get_step E opens spawns t st st'"
proof (cases "g_pc st t")
  case (Spawning k)
  have "finite {u. g_pc st u \<noteq> Absent}" using ok by (simp add: g_ok_def threads_ok_def)
  then obtain m where "g_pc st m = Absent" using ex_new_if_finite [OF infinite_UNIV_nat] by fastforce
  moreover obtain b where "spawns b" using may by (auto simp: answers_def)
  ultimately show ?thesis using Spawning spawn_ok [of st t k spawns m E opens] spawn_failed [of st t k spawns E opens]
    by (cases b) auto
next
  case (Spawned k m)
  then show ?thesis using spawned by blast
next
  case Opening
  moreover obtain res where "opens res" using may by (auto simp: answers_def)
  ultimately show ?thesis using opened [of st t opens _ E spawns] open_failed [of st t opens _ E spawns]
    by (cases res) auto
next
  case (Unwinding e)
  then show ?thesis using unwound by blast
qed (use pc in auto)

lemma unparker_can_step:
  assumes ok: "g_ok E opens st" and may: "answers spawns opens" and pc: "g_pc st t = At_Unparker k"
  shows "\<exists>u st'. get_step E opens spawns u st st'"
proof (cases "g_unparker st")
  case (Once_Running u)
  with ok have "in_unparker_init (g_pc st u)" by (auto simp: g_ok_def dest: uc.runningD)
  then show ?thesis using initialiser_can_step [OF ok may] by blast
qed (use pc in \<open>blast intro: unparker_first unparker_set\<close>)+

lemma busy_can_step:
  assumes ok: "g_ok E opens st" and may: "answers spawns opens" and busy: "0 < g_rank (g_pc st t)"
  shows "\<exists>u st'. get_step E opens spawns u st st'"
proof -
  have waits: ?thesis if "in_reactor_init (g_pc st u)" for u
  proof (cases "g_pc st u")
    case (At_Unparker k)
    then show ?thesis using unparker_can_step [OF ok may] by blast
  qed (use that initialiser_can_step [OF ok may, of u] in auto)
  show ?thesis
  proof (cases "g_pc st t")
    case At_Reactor
    show ?thesis
    proof (cases "g_reactor st")
      case (Once_Running u)
      with ok have "in_reactor_init (g_pc st u)" by (auto simp: g_ok_def dest: rc.runningD)
      then show ?thesis by (rule waits)
    qed (use At_Reactor in \<open>blast intro: reactor_first reactor_set\<close>)+
  next
    case (At_Unparker k)
    then show ?thesis by (rule unparker_can_step [OF ok may])
  qed (use busy initialiser_can_step [OF ok may, of t] in auto)
qed

section \<open>The lock of the reactor among the threads\<close>

lemma get_step_lock: "get_step E opens spawns t st st' \<Longrightarrow> g_lock st' = g_lock st"
  by (auto elim!: get_step_cases)

lemma g_step_lock:
  assumes "g_step E opens spawns st st'"
  shows "g_lock st' = g_lock st \<or> mx_step (g_lock st) (g_lock st')"
  using assms
proof (cases rule: g_step.cases)
  case (g_get t)
  then show ?thesis using get_step_lock by blast
qed (auto intro: mx_step.intros)

text \<open>A panic with the lock poisons it for good: \<open>try_lock\<close> says no, and \<open>lock\<close> blocks or panics.\<close>

lemma poisoned_stays: "mx_step m m' \<Longrightarrow> mx_poisoned m \<Longrightarrow> mx_poisoned m'"
  by (auto elim!: mx_step.cases simp: reactor_lock_def reactor_try_lock_def reactor_unlock_def split: if_splits)

lemma g_poisoned_stays: "g_step E opens spawns st st' \<Longrightarrow> mx_poisoned (g_lock st) \<Longrightarrow> mx_poisoned (g_lock st')"
  using g_step_lock poisoned_stays by metis

lemma poisoned_lock_is_lost:
  assumes "mx_step\<^sup>*\<^sup>* (reactor_unlock True m) m'"
  shows "reactor_try_lock t m' = None \<and> (reactor_lock t m' = None \<or> reactor_lock t m' = Some (Inl Lock_Poisoned))"
proof -
  have "mx_poisoned m'" using assms by (induction rule: rtranclp_induct) (auto simp: reactor_unlock_def poisoned_stays)
  then show ?thesis by (auto simp: reactor_lock_def reactor_try_lock_def)
qed

text \<open>Whoever has the lock has the reactor.\<close>

definition lock_ok :: "'r globals \<Rightarrow> bool" where
  "lock_ok st \<longleftrightarrow> (\<forall>t. mx_owner (g_lock st) = Some t \<longrightarrow> (\<exists>r. g_pc st t = Got_Reactor r))"

lemma lock_ok_step:
  assumes "g_step E opens spawns st st'" and ok: "lock_ok st"
  shows "lock_ok st'"
  using assms(1)
proof (cases rule: g_step.cases)
  case (g_get t)
  then show ?thesis
  proof (cases rule: get_step_moves)
    case (one c)
    then show ?thesis using ok get_step_lock [OF g_get] by (auto simp: lock_ok_def)
  next
    case (spawn k m)
    then show ?thesis using ok get_step_lock [OF g_get] by (auto simp: lock_ok_def)
  qed
next
  case (g_take_lock t r m)
  then show ?thesis by (auto simp: lock_ok_def reactor_lock_def split: if_splits)
next
  case (g_try_lock t r m)
  then show ?thesis by (auto simp: lock_ok_def reactor_try_lock_def split: if_splits)
next
  case (g_lock_panics t r e)
  then show ?thesis by (auto simp: lock_ok_def reactor_lock_def split: if_splits)
qed (use ok in \<open>auto simp: lock_ok_def reactor_unlock_def\<close>)

lemma lock_ok_reachable: "g_reachable E opens spawns st \<Longrightarrow> lock_ok st"
  by (induction rule: g_reachable.induct) (auto simp: lock_ok_def g_init_def mx_new_def dest: lock_ok_step)

section \<open>The "async-io" thread stays\<close>

text \<open>
  When \<open>Poller::new\<close> cannot fail, no "async-io" thread panics on its way to the reactor, and it panics with the
  reactor only with the lock in its hands, or because the lock is poisoned.
\<close>

definition mains_alive :: "'r globals \<Rightarrow> bool" where
  "mains_alive st \<longleftrightarrow> (\<forall>m\<in>g_mains st. (\<forall>e. g_pc st m \<noteq> Unwinding e) \<and> (\<forall>e. g_pc st m \<noteq> Panicked e))"

lemma mains_alive_get:
  assumes "get_step E opens spawns t st st'" and ok: "g_ok E opens st" and never: "\<And>e. \<not> opens (Inl e)"
    and alive: "mains_alive st"
  shows "mains_alive st'"
  using assms(1)
proof (cases rule: get_step_cases)
  case (spawn_failed k)
  from ok have U: "uc.cell_ok (g_pc st) (g_unparker st)" and "mains_ok (g_pc st) (g_unparker st) (g_mains st)"
    by (simp_all add: g_ok_def)
  with uc.insideD [OF U, of t] spawn_failed have "g_mains st = {}" by auto
  then show ?thesis using spawn_failed by (simp add: mains_alive_def)
next
  case (spawn_ok k m)
  then show ?thesis using alive by (auto simp: mains_alive_def)
next
  case (unwound e)
  then show ?thesis using alive by (auto simp: mains_alive_def)
qed (use alive never in \<open>auto simp: mains_alive_def\<close>)

lemma mains_alive_step:
  assumes "g_step E opens spawns st st'" and ok: "g_ok E opens st" and never: "\<And>e. \<not> opens (Inl e)"
    and alive: "mx_poisoned (g_lock st) \<or> mains_alive st"
  shows "mx_poisoned (g_lock st') \<or> mains_alive st'"
proof (cases "mx_poisoned (g_lock st)")
  case True
  with g_poisoned_stays [OF assms(1)] show ?thesis by blast
next
  case False
  with alive have M: "mains_alive st" by simp
  from assms(1) show ?thesis
  proof (cases rule: g_step.cases)
    case (g_get t)
    then show ?thesis using mains_alive_get [OF _ ok never M] by blast
  next
    case (g_lock_panics t r e)
    with False show ?thesis by (auto simp: reactor_lock_def split: if_splits)
  next
    case (g_react_panics t r e)
    then show ?thesis by (simp add: reactor_unlock_def)
  qed (use M in \<open>auto simp: mains_alive_def\<close>)
qed

lemma mains_alive_reachable:
  assumes "g_reachable E opens spawns st" "\<And>e. \<not> opens (Inl e)"
  shows "mx_poisoned (g_lock st) \<or> mains_alive st"
  using assms(1)
proof (induction rule: g_reachable.induct)
  case g_first
  then show ?case by (simp add: mains_alive_def g_init_def)
next
  case (g_next st st')
  then show ?case using mains_alive_step [OF g_next(2) g_ok_reachable [OF g_next(1)] assms(2)] by blast
qed

text \<open>A cell that is set stays as it is.\<close>

lemma set_stays:
  assumes "g_step E opens spawns st st'" and ok: "g_ok E opens st"
  shows "g_reactor st = Once_Set r \<longrightarrow> g_reactor st' = Once_Set r" and "g_unparker st = Once_Set u \<longrightarrow> g_unparker st' = Once_Set u"
proof -
  from ok have R: "rc.cell_ok (g_pc st) (g_reactor st)" and U: "uc.cell_ok (g_pc st) (g_unparker st)"
    by (simp_all add: g_ok_def)
  have out: "g_pc st t \<noteq> Opening \<and> g_pc st t \<noteq> Unwinding e" if "g_reactor st = Once_Set r" for t e
    using rc.insideD [OF R, of t] that by auto
  from assms(1) show "g_reactor st = Once_Set r \<longrightarrow> g_reactor st' = Once_Set r"
    by (cases rule: g_step.cases) (use out in \<open>auto elim!: get_step_cases\<close>)
  have out: "g_pc st t \<noteq> Spawning k \<and> g_pc st t \<noteq> Spawned k m" if "g_unparker st = Once_Set u" for t k m
    using uc.insideD [OF U, of t] that by auto
  from assms(1) show "g_unparker st = Once_Set u \<longrightarrow> g_unparker st' = Once_Set u"
    by (cases rule: g_step.cases) (use out in \<open>auto elim!: get_step_cases\<close>)
qed

section \<open>Examples\<close>

lemma g_next_get: "g_reachable E opens spawns st \<Longrightarrow> get_step E opens spawns t st st' \<Longrightarrow> g_reachable E opens spawns st'"
  by (blast intro: g_next g_get)

text \<open>The first thread asks for the reactor and makes it, and the "async-io" thread asks for it too.\<close>

definition sim_opens :: "bool \<Rightarrow> sim_poller io_result \<Rightarrow> bool" where
  "sim_opens fails res \<longleftrightarrow> res = Inr (sim_poller_new [] []) \<or> fails \<and> res = Inl (Os_Error 24)"

definition sim_opening :: "(sim_poller, sim_sw, sim_ss, timer_op list, registration_unix) reactor globals" where
  "sim_opening = \<lparr>g_pc = (\<lambda>_. Absent)(0 := Opening, 1 := At_Reactor), g_reactor = Once_Running 0,
     g_unparker = Once_Set 1, g_lock = mx_new, g_mains = {1}\<rparr>"

lemma reach_opening: "g_reachable sim (sim_opens fails) (\<lambda>b. b) sim_opening"
proof -
  note r1 = g_next [OF g_first [of sim "sim_opens fails" "\<lambda>b. b"] g_call_reactor [where t = 0]]
  note r2 = g_next_get [OF r1 reactor_first [where t = 0]]
  note r3 = g_next_get [OF r2 unparker_first [where t = 0 and k = True]]
  note r4 = g_next_get [OF r3 spawn_ok [where t = 0 and k = True and m = 1]]
  note r5 = g_next_get [OF r4 spawned [where t = 0 and k = True and m = 1]]
  show ?thesis using r5 by (simp add: g_init_def sim_opening_def fun_upd_twist)
qed

definition sim_got :: "(sim_poller, sim_sw, sim_ss, timer_op list, registration_unix) reactor globals" where
  "sim_got = \<lparr>g_pc = (\<lambda>_. Absent)(0 := Got_Reactor (reactor_new sim (sim_poller_new [] [])), 1 := At_Reactor),
     g_reactor = Once_Set (reactor_new sim (sim_poller_new [] [])), g_unparker = Once_Set 1, g_lock = mx_new, g_mains = {1}\<rparr>"

lemma reach_got: "g_reachable sim (sim_opens fails) (\<lambda>b. b) sim_got"
  using g_next_get [OF reach_opening opened [where t = 0 and p = "sim_poller_new [] []"], of fails]
  by (simp add: sim_opening_def sim_got_def sim_opens_def fun_upd_twist)

section \<open>Properties\<close>

text \<open>
  C26. There is one reactor, and an "async-io" thread that drives it, however many threads ask for it
  at the same time and whoever panics in between. In every reachable state at most one such
  thread has been spawned; whoever has the reactor has the same one, fresh from \<open>Poller::new\<close>,
  whoever holds its lock has the reactor, and whoever has the unparker has that of the thread; a
  reactor once made is never replaced. The thread of the reactor is there, and it has panicked
  only if \<open>Poller::new\<close> may fail or the reactor's lock is poisoned: some thread has panicked with it,
  and after that \<open>lock\<close> panics in the "async-io" thread too.
\<close>

theorem one_reactor_with_its_thread:
  assumes "g_reachable E opens spawns st"
  shows "(\<exists>m. g_mains st \<subseteq> {m}) \<and>
    (\<forall>t u. g_pc st t = Got_Unparker u \<longrightarrow> g_mains st = {u}) \<and>
    (\<forall>t r. g_pc st t = Got_Reactor r \<longrightarrow> g_reactor st = Once_Set r) \<and>
    (\<forall>t. mx_owner (g_lock st) = Some t \<longrightarrow> (\<exists>r. g_pc st t = Got_Reactor r)) \<and>
    (\<forall>r. g_reactor st = Once_Set r \<longrightarrow> (\<exists>p. opens (Inr p) \<and> r = reactor_new E p) \<and>
      (\<exists>m. g_mains st = {m} \<and> g_pc st m \<noteq> Absent \<and>
        ((\<forall>e. \<not> opens (Inl e)) \<and> \<not> mx_poisoned (g_lock st) \<longrightarrow> (\<forall>e. g_pc st m \<noteq> Panicked e))) \<and>
      (\<forall>st'. g_step E opens spawns st st' \<longrightarrow> g_reactor st' = Once_Set r))"
proof -
  note ok = g_ok_reachable [OF assms]
  then have M: "mains_ok (g_pc st) (g_unparker st) (g_mains st)" and K: "known_ok E opens st" and T: "threads_ok st"
    and R: "rc.cell_ok (g_pc st) (g_reactor st)" and U: "uc.cell_ok (g_pc st) (g_unparker st)" by (simp_all add: g_ok_def)
  have one: "\<exists>m. g_mains st \<subseteq> {m}" using M by (cases "g_unparker st") auto
  have main: "\<exists>m. g_mains st = {m} \<and> g_pc st m \<noteq> Absent \<and>
      ((\<forall>e. \<not> opens (Inl e)) \<and> \<not> mx_poisoned (g_lock st) \<longrightarrow> (\<forall>e. g_pc st m \<noteq> Panicked e))"
    if set: "g_reactor st = Once_Set r" for r
  proof -
    obtain m where "g_unparker st = Once_Set m" using K set by (auto simp: known_ok_def)
    then show ?thesis using M T mains_alive_reachable [OF assms] by (auto simp: threads_ok_def mains_alive_def)
  qed
  show ?thesis
    using one main K set_stays(1) [OF _ ok] rc.gotD [OF R] uc.gotD [OF U] M lock_ok_reachable [OF assms]
    by (auto simp: known_ok_def got_iff lock_ok_def)
qed

theorem one_reactor_with_its_thread_witness:
  "g_reachable sim (sim_opens False) (\<lambda>b. b) sim_got \<and> (\<exists>m. g_mains sim_got = {m} \<and> (\<forall>e. g_pc sim_got m \<noteq> Panicked e))"
  using one_reactor_with_its_thread [OF reach_got [of False]] reach_got by (simp add: sim_got_def sim_opens_def mx_new_def)

text \<open>
  C27. Nobody waits for ever for the reactor: the steps of the initialisation, of all threads together and
  in any order, are at most \<open>g_work\<close> in number, and while a thread is still on its way some
  thread has a next step. So when no step is left every call has returned or panicked,
  recursion of the initialisers and the call of \<open>Reactor::get\<close> by the new thread included.
\<close>

theorem get_terminates:
  assumes "g_reachable E opens spawns st" "answers spawns opens" "get_steps E opens spawns n st st'"
  shows "n \<le> g_work st \<and> (0 < g_rank (g_pc st' t) \<longrightarrow> (\<exists>u st''. get_step E opens spawns u st' st''))"
proof -
  note run = get_steps_work [OF assms(3) g_ok_reachable [OF assms(1)]]
  then have "n \<le> g_work st" by simp
  with busy_can_step [OF run [THEN conjunct1] assms(2)] show ?thesis by blast
qed

theorem get_terminates_witness:
  "\<exists>n. n \<le> g_work (sim_opening) \<and> get_steps sim (sim_opens False) (\<lambda>b. b) n sim_opening sim_got"
proof -
  have "get_step sim (sim_opens False) (\<lambda>b. b) 0 sim_opening sim_got"
    using opened [of sim_opening 0 "sim_opens False" "sim_poller_new [] []" sim "\<lambda>b. b"]
    by (simp add: sim_opening_def sim_got_def sim_opens_def fun_upd_twist)
  then have run: "get_steps sim (sim_opens False) (\<lambda>b. b) (Suc 0) sim_opening sim_got" by (blast intro: get_none get_more)
  have "answers (\<lambda>b. b) (sim_opens False)" by (auto simp: answers_def sim_opens_def)
  from get_terminates [OF reach_opening this run] run show ?thesis by blast
qed

text \<open>
  When \<open>Poller::new\<close> fails for the "async-io" thread that thread is gone for good: a later call may make the
  reactor, but the cell of the unparker is set, so no thread is ever spawned again, and I/O and
  timers are processed only while some thread is inside \<open>block_on\<close>.
\<close>

theorem async_io_thread_may_be_lost:
  "\<exists>st. g_reachable sim (sim_opens True) (\<lambda>b. b) st \<and> g_mains st = {1} \<and> g_pc st 1 = Panicked poller_panic \<and>
     (\<exists>r. g_pc st 0 = Got_Reactor r) \<and> (\<forall>st'. g_step sim (sim_opens True) (\<lambda>b. b) st st' \<longrightarrow>
        g_pc st' 1 = Panicked poller_panic \<and> g_unparker st' = Once_Set 1)"
proof -
  have opens: "sim_opens True (Inl (Os_Error 24))" "sim_opens True (Inr (sim_poller_new [] []))" by (simp_all add: sim_opens_def)
  note r1 = g_next_get [OF reach_opening open_failed [where t = 0 and opens = "sim_opens True", OF _ opens(1)]]
  note r2 = g_next_get [OF r1 unwound [where t = 0]]
  note r3 = g_next_get [OF r2 reactor_first [where t = 1]]
  note r4 = g_next_get [OF r3 unparker_set [where t = 1 and k = True and u = 1]]
  note r5 = g_next_get [OF r4 open_failed [where t = 1 and opens = "sim_opens True", OF _ opens(1)]]
  note r6 = g_next_get [OF r5 unwound [where t = 1]]
  note r7 = g_next [OF r6 g_catch [where t = 0]]
  note r8 = g_next [OF r7 g_call_reactor [where t = 0]]
  note r9 = g_next_get [OF r8 reactor_first [where t = 0]]
  note r10 = g_next_get [OF r9 unparker_set [where t = 0 and k = True and u = 1]]
  note r11 = g_next_get [OF r10 opened [where t = 0 and opens = "sim_opens True", OF _ opens(2)]]
  let ?st = "sim_got\<lparr>g_pc := (g_pc sim_got)(1 := Panicked poller_panic)\<rparr>"
  have reach: "g_reachable sim (sim_opens True) (\<lambda>b. b) ?st"
    using r11 by (simp add: sim_opening_def sim_got_def fun_upd_twist)
  have "g_pc st' 1 = Panicked poller_panic \<and> g_unparker st' = Once_Set 1"
    if "g_step sim (sim_opens True) (\<lambda>b. b) ?st st'" for st'
    using that set_stays(2) [OF that g_ok_reachable [OF reach], of 1]
    by (cases rule: g_step.cases) (auto elim!: get_step_cases simp: sim_got_def split: if_splits)
  with reach show ?thesis by (intro exI [of _ ?st] conjI) (simp_all add: sim_got_def)
qed

text \<open>
  And when a thread panics in \<open>react\<close>, the "async-io" thread panics as soon as it asks for the lock, although
  \<open>Poller::new\<close> never fails.
\<close>

theorem poisoned_lock_ends_thread:
  "\<exists>st. g_reachable sim (sim_opens False) (\<lambda>b. b) st \<and> g_mains st = {1} \<and> g_pc st 1 = Panicked Lock_Poisoned"
proof -
  note r1 = g_next_get [OF reach_got reactor_set [where t = 1]]
  note r2 = g_next [OF r1 g_take_lock [where t = 0]]
  note r3 = g_next [OF r2 g_react_panics [where t = 0 and e = Unreachable_Code]]
  note r4 = g_next [OF r3 g_lock_panics [where t = 1 and e = Lock_Poisoned]]
  let ?r = "reactor_new sim (sim_poller_new [] [])"
  let ?st = "sim_got\<lparr>g_pc := (g_pc sim_got)(0 := Panicked Unreachable_Code, 1 := Panicked Lock_Poisoned),
    g_lock := reactor_unlock True mx_new\<rparr>"
  have "g_reachable sim (sim_opens False) (\<lambda>b. b) ?st"
    using r4 [of ?r ?r "mx_new\<lparr>mx_owner := Some 0\<rparr>" ?r ?r]
    by (simp add: sim_got_def reactor_lock_def reactor_unlock_def mx_new_def fun_upd_twist)
  then show ?thesis by (intro exI [of _ ?st]) (simp add: sim_got_def)
qed

end
