(* ===== verification/Net.thy ===== *)
theory Net
  imports Async
begin

text \<open>
  The network types of \<open>src/src/lib.rs\<close>: \<open>Async<TcpListener>\<close>, \<open>Async<TcpStream>\<close>,
  \<open>Async<UdpSocket>\<close> and their Unix counterparts, and the functions \<open>connect\<close>,
  \<open>setup_networking\<close> and \<open>convert_path_to_socket_address\<close> beneath them. The calls of the
  standard library and of \<open>rustix\<close> are parameters.
\<close>

section \<open>Sockets\<close>

datatype address_family = INET | INET6 | UNIX
datatype socket_type = STREAM
datatype socket_flag = CLOEXEC | NONBLOCK
datatype protocol = TCP

type_synonym fd_flags = "32 word"

text \<open>
  The calls beneath \<open>connect\<close>. \<open>n_close\<close> is what dropping the \<open>OwnedFd\<close> does; \<open>n_startup\<close> and
  \<open>n_handle_info\<close> exist on Windows.
\<close>

record ('fd, 'a, 'p) net_calls =
  n_socket :: "address_family \<Rightarrow> socket_type \<Rightarrow> socket_flag list \<Rightarrow> protocol option \<Rightarrow> 'p \<Rightarrow> (errno + 'fd) \<times> 'p"
  n_getfd :: "'fd \<Rightarrow> 'p \<Rightarrow> (errno + fd_flags) \<times> 'p"
  n_setfd :: "'fd \<Rightarrow> fd_flags \<Rightarrow> 'p \<Rightarrow> (errno + unit) \<times> 'p"
  n_fd_cloexec :: fd_flags
  n_nosigpipe :: "'fd \<Rightarrow> bool \<Rightarrow> 'p \<Rightarrow> (errno + unit) \<times> 'p"
  n_handle_info :: "'fd \<Rightarrow> fd_flags \<Rightarrow> fd_flags \<Rightarrow> 'p \<Rightarrow> fd_flags \<times> 'p"
  n_last_error :: "'p \<Rightarrow> io_error"
  n_connect :: "'fd \<Rightarrow> 'a \<Rightarrow> 'p \<Rightarrow> (errno + unit) \<times> 'p"
  n_close :: "'fd \<Rightarrow> 'p \<Rightarrow> 'p"
  n_startup :: "'p \<Rightarrow> 'p"

definition handle_flag_inherit :: fd_flags where
  "handle_flag_inherit = 1"

text \<open>The question mark on a \<open>rustix\<close> call, and the sequencing of calls while a socket is owned.\<close>

definition sys :: "('p \<Rightarrow> (errno + 'x) \<times> 'p) \<Rightarrow> 'p \<Rightarrow> 'x io_result \<times> 'p" where
  "sys c p = (case c p of (res, p') \<Rightarrow> (map_sum io_error_of id res, p'))"

definition sock_step :: "('fd, 'a, 'p) net_calls \<Rightarrow> 'fd \<Rightarrow> ('p \<Rightarrow> 'x io_result \<times> 'p) \<Rightarrow>
    ('x \<Rightarrow> 'p \<Rightarrow> 'y io_result \<times> 'p) \<Rightarrow> 'p \<Rightarrow> 'y io_result \<times> 'p" where
  "sock_step N fd c k p = (case c p of
       (Inl e, p') \<Rightarrow> (Inl e, n_close N fd p')
     | (Inr x, p') \<Rightarrow> k x p')"

definition nothing :: "'p \<Rightarrow> unit io_result \<times> 'p" where
  "nothing p = (Inr (), p)"

text \<open>\<open>WSAStartup\<close> is called once: the flag tells whether it has been.\<close>

definition setup_networking :: "target \<Rightarrow> ('fd, 'a, 'p) net_calls \<Rightarrow> bool \<Rightarrow> 'p \<Rightarrow> bool \<times> 'p" where
  "setup_networking T N started p =
     (if T = Windows then (True, if started then p else n_startup N p) else (started, p))"

fun atomic_flags :: "target \<Rightarrow> bool" where
  "atomic_flags T = (T \<in> {Android, Dragonfly, Freebsd, Fuchsia, Illumos, Linux, Netbsd, Openbsd})"

fun lacks_cloexec :: "target \<Rightarrow> bool" where
  "lacks_cloexec T = (T \<in> {Aix, Apple, Espidf, Haiku, Windows})"

definition set_cloexec :: "target \<Rightarrow> ('fd, 'a, 'p) net_calls \<Rightarrow> 'fd \<Rightarrow> 'p \<Rightarrow> unit io_result \<times> 'p" where
  "set_cloexec T N fd p =
     (if T = Aix \<or> T = Apple
      then case sys (n_getfd N fd) p of
          (Inl e, p) \<Rightarrow> (Inl e, p)
        | (Inr flags, p) \<Rightarrow> sys (n_setfd N fd (or flags (n_fd_cloexec N))) p
      else nothing p)"

definition create_socket :: "('h, 'fd, 'reg, 'p) os_calls \<Rightarrow> ('fd, 'a, 'p) net_calls \<Rightarrow>
    address_family \<Rightarrow> protocol option \<Rightarrow> 'p \<Rightarrow> 'fd io_result \<times> 'p" where
  "create_socket S N domain proto p =
     (if atomic_flags (os_target S)
      then sys (n_socket N domain STREAM [CLOEXEC, NONBLOCK] proto) p
      else (case sys (n_socket N domain STREAM (if lacks_cloexec (os_target S) then [] else [CLOEXEC]) proto) p of
          (Inl e, p) \<Rightarrow> (Inl e, p)
        | (Inr fd, p) \<Rightarrow>
            sock_step N fd (set_cloexec (os_target S) N fd) (\<lambda>_.
            sock_step N fd (set_nonblocking S fd) (\<lambda>_ p. (Inr fd, p))) p))"

definition set_nosigpipe :: "target \<Rightarrow> ('fd, 'a, 'p) net_calls \<Rightarrow> 'fd \<Rightarrow> 'p \<Rightarrow> unit io_result \<times> 'p" where
  "set_nosigpipe T N fd p =
     (if T \<in> {Apple, Freebsd, Netbsd, Dragonfly} then sys (n_nosigpipe N fd True) p else nothing p)"

definition set_handle_info :: "target \<Rightarrow> ('fd, 'a, 'p) net_calls \<Rightarrow> 'fd \<Rightarrow> 'p \<Rightarrow> unit io_result \<times> 'p" where
  "set_handle_info T N fd p =
     (if T = Windows
      then case n_handle_info N fd handle_flag_inherit handle_flag_inherit p of
          (ok, p) \<Rightarrow> if ok = 0 then (Inl (n_last_error N p), p) else (Inr (), p)
      else nothing p)"

text \<open>The errors that mean that the connection is on its way.\<close>

definition begin_connect :: "target \<Rightarrow> ('fd, 'a, 'p) net_calls \<Rightarrow> 'fd \<Rightarrow> 'a \<Rightarrow> 'p \<Rightarrow> unit io_result \<times> 'p" where
  "begin_connect T N fd addr p = (case n_connect N fd addr p of
       (Inr _, p) \<Rightarrow> (Inr (), p)
     | (Inl e, p) \<Rightarrow>
         if T \<noteq> Windows \<and> e = INPROGRESS then (Inr (), p)
         else if e = AGAIN \<or> e = WOULDBLOCK then (Inr (), p)
         else (Inl (io_error_of e), p))"

definition connect :: "('h, 'fd, 'reg, 'p) os_calls \<Rightarrow> ('fd, 'a, 'p) net_calls \<Rightarrow> 'a \<Rightarrow>
    address_family \<Rightarrow> protocol option \<Rightarrow> bool \<Rightarrow> 'p \<Rightarrow> 'fd io_result \<times> bool \<times> 'p" where
  "connect S N addr domain proto started p =
     (case setup_networking (os_target S) N started p of (started, p) \<Rightarrow>
        case create_socket S N domain proto p of
            (Inl e, p) \<Rightarrow> (Inl e, started, p)
          | (Inr fd, p) \<Rightarrow>
              (case sock_step N fd (set_nosigpipe (os_target S) N fd) (\<lambda>_.
                    sock_step N fd (set_handle_info (os_target S) N fd) (\<lambda>_.
                    sock_step N fd (begin_connect (os_target S) N fd addr) (\<lambda>_ p. (Inr fd, p)))) p of
                 (res, p) \<Rightarrow> (res, started, p)))"

section \<open>Opening sockets\<close>

text \<open>\<open>bind\<close> and its kin: a call of the standard library, then \<open>Async::new\<close>.\<close>

definition async_open :: "('h, 'fd, 'reg, 'p) os_calls \<Rightarrow> ('p, 'sw, 'ss, 'q, 'reg) crates \<Rightarrow>
    ('p \<Rightarrow> 'h io_result \<times> 'p) \<Rightarrow> ('p, 'sw, 'ss, 'q, 'reg) reactor \<Rightarrow>
    panic + 'h async io_result \<times> ('p, 'sw, 'ss, 'q, 'reg) reactor" where
  "async_open S E call r = (case call (poller r) of
       (Inl e, p) \<Rightarrow> Inr (Inl e, r\<lparr>poller := p\<rparr>)
     | (Inr h, p) \<Rightarrow> async_new S E h (r\<lparr>poller := p\<rparr>))"

definition tcp_listener_bind where
  "tcp_listener_bind S E into bind addr r = async_open S E (bind (into addr)) r"

definition udp_bind where
  "udp_bind S E into bind addr r = async_open S E (bind (into addr)) r"

definition unix_listener_bind where
  "unix_listener_bind S E bind (path :: byte list) r = async_open S E (bind path) r"

definition unix_datagram_bind where
  "unix_datagram_bind S E bind (path :: byte list) r = async_open S E (bind path) r"

definition unix_datagram_unbound where
  "unix_datagram_unbound S E unbound r = async_open S E unbound r"

text \<open>The conversions from the blocking types of the standard library.\<close>

definition tcp_listener_try_from where
  "tcp_listener_try_from S E listener r = async_new S E listener r"

definition tcp_stream_try_from where
  "tcp_stream_try_from S E stream r = async_new S E stream r"

definition udp_try_from where
  "udp_try_from S E socket r = async_new S E socket r"

definition unix_listener_try_from where
  "unix_listener_try_from S E listener r = async_new S E listener r"

definition unix_stream_try_from where
  "unix_stream_try_from S E stream r = async_new S E stream r"

definition unix_datagram_try_from where
  "unix_datagram_try_from S E socket r = async_new S E socket r"

text \<open>
  A pair: when the first handle fails, the second is dropped as it is; when the second fails, the
  first is dropped with its registration.
\<close>

definition async_pair :: "('h, 'fd, 'reg, 'p) os_calls \<Rightarrow> ('p, 'sw, 'ss, 'q, 'reg) crates \<Rightarrow>
    ('p \<Rightarrow> ('h \<times> 'h) io_result \<times> 'p) \<Rightarrow> ('p, 'sw, 'ss, 'q, 'reg) reactor \<Rightarrow>
    panic + ('h async \<times> 'h async) io_result \<times> ('p, 'sw, 'ss, 'q, 'reg) reactor" where
  "async_pair S E pair r = (case pair (poller r) of
       (Inl e, p) \<Rightarrow> Inr (Inl e, r\<lparr>poller := p\<rparr>)
     | (Inr (h1, h2), p) \<Rightarrow>
         rbind (async_new S E h1 (r\<lparr>poller := p\<rparr>)) (\<lambda>(res1, r1). case res1 of
             Inl e \<Rightarrow> Inr (Inl e, drop_handle S h2 r1)
           | Inr a1 \<Rightarrow> rbind (async_new S E h2 r1) (\<lambda>(res2, r2). case res2 of
                 Inl e \<Rightarrow> rbind (async_drop S E a1 r2) (\<lambda>r3. Inr (Inl e, r3))
               | Inr a2 \<Rightarrow> Inr (Inr (a1, a2), r2))))"

definition unix_stream_pair where
  "unix_stream_pair S E pair r = async_pair S E pair r"

definition unix_datagram_pair where
  "unix_datagram_pair S E pair r = async_pair S E pair r"

section \<open>Accepting connections\<close>

text \<open>
  \<open>accept\<close> awaits \<open>read_with\<close> and opens the stream it is given; \<open>S\<close> are the calls on streams.
  \<open>incoming\<close> is a stream that accepts again after each item; it has no last item.
\<close>

definition accept_poll :: "('g, 'fd, 'reg, 'p) os_calls \<Rightarrow> ('p, 'sw, 'ss, 'q, 'reg) crates \<Rightarrow>
    ('h \<Rightarrow> 'p \<Rightarrow> ('g \<times> 'a) io_result \<times> 'p) \<Rightarrow> waker \<Rightarrow> io_with \<Rightarrow> 'h async \<Rightarrow>
    ('p, 'sw, 'ss, 'q, 'reg) reactor \<Rightarrow>
    (panic + ('g async \<times> 'a) io_result poll \<times> io_with \<times> 'h async \<times> ('p, 'sw, 'ss, 'q, 'reg) reactor) option" where
  "accept_poll S E acc cx st a r =
     obind (read_with_poll E (\<lambda>h _ p. case acc h p of (res, p') \<Rightarrow> (res, (), p')) cx st a () r)
       (\<lambda>(out, st', a', _, r'). Some (case out of
            Poll_Pending \<Rightarrow> Inr (Poll_Pending, st', a', r')
          | Poll_Ready (Inl e) \<Rightarrow> Inr (Poll_Ready (Inl e), With_Done, a', r')
          | Poll_Ready (Inr (h, addr)) \<Rightarrow>
              rbind (async_new S E h r') (\<lambda>(res, r''). Inr (Poll_Ready (case res of
                  Inl e \<Rightarrow> Inl e | Inr s \<Rightarrow> Inr (s, addr)), With_Done, a', r''))))"

definition tcp_accept_poll where
  "tcp_accept_poll S E acc cx st a r = accept_poll S E acc cx st a r"

definition unix_accept_poll where
  "unix_accept_poll S E acc cx st a r = accept_poll S E acc cx st a r"

definition incoming_poll :: "('g, 'fd, 'reg, 'p) os_calls \<Rightarrow> ('p, 'sw, 'ss, 'q, 'reg) crates \<Rightarrow>
    ('h \<Rightarrow> 'p \<Rightarrow> ('g \<times> 'a) io_result \<times> 'p) \<Rightarrow> waker \<Rightarrow> io_with \<Rightarrow> 'h async \<Rightarrow>
    ('p, 'sw, 'ss, 'q, 'reg) reactor \<Rightarrow>
    (panic + 'g async io_result option poll \<times> io_with \<times> 'h async \<times> ('p, 'sw, 'ss, 'q, 'reg) reactor) option" where
  "incoming_poll S E acc cx st a r =
     obind (accept_poll S E acc cx st a r) (\<lambda>(out, st', a', r'). Some (Inr (case out of
         Poll_Pending \<Rightarrow> (Poll_Pending, st', a', r')
       | Poll_Ready res \<Rightarrow> (Poll_Ready (Some (map_sum id fst res)), With_Try, a', r'))))"

definition tcp_incoming_poll where
  "tcp_incoming_poll S E acc cx st a r = incoming_poll S E acc cx st a r"

definition unix_incoming_poll where
  "unix_incoming_poll S E acc cx st a r = incoming_poll S E acc cx st a r"

section \<open>Connecting\<close>

datatype 'a socket_addr = V4 'a | V6 'a

fun tcp_domain :: "'a socket_addr \<Rightarrow> address_family \<times> 'a" where
  "tcp_domain (V4 a) = (INET, a)"
| "tcp_domain (V6 a) = (INET6, a)"

text \<open>
  The future of \<open>connect\<close>, from the point where the socket exists: it waits for writability, then
  looks at the outcome (\<open>check\<close>). Leaving with an error drops the stream, after the awaited future.
\<close>

datatype 'h connecting = Connecting_Wait "'h async" ready_future | Connecting_Done

definition connect_fail :: "('h, 'fd, 'reg, 'p) os_calls \<Rightarrow> ('p, 'sw, 'ss, 'q, 'reg) crates \<Rightarrow>
    'h async \<Rightarrow> io_error \<Rightarrow> ('p, 'sw, 'ss, 'q, 'reg) reactor \<Rightarrow>
    panic + 'h async io_result poll \<times> 'h connecting \<times> ('p, 'sw, 'ss, 'q, 'reg) reactor" where
  "connect_fail S E stream e r = rbind (async_drop S E stream r) (\<lambda>r'. Inr (Poll_Ready (Inl e), Connecting_Done, r'))"

definition connect_finish :: "('h, 'fd, 'reg, 'p) os_calls \<Rightarrow> ('p, 'sw, 'ss, 'q, 'reg) crates \<Rightarrow>
    ('h \<Rightarrow> 'p \<Rightarrow> unit io_result \<times> 'p) \<Rightarrow> 'h async \<Rightarrow> ('p, 'sw, 'ss, 'q, 'reg) reactor \<Rightarrow>
    panic + 'h async io_result poll \<times> 'h connecting \<times> ('p, 'sw, 'ss, 'q, 'reg) reactor" where
  "connect_finish S E check stream r = rbind (async_get_ref stream) (\<lambda>h. case check h (poller r) of
       (Inl e, p) \<Rightarrow> connect_fail S E stream e (r\<lparr>poller := p\<rparr>)
     | (Inr _, p) \<Rightarrow> Inr (Poll_Ready (Inr stream), Connecting_Done, r\<lparr>poller := p\<rparr>))"

fun connecting_poll :: "('h, 'fd, 'reg, 'p) os_calls \<Rightarrow> ('p, 'sw, 'ss, 'q, 'reg) crates \<Rightarrow>
    ('h \<Rightarrow> 'p \<Rightarrow> unit io_result \<times> 'p) \<Rightarrow> waker \<Rightarrow> 'h connecting \<Rightarrow> ('p, 'sw, 'ss, 'q, 'reg) reactor \<Rightarrow>
    panic + 'h async io_result poll \<times> 'h connecting \<times> ('p, 'sw, 'ss, 'q, 'reg) reactor" where
  "connecting_poll S E check cx (Connecting_Wait stream f) r =
     rbind (poll_future E f cx (as_source stream) r) (\<lambda>(out, f', r'). case out of
         Poll_Pending \<Rightarrow> Inr (Poll_Pending, Connecting_Wait stream f', r')
       | Poll_Ready res \<Rightarrow> rbind (drop_future E f' (as_source stream) r') (\<lambda>r''. case res of
             Inl e \<Rightarrow> connect_fail S E stream e r''
           | Inr _ \<Rightarrow> connect_finish S E check stream r''))"
| "connecting_poll S E check cx Connecting_Done r =
     Inl (Expect_Failed ''async fn resumed after completion'')"

text \<open>Dropping the future while it waits drops the awaited future, then the stream.\<close>

fun connecting_drop :: "('h, 'fd, 'reg, 'p) os_calls \<Rightarrow> ('p, 'sw, 'ss, 'q, 'reg) crates \<Rightarrow>
    'h connecting \<Rightarrow> ('p, 'sw, 'ss, 'q, 'reg) reactor \<Rightarrow> panic + ('p, 'sw, 'ss, 'q, 'reg) reactor" where
  "connecting_drop S E (Connecting_Wait stream f) r =
     rbind (drop_future E f (as_source stream) r) (async_drop S E stream)"
| "connecting_drop S E Connecting_Done r = Inr r"

text \<open>The first poll: begin the connection, register the socket, and wait.\<close>

definition connecting_start :: "('h, 'fd, 'reg, 'p) os_calls \<Rightarrow> ('p, 'sw, 'ss, 'q, 'reg) crates \<Rightarrow>
    ('h \<Rightarrow> 'p \<Rightarrow> unit io_result \<times> 'p) \<Rightarrow> waker \<Rightarrow> 'h \<Rightarrow> ('p, 'sw, 'ss, 'q, 'reg) reactor \<Rightarrow>
    panic + 'h async io_result poll \<times> 'h connecting \<times> ('p, 'sw, 'ss, 'q, 'reg) reactor" where
  "connecting_start S E check cx h r = rbind (async_new_nonblocking S E h r) (\<lambda>(res, r'). case res of
       Inl e \<Rightarrow> Inr (Poll_Ready (Inl e), Connecting_Done, r')
     | Inr stream \<Rightarrow> connecting_poll S E check cx (Connecting_Wait stream (async_writable stream)) r')"

definition connect_first_poll :: "('h, 'fd, 'reg, 'p) os_calls \<Rightarrow> ('fd, 'a, 'p) net_calls \<Rightarrow>
    ('p, 'sw, 'ss, 'q, 'reg) crates \<Rightarrow> ('fd \<Rightarrow> 'h) \<Rightarrow> ('h \<Rightarrow> 'p \<Rightarrow> unit io_result \<times> 'p) \<Rightarrow>
    'a \<Rightarrow> address_family \<Rightarrow> protocol option \<Rightarrow> waker \<Rightarrow> bool \<Rightarrow> ('p, 'sw, 'ss, 'q, 'reg) reactor \<Rightarrow>
    panic + 'h async io_result poll \<times> 'h connecting \<times> bool \<times> ('p, 'sw, 'ss, 'q, 'reg) reactor" where
  "connect_first_poll S N E from_fd check addr domain proto cx started r =
     (case connect S N addr domain proto started (poller r) of
        (Inl e, started', p) \<Rightarrow> Inr (Poll_Ready (Inl e), Connecting_Done, started', r\<lparr>poller := p\<rparr>)
      | (Inr fd, started', p) \<Rightarrow>
          rbind (connecting_start S E check cx (from_fd fd) (r\<lparr>poller := p\<rparr>))
            (\<lambda>(out, st, r'). Inr (out, st, started', r')))"

text \<open>\<open>TcpStream\<close> looks at the pending error, \<open>UnixStream\<close> at the peer's address.\<close>

definition tcp_check :: "('h \<Rightarrow> 'p \<Rightarrow> io_error option io_result \<times> 'p) \<Rightarrow> 'h \<Rightarrow> 'p \<Rightarrow> unit io_result \<times> 'p" where
  "tcp_check take_error h p = (case take_error h p of
       (Inl e, p) \<Rightarrow> (Inl e, p)
     | (Inr None, p) \<Rightarrow> (Inr (), p)
     | (Inr (Some err), p) \<Rightarrow> (Inl err, p))"

definition tcp_connect_first_poll where
  "tcp_connect_first_poll S N E from_fd take_error into addr cx started r =
     (case tcp_domain (into addr) of (domain, sock_addr) \<Rightarrow>
        connect_first_poll S N E from_fd (tcp_check take_error) sock_addr domain (Some TCP) cx started r)"

definition unix_check :: "('h \<Rightarrow> 'p \<Rightarrow> 'x io_result \<times> 'p) \<Rightarrow> 'h \<Rightarrow> 'p \<Rightarrow> unit io_result \<times> 'p" where
  "unix_check peer_addr h p = (case peer_addr h p of
       (Inl e, p) \<Rightarrow> (Inl e, p)
     | (Inr _, p) \<Rightarrow> (Inr (), p))"

text \<open>\<open>SocketAddrUnix::new\<close> and \<open>new_abstract_name\<close> are calls of \<open>rustix\<close>.\<close>

definition convert_path_to_socket_address :: "target \<Rightarrow> (byte list \<Rightarrow> errno + 'a) \<Rightarrow>
    (byte list \<Rightarrow> errno + 'a) \<Rightarrow> byte list \<Rightarrow> 'a io_result" where
  "convert_path_to_socket_address T addr_new abstract_name path = map_sum io_error_of id
     (if T = Linux \<or> T = Android
      then case path of
          b # name \<Rightarrow> if b = 0 then abstract_name name else addr_new path
        | [] \<Rightarrow> addr_new path
      else addr_new path)"

definition unix_connect_first_poll where
  "unix_connect_first_poll S N E from_fd peer_addr addr_new abstract_name path cx started r =
     (case convert_path_to_socket_address (os_target S) addr_new abstract_name path of
        Inl e \<Rightarrow> Inr (Poll_Ready (Inl e), Connecting_Done, started, r)
      | Inr addr \<Rightarrow> connect_first_poll S N E from_fd (unix_check peer_addr) addr UNIX None cx started r)"

section \<open>Sending and receiving\<close>

text \<open>
  The methods that are one \<open>read_with\<close> or \<open>write_with\<close>: \<open>op\<close> is the method of the standard
  library with the same name. A receiving method writes its buffer, a sending one does not.
\<close>

definition send_op :: "('h \<Rightarrow> byte list \<Rightarrow> 'p \<Rightarrow> 'x io_result \<times> 'p) \<Rightarrow> 'h \<Rightarrow> byte list \<Rightarrow> 'p \<Rightarrow>
    'x io_result \<times> byte list \<times> 'p" where
  "send_op op h buf p = (case op h buf p of (res, p') \<Rightarrow> (res, buf, p'))"

definition tcp_peek_poll where "tcp_peek_poll E op cx st a (buf :: byte list) r = read_with_poll E op cx st a buf r"

definition udp_recv_from_poll where "udp_recv_from_poll E op cx st a (buf :: byte list) r = read_with_poll E op cx st a buf r"

definition udp_peek_from_poll where "udp_peek_from_poll E op cx st a (buf :: byte list) r = read_with_poll E op cx st a buf r"

definition udp_send_to_poll where
  "udp_send_to_poll E op into addr cx st a buf r = write_with_poll E (send_op (\<lambda>h b. op h b (into addr))) cx st a buf r"

definition udp_recv_poll where "udp_recv_poll E op cx st a (buf :: byte list) r = read_with_poll E op cx st a buf r"

definition udp_peek_poll where "udp_peek_poll E op cx st a (buf :: byte list) r = read_with_poll E op cx st a buf r"

definition udp_send_poll where "udp_send_poll E op cx st a buf r = write_with_poll E (send_op op) cx st a buf r"

definition unix_recv_from_poll where "unix_recv_from_poll E op cx st a (buf :: byte list) r = read_with_poll E op cx st a buf r"

definition unix_send_to_poll where
  "unix_send_to_poll E op (path :: byte list) cx st a buf r = write_with_poll E (send_op (\<lambda>h b. op h b path)) cx st a buf r"

definition unix_recv_poll where "unix_recv_poll E op cx st a (buf :: byte list) r = read_with_poll E op cx st a buf r"

definition unix_send_poll where "unix_send_poll E op cx st a buf r = write_with_poll E (send_op op) cx st a buf r"

end
