(* ===== verification/Net_Properties.thy ===== *)
theory Net_Properties
  imports Net Async_Properties
begin

text \<open>
  The properties of the network types: what \<open>connect\<close> returns on each target, what a connection
  attempt leaves behind however it ends, pairs, and the stream of accepted connections.
\<close>

section \<open>The calls on sockets\<close>

text \<open>
  \<open>owned p\<close> are the open descriptors. A quiet call changes neither them, nor their mode, nor what
  the poller watches; \<open>socket\<close> opens one, and closing gives it up.
\<close>

definition quiet :: "('p \<Rightarrow> 'w) \<Rightarrow> ('p \<Rightarrow> 'fd set) \<Rightarrow> ('p \<Rightarrow> 'fd \<Rightarrow> bool) \<Rightarrow> ('p \<Rightarrow> 'x \<times> 'p) \<Rightarrow> bool" where
  "quiet watched owned nb c \<longleftrightarrow> (\<forall>p. watched (snd (c p)) = watched p \<and> owned (snd (c p)) = owned p \<and>
     nb (snd (c p)) = nb p)"

definition opens_socket :: "('p \<Rightarrow> 'w) \<Rightarrow> ('p \<Rightarrow> 'fd set) \<Rightarrow> ('p \<Rightarrow> 'fd \<Rightarrow> bool) \<Rightarrow> bool \<Rightarrow>
    ('p \<Rightarrow> (errno + 'fd) \<times> 'p) \<Rightarrow> bool" where
  "opens_socket watched owned nb nonblock c \<longleftrightarrow> (\<forall>p. watched (snd (c p)) = watched p \<and> (case fst (c p) of
       Inl _ \<Rightarrow> owned (snd (c p)) = owned p
     | Inr fd \<Rightarrow> owned (snd (c p)) = insert fd (owned p) \<and> fd \<notin> owned p \<and> (nonblock \<longrightarrow> nb (snd (c p)) fd)))"

definition net_ok :: "('fd, 'a, 'p) net_calls \<Rightarrow> ('p \<Rightarrow> 'w) \<Rightarrow> ('p \<Rightarrow> 'fd set) \<Rightarrow> ('p \<Rightarrow> 'fd \<Rightarrow> bool) \<Rightarrow> bool" where
  "net_ok N watched owned nb \<longleftrightarrow>
     (\<forall>d t fl pr. opens_socket watched owned nb (NONBLOCK \<in> set fl) (n_socket N d t fl pr)) \<and>
     (\<forall>fd. quiet watched owned nb (n_getfd N fd)) \<and>
     (\<forall>fd fl. quiet watched owned nb (n_setfd N fd fl)) \<and>
     (\<forall>fd b. quiet watched owned nb (n_nosigpipe N fd b)) \<and>
     (\<forall>fd m fl. quiet watched owned nb (n_handle_info N fd m fl)) \<and>
     (\<forall>fd a. quiet watched owned nb (n_connect N fd a)) \<and>
     quiet watched owned nb (\<lambda>p. ((), n_startup N p)) \<and>
     (\<forall>fd p. watched (n_close N fd p) = watched p \<and> owned (n_close N fd p) = owned p - {fd})"

lemma net_okD:
  assumes "net_ok N watched owned nb"
  shows "opens_socket watched owned nb (NONBLOCK \<in> set fl) (n_socket N d t fl pr)"
    "quiet watched owned nb (n_getfd N fd)" "quiet watched owned nb (n_setfd N fd ff)"
    "quiet watched owned nb (n_nosigpipe N fd b)" "quiet watched owned nb (n_handle_info N fd ff m)"
    "quiet watched owned nb (n_connect N fd a)" "quiet watched owned nb (\<lambda>p. ((), n_startup N p))"
    "watched (n_close N fd p) = watched p \<and> owned (n_close N fd p) = owned p - {fd}"
  using assms by (simp_all add: net_ok_def)

lemma quietD:
  assumes "quiet watched owned nb c" "c p = (x, p')"
  shows "watched p' = watched p \<and> owned p' = owned p \<and> nb p' = nb p"
  using assms unfolding quiet_def by (metis snd_conv)

lemma quietI:
  assumes "\<And>p x p'. c p = (x, p') \<Longrightarrow> watched p' = watched p \<and> owned p' = owned p \<and> nb p' = nb p"
  shows "quiet watched owned nb c"
  unfolding quiet_def
proof
  show "watched (snd (c p)) = watched p \<and> owned (snd (c p)) = owned p \<and> nb (snd (c p)) = nb p" for p
    using assms [of p "fst (c p)" "snd (c p)"] by simp
qed

lemma opens_socketD:
  assumes "opens_socket watched owned nb nonblock c" "c p = (res, p')"
  shows "watched p' = watched p \<and> (case res of
       Inl _ \<Rightarrow> owned p' = owned p
     | Inr fd \<Rightarrow> owned p' = insert fd (owned p) \<and> fd \<notin> owned p \<and> (nonblock \<longrightarrow> nb p' fd))"
  using assms(1) [unfolded opens_socket_def, rule_format, of p] unfolding assms(2) fst_conv snd_conv .

lemma quiet_nothing: "quiet watched owned nb nothing"
  by (simp add: quiet_def nothing_def)

lemma sys_pair: "sys c p = (x, p') \<Longrightarrow> \<exists>y. c p = (y, p')"
  by (auto simp: sys_def split: prod.splits)

lemma quiet_sys:
  assumes "quiet watched owned nb c"
  shows "quiet watched owned nb (sys c)"
proof (rule quietI)
  fix p x p' assume "sys c p = (x, p')"
  then obtain y where "c p = (y, p')" by (auto dest: sys_pair)
  with assms show "watched p' = watched p \<and> owned p' = owned p \<and> nb p' = nb p" by (rule quietD)
qed

lemma quiet_set_cloexec:
  assumes "net_ok N watched owned nb"
  shows "quiet watched owned nb (set_cloexec T N fd)"
proof (rule quietI)
  fix p x p' assume out: "set_cloexec T N fd p = (x, p')"
  obtain res p1 where get: "sys (n_getfd N fd) p = (res, p1)" by force
  note g = quietD [OF quiet_sys [OF net_okD(2) [OF assms]] get]
  show "watched p' = watched p \<and> owned p' = owned p \<and> nb p' = nb p"
  proof (cases res)
    case (Inl e)
    with g get out show ?thesis by (auto simp: set_cloexec_def nothing_def split: if_splits)
  next
    case (Inr fl)
    obtain res2 p2 where "sys (n_setfd N fd (or fl (n_fd_cloexec N))) p1 = (res2, p2)" by force
    with g get out Inr quietD [OF quiet_sys [OF net_okD(3) [OF assms]] this] show ?thesis
      by (auto simp: set_cloexec_def nothing_def split: if_splits)
  qed
qed

lemma quiet_set_nosigpipe:
  "net_ok N watched owned nb \<Longrightarrow> quiet watched owned nb (set_nosigpipe T N fd)"
  using quiet_sys [OF net_okD(4) [of N watched owned nb fd True]] quiet_nothing [of watched owned nb]
  by (cases "T \<in> {Apple, Freebsd, Netbsd, Dragonfly}") (simp_all add: quiet_def set_nosigpipe_def)

lemma quiet_set_handle_info:
  assumes "net_ok N watched owned nb"
  shows "quiet watched owned nb (set_handle_info T N fd)"
proof (rule quietI)
  fix p x p' assume out: "set_handle_info T N fd p = (x, p')"
  obtain ok p1 where c: "n_handle_info N fd handle_flag_inherit handle_flag_inherit p = (ok, p1)" by force
  from quietD [OF net_okD(5) [OF assms] c] out c show "watched p' = watched p \<and> owned p' = owned p \<and> nb p' = nb p"
    by (auto simp: set_handle_info_def nothing_def split: if_splits)
qed

lemma quiet_begin_connect:
  assumes "net_ok N watched owned nb"
  shows "quiet watched owned nb (begin_connect T N fd a)"
proof (rule quietI)
  fix p x p' assume out: "begin_connect T N fd a p = (x, p')"
  obtain res p1 where c: "n_connect N fd a p = (res, p1)" by force
  from out c have "p' = p1" by (cases res) (auto simp: begin_connect_def split: if_splits)
  with quietD [OF net_okD(6) [OF assms] c] show "watched p' = watched p \<and> owned p' = owned p \<and> nb p' = nb p"
    by simp
qed

text \<open>Setting the mode leaves the open descriptors alone, when its calls do.\<close>

lemma set_nonblocking_keeps:
  assumes "os_ok S R owned nb"
  shows "owned (snd (set_nonblocking S fd p)) = owned p"
  using set_nonblocking_ok [OF assms, of fd p] by (metis prod.collapse)

section \<open>A socket in the making\<close>

text \<open>The socket \<open>fd\<close> is open beside those of \<open>p0\<close>; how a sequence of calls may end.\<close>

definition holds :: "('p \<Rightarrow> 'w) \<Rightarrow> ('p \<Rightarrow> 'fd set) \<Rightarrow> 'p \<Rightarrow> 'fd \<Rightarrow> 'p \<Rightarrow> bool" where
  "holds watched owned p0 fd p \<longleftrightarrow> watched p = watched p0 \<and> owned p = insert fd (owned p0) \<and> fd \<notin> owned p0"

definition socket_result :: "('p \<Rightarrow> 'w) \<Rightarrow> ('p \<Rightarrow> 'fd set) \<Rightarrow> ('p \<Rightarrow> 'fd \<Rightarrow> bool) \<Rightarrow> 'p \<Rightarrow>
    'fd io_result \<times> 'p \<Rightarrow> bool" where
  "socket_result watched owned nb p0 out \<longleftrightarrow> (case fst out of
       Inr fd \<Rightarrow> holds watched owned p0 fd (snd out) \<and> nb (snd out) fd
     | Inl _ \<Rightarrow> watched (snd out) = watched p0 \<and> owned (snd out) = owned p0)"

lemma socket_result_pair [simp]:
  "socket_result watched owned nb p0 (Inr fd, p) \<longleftrightarrow> holds watched owned p0 fd p \<and> nb p fd"
  "socket_result watched owned nb p0 (Inl e, p) \<longleftrightarrow> watched p = watched p0 \<and> owned p = owned p0"
  by (simp_all add: socket_result_def)

lemma sock_step_result:
  assumes N: "net_ok N watched owned nb" and h: "holds watched owned p0 fd p"
    and c: "\<And>x p'. c p = (x, p') \<Longrightarrow> holds watched owned p0 fd p'"
    and k: "\<And>x p'. c p = (Inr x, p') \<Longrightarrow> socket_result watched owned nb p0 (k x p')"
  shows "socket_result watched owned nb p0 (sock_step N fd c k p)"
proof -
  obtain res p' where out: "c p = (res, p')" by force
  show ?thesis
  proof (cases res)
    case (Inl e)
    with out c [OF out] net_okD(8) [OF N, of fd p'] show ?thesis by (auto simp: sock_step_def holds_def)
  next
    case (Inr x)
    with out k show ?thesis by (simp add: sock_step_def)
  qed
qed

lemma quiet_holds:
  assumes "quiet watched owned nb c" "c p = (x, p')" "holds watched owned p0 fd p"
  shows "holds watched owned p0 fd p' \<and> (nb p fd \<longrightarrow> nb p' fd)"
  using quietD [OF assms(1,2)] assms(3) by (simp add: holds_def)

lemma create_socket_result:
  assumes N: "net_ok N watched owned nb" and S: "os_ok S R watched nb" "os_ok S R owned nb"
  shows "socket_result watched owned nb p (create_socket S N domain proto p)"
proof (cases "atomic_flags (os_target S)")
  case True
  obtain res p1 where out: "n_socket N domain STREAM [CLOEXEC, NONBLOCK] proto p = (res, p1)" by force
  have "opens_socket watched owned nb True (n_socket N domain STREAM [CLOEXEC, NONBLOCK] proto)"
    using net_okD(1) [OF N, of "[CLOEXEC, NONBLOCK]" domain STREAM proto] by simp
  from opens_socketD [OF this out] True out show ?thesis
    by (cases res) (auto simp: create_socket_def sys_def holds_def simp del: atomic_flags.simps)
next
  case False
  let ?fl = "if lacks_cloexec (os_target S) then [] else [CLOEXEC]"
  obtain res p1 where out: "n_socket N domain STREAM ?fl proto p = (res, p1)" by force
  have o: "watched p1 = watched p \<and> (case res of Inl _ \<Rightarrow> owned p1 = owned p | Inr fd \<Rightarrow>
      owned p1 = insert fd (owned p) \<and> fd \<notin> owned p)"
    using opens_socketD [OF net_okD(1) [OF N] out] by (cases res) simp_all
  show ?thesis
  proof (cases res)
    case (Inl e)
    with False out o show ?thesis by (simp add: create_socket_def sys_def del: atomic_flags.simps)
  next
    case (Inr fd)
    with o have h: "holds watched owned p fd p1" by (simp add: holds_def)
    have "socket_result watched owned nb p (sock_step N fd (set_cloexec (os_target S) N fd) (\<lambda>_.
        sock_step N fd (set_nonblocking S fd) (\<lambda>_ p. (Inr fd, p))) p1)"
    proof (rule sock_step_result [OF N h])
      fix x p2 assume c: "set_cloexec (os_target S) N fd p1 = (x, p2)"
      then show h2: "holds watched owned p fd p2" using quiet_holds [OF quiet_set_cloexec [OF N] c h] by simp
    next
      fix x p2 assume c: "set_cloexec (os_target S) N fd p1 = (Inr x, p2)"
      then have h2: "holds watched owned p fd p2" using quiet_holds [OF quiet_set_cloexec [OF N] c h] by simp
      show "socket_result watched owned nb p (sock_step N fd (set_nonblocking S fd) (\<lambda>_ p. (Inr fd, p)) p2)"
      proof (rule sock_step_result [OF N h2])
        fix y p3 assume b: "set_nonblocking S fd p2 = (y, p3)"
        show "holds watched owned p fd p3"
          using set_nonblocking_ok [OF S(1) b] set_nonblocking_ok [OF S(2) b] h2 by (simp add: holds_def)
      next
        fix y p3 assume b: "set_nonblocking S fd p2 = (Inr y, p3)"
        show "socket_result watched owned nb p (Inr fd, p3)"
          using set_nonblocking_ok [OF S(1) b] set_nonblocking_ok [OF S(2) b] h2 by (simp add: holds_def)
      qed
    qed
    with False out Inr show ?thesis by (simp add: create_socket_def sys_def del: atomic_flags.simps)
  qed
qed

text \<open>The quiet steps after that.\<close>

lemma quiet_step_result:
  assumes N: "net_ok N watched owned nb" and q: "quiet watched owned nb c"
    and h: "holds watched owned p0 fd p" "nb p fd"
    and k: "\<And>x p'. holds watched owned p0 fd p' \<Longrightarrow> nb p' fd \<Longrightarrow> socket_result watched owned nb p0 (k x p')"
  shows "socket_result watched owned nb p0 (sock_step N fd c k p)"
proof (rule sock_step_result [OF N h(1)])
  show "holds watched owned p0 fd p'" if "c p = (x, p')" for x p' using quiet_holds [OF q that h(1)] by simp
  show "socket_result watched owned nb p0 (k x p')" if "c p = (Inr x, p')" for x p'
    using quiet_holds [OF q that h(1)] h(2) by (simp add: k)
qed

lemma connect_result:
  assumes N: "net_ok N watched owned nb" and S: "os_ok S R watched nb" "os_ok S R owned nb"
    and c: "connect S N addr domain proto started p = (res, started', p')"
  shows "socket_result watched owned nb p (res, p')"
proof -
  let ?T = "os_target S"
  obtain b p1 where p1: "setup_networking ?T N started p = (b, p1)" by force
  have "watched (n_startup N p) = watched p \<and> owned (n_startup N p) = owned p"
    using quietD [OF net_okD(7) [OF N] refl] by blast
  then have v: "watched p1 = watched p" "owned p1 = owned p"
    using p1 by (auto simp: setup_networking_def split: if_splits)
  obtain sres p2 where cs: "create_socket S N domain proto p1 = (sres, p2)" by force
  have sr: "socket_result watched owned nb p (sres, p2)"
    using create_socket_result [OF N S, of p1 domain proto] cs v by (cases sres) (simp_all add: holds_def)
  show ?thesis
  proof (cases sres)
    case (Inl e)
    with sr cs p1 c show ?thesis by (auto simp: connect_def)
  next
    case (Inr fd)
    with sr have h: "holds watched owned p fd p2" "nb p2 fd" by simp_all
    have "socket_result watched owned nb p (sock_step N fd (set_nosigpipe ?T N fd) (\<lambda>_.
        sock_step N fd (set_handle_info ?T N fd) (\<lambda>_.
        sock_step N fd (begin_connect ?T N fd addr) (\<lambda>_ p. (Inr fd, p)))) p2)"
      by (intro quiet_step_result [OF N quiet_set_nosigpipe [OF N] h] quiet_step_result [OF N quiet_set_handle_info [OF N]]
        quiet_step_result [OF N quiet_begin_connect [OF N]]) simp_all
    with cs p1 c Inr show ?thesis by (simp add: connect_def split: prod.splits)
  qed
qed

section \<open>The platform\<close>

text \<open>
  Unix: the poller's calls, the calls on descriptors and those on sockets speak of the same
  descriptors, and dropping a stream closes its descriptor.
\<close>

definition unix_net :: "('p, 'sw, 'ss, 'q, registration_unix) crates \<Rightarrow> (raw_fd, 'p) poller_fd_ops \<Rightarrow>
    ('h, raw_fd, registration_unix, 'p) os_calls \<Rightarrow> (raw_fd, 'a, 'p) net_calls \<Rightarrow>
    ('p \<Rightarrow> raw_fd \<Rightarrow> event option) \<Rightarrow> ('p \<Rightarrow> raw_fd set) \<Rightarrow> ('p \<Rightarrow> raw_fd \<Rightarrow> bool) \<Rightarrow> bool" where
  "unix_net E P S N watched owned nb \<longleftrightarrow>
     reg_calls E = unix_registration P \<and> fd_calls_ok P watched \<and> os_registration S = unix_new \<and>
     os_ok S (unix_registration P) watched nb \<and> os_ok S (unix_registration P) owned nb \<and>
     net_ok N watched owned nb \<and>
     (\<forall>fd e p. owned (snd (po_add P fd e p)) = owned p) \<and>
     (\<forall>fd e p. owned (snd (po_modify P fd e p)) = owned p) \<and>
     (\<forall>fd p. owned (snd (po_delete P fd p)) = owned p) \<and>
     (\<forall>h p. os_close S h p = n_close N (os_as_fd S h) p)"

lemma unix_netD:
  assumes "unix_net E P S N watched owned nb"
  shows "reg_calls E = unix_registration P" "fd_calls_ok P watched" "os_registration S = unix_new"
    "os_ok S (unix_registration P) watched nb" "os_ok S (unix_registration P) owned nb"
    "net_ok N watched owned nb" "owned (snd (reg_add (unix_registration P) g k p)) = owned p"
    "owned (snd (reg_modify (unix_registration P) g e p)) = owned p"
    "owned (snd (reg_delete (unix_registration P) g p)) = owned p"
    "owned (os_close S h p) = owned p - {os_as_fd S h}"
proof -
  from assms have N: "net_ok N watched owned nb" and c: "os_close S h p = n_close N (os_as_fd S h) p"
    by (simp_all add: unix_net_def)
  from net_okD(8) [OF N] c show "owned (os_close S h p) = owned p - {os_as_fd S h}" by simp
qed (use assms in \<open>simp_all add: unix_net_def unix_registration_defs\<close>)

text \<open>Waiting, and giving a handle up, as far as the open descriptors go.\<close>

lemma update_interest_keeps:
  assumes "\<And>g e p. own (snd (reg_modify (reg_calls E) g e p)) = own p"
    and "update_interest E was_empty s r = (res, r')"
  shows "own (poller r') = own (poller r)"
proof -
  obtain x p where "reg_modify (reg_calls E) (registration s) (interest_event E s) (poller r) = (x, p)" by force
  with assms(1) [of "registration s" "interest_event E s" "poller r"] assms(2) show ?thesis
    by (auto simp: update_interest_def split: if_splits sum.splits)
qed

lemma poll_future_keeps:
  assumes "reactor_ok E items r" "live E r x s" "future_ok E f d s"
    and "\<And>g e p. own (snd (reg_modify (reg_calls E) g e p)) = own p"
    and "poll_future E f cx x r = Inr (out, f', r')"
  shows "own (poller r') = own (poller r)"
  using assms(3)
proof (cases rule: ready_poll_cases [where cx = cx and r = r])
  case fresh
  with assms(2,5) show ?thesis by (auto simp: poll_future_def put_source_def)
next
  case (stored res r1 s1 f1 i sl)
  with assms(2,5) update_interest_keeps [OF assms(4) stored(10)] show ?thesis
    by (auto simp: poll_future_def put_source_def)
qed

lemma remove_io_poller:
  assumes "remove_io E s r = Inr (res, r')"
  shows "poller r' = snd (reg_delete (reg_calls E) (registration s) (poller r))"
proof -
  obtain x p where "reg_delete (reg_calls E) (registration s) (poller r) = (x, p)" by force
  with assms show ?thesis by (auto simp: remove_io_def rbind_eq_Inr_iff)
qed

lemma async_drop_cases:
  assumes "reactor_ok E items r" "live E r (as_source a) s" "as_io a = Some h"
    and "reg_calls E = unix_registration P" "fd_calls_ok P watched"
  obtains r' p where "async_drop S E a r = Inr r'" "reactor_ok E items r'"
    "source_at E r' = (source_at E r)(src_key s := None)" "poller r' = os_close S h p"
    "p = snd (reg_delete (unix_registration P) (registration s) (poller r))"
  using assms(1,2,4,5)
proof (cases rule: deregister_cases)
  case (1 res r1)
  have "poller r1 = snd (reg_delete (unix_registration P) (registration s) (poller r))"
    using remove_io_poller [OF 1(1)] assms(4) by simp
  moreover have "async_drop S E a r = Inr (r1\<lparr>poller := os_close S h (poller r1)\<rparr>)"
    using assms(2,3) 1(1) by (simp add: async_drop_def drop_handle_def)
  ultimately show ?thesis using 1 by (intro that [of "r1\<lparr>poller := os_close S h (poller r1)\<rparr>" "poller r1"]) simp_all
qed

section \<open>A connection on its way\<close>

lemma connect_fail_ok:
  assumes U: "unix_net E P S N watched owned nb" and ok: "reactor_ok E items r"
    and x: "live E r (as_source stream) s" and h: "as_io stream = Some h"
  obtains r' where "connect_fail S E stream e r = Inr (Poll_Ready (Inl e), Connecting_Done, r')"
    "reactor_ok E items r'" "source_at E r' = (source_at E r)(src_key s := None)"
    "owned (poller r') = owned (poller r) - {os_as_fd S h}"
proof -
  note D = unix_netD [OF U]
  obtain r' p where "async_drop S E stream r = Inr r'" "reactor_ok E items r'"
    "source_at E r' = (source_at E r)(src_key s := None)" "poller r' = os_close S h p"
    "p = snd (reg_delete (unix_registration P) (registration s) (poller r))"
    using async_drop_cases [where S = S, OF ok x h D(1,2)] by blast
  then show thesis using D(9,10) by (intro that [of r']) (simp_all add: connect_fail_def)
qed

lemma connect_finish_outcomes:
  assumes U: "unix_net E P S N watched owned nb" and check: "\<And>h. quiet watched owned nb (check h)"
    and ok: "reactor_ok E items r" and x: "live E r (as_source stream) s" and h: "as_io stream = Some h"
  obtains (failed) e r' where "connect_finish S E check stream r = Inr (Poll_Ready (Inl e), Connecting_Done, r')"
      "reactor_ok E items r'" "source_at E r' = (source_at E r)(src_key s := None)"
      "owned (poller r') = owned (poller r) - {os_as_fd S h}"
  | (connected) r' where "connect_finish S E check stream r = Inr (Poll_Ready (Inr stream), Connecting_Done, r')"
      "reactor_ok E items r'" "live E r' (as_source stream) s" "source_at E r' = source_at E r"
      "owned (poller r') = owned (poller r)"
proof -
  obtain res p where c: "check h (poller r) = (res, p)" by force
  have q: "owned p = owned (poller r)" using quietD [OF check c] by simp
  let ?r = "r\<lparr>poller := p\<rparr>"
  from ok x have ok1: "reactor_ok E items ?r" and x1: "live E ?r (as_source stream) s" by simp_all
  show thesis
  proof (cases res)
    case (Inl e)
    obtain r' where "connect_fail S E stream e ?r = Inr (Poll_Ready (Inl e), Connecting_Done, r')"
      "reactor_ok E items r'" "source_at E r' = (source_at E ?r)(src_key s := None)"
      "owned (poller r') = owned (poller ?r) - {os_as_fd S h}"
      by (rule connect_fail_ok [OF U ok1 x1 h])
    with Inl c h q show thesis by (intro failed [of e r']) (simp_all add: connect_finish_def async_get_ref_def)
  next
    case (Inr v)
    with c h q ok1 x1 show thesis
      by (intro connected [of ?r]) (simp_all add: connect_finish_def async_get_ref_def)
  qed
qed

lemma connecting_poll_outcomes:
  assumes U: "unix_net E P S N watched owned nb" and check: "\<And>h. quiet watched owned nb (check h)"
    and ok: "reactor_ok E items r" and x: "live E r (as_source stream) s" and h: "as_io stream = Some h"
    and f: "future_ok E f WRITE s"
  obtains (pending) f' r' s' where
      "connecting_poll S E check cx (Connecting_Wait stream f) r = Inr (Poll_Pending, Connecting_Wait stream f', r')"
      "reactor_ok E items r'" "live E r' (as_source stream) s'" "future_ok E f' WRITE s'" "task_waits E WRITE cx s'"
      "source_at E r' = (source_at E r)(src_key s \<mapsto> s')" "src_key s' = src_key s"
      "owned (poller r') = owned (poller r)"
  | (failed) e r' where
      "connecting_poll S E check cx (Connecting_Wait stream f) r = Inr (Poll_Ready (Inl e), Connecting_Done, r')"
      "reactor_ok E items r'" "source_at E r' = (source_at E r)(src_key s := None)"
      "owned (poller r') = owned (poller r) - {os_as_fd S h}"
  | (connected) r' s' where
      "connecting_poll S E check cx (Connecting_Wait stream f) r = Inr (Poll_Ready (Inr stream), Connecting_Done, r')"
      "reactor_ok E items r'" "live E r' (as_source stream) s'" "fresh_event (rf_ticks f) (tick (src_state s WRITE))"
      "source_at E r' = (source_at E r)(src_key s \<mapsto> s')" "src_key s' = src_key s"
      "owned (poller r') = owned (poller r)"
  using ok x f
proof (cases rule: poll_future_cases [where cx = cx])
  case (1 res f' s1 p r1)
  note D = unix_netD [OF U]
  have own1: "owned (poller r1) = owned (poller r)"
    using poll_future_keeps [OF ok x f, of owned] D(1,8) 1(2) by simp
  have key1: "src_key s1 = src_key s" using ready_poll_frame(2) [OF f 1(1)] .
  show thesis
  proof (cases res)
    case Poll_Pending
    have "ready_poll_as E f WRITE cx s r = Inr (Poll_Pending, f', s1, r\<lparr>poller := p\<rparr>)"
      using 1(1) Poll_Pending by (simp add: ready_poll_as_def)
    from rp.pending [OF f this] have "future_ok E f' WRITE s1" "task_waits E WRITE cx s1"
      by (simp_all add: task_waits_def)
    with Poll_Pending 1 own1 key1 show thesis by (intro pending [of f' r1 s1]) simp_all
  next
    case (Poll_Ready x2)
    obtain s2 r2 where dr: "drop_future E f' (as_source stream) r1 = Inr r2" "r2 = put_source (as_source stream) s2 r1"
      "reactor_ok E items r2" "live E r2 (as_source stream) s2" "source_at E r2 = (source_at E r1)(src_key s1 \<mapsto> s2)"
      using 1(4,5) by (cases rule: drop_future_cases [where f = f']) auto
    have key2: "src_key s2 = src_key s1"
      using dr(3,4,5) sources_ok_key [of E r2 "src_key s1" s2] by (simp add: reactor_ok_def)
    have src2: "source_at E r2 = (source_at E r)(src_key s \<mapsto> s2)" using dr(5) 1(7) key1 by simp
    have own2: "owned (poller r2) = owned (poller r)" using dr(2) own1 by (simp add: put_source_def)
    note poll = 1(2) Poll_Ready dr(1)
    show thesis
    proof (cases x2)
      case (Inl e)
      obtain r' where F: "connect_fail S E stream e r2 = Inr (Poll_Ready (Inl e), Connecting_Done, r')"
        "reactor_ok E items r'" "source_at E r' = (source_at E r2)(src_key s2 := None)"
        "owned (poller r') = owned (poller r2) - {os_as_fd S h}"
        by (rule connect_fail_ok [OF U dr(3,4) h])
      with poll Inl src2 own2 key1 key2 show thesis by (intro failed [of e r']) simp_all
    next
      case (Inr u)
      have tk: "fresh_event (rf_ticks f) (tick (src_state s WRITE))"
        using rp.only_fresh [OF f, of cx r] 1(1) Poll_Ready Inr by (simp add: ready_poll_as_def)
      show thesis
        using U check dr(3,4) h
      proof (cases rule: connect_finish_outcomes [where check = check])
        case finish: (failed e r')
        with poll Inr src2 own2 key1 key2 show thesis by (intro failed [of e r']) simp_all
      next
        case finish: (connected r')
        with poll Inr src2 own2 key1 key2 tk show thesis by (intro connected [of r' s2]) simp_all
      qed
    qed
  qed
qed

text \<open>The first wait cannot end with the stream: it has registered no ticks yet.\<close>

lemma connecting_start_outcomes:
  assumes U: "unix_net E P S N watched owned nb" and check: "\<And>h. quiet watched owned nb (check h)"
    and ok: "reactor_ok E items r"
  obtains (failed) e r' where "connecting_start S E check cx h r = Inr (Poll_Ready (Inl e), Connecting_Done, r')"
      "reactor_ok E items r'" "source_at E r' = source_at E r" "owned (poller r') = owned (poller r) - {os_as_fd S h}"
  | (pending) stream f s r' where
      "connecting_start S E check cx h r = Inr (Poll_Pending, Connecting_Wait stream f, r')"
      "reactor_ok E items r'" "as_io stream = Some h" "live E r' (as_source stream) s"
      "future_ok E f WRITE s" "task_waits E WRITE cx s" "source_at E r (src_key s) = None"
      "source_at E r' = (source_at E r)(src_key s \<mapsto> s)" "owned (poller r') = owned (poller r)"
proof -
  note D = unix_netD [OF U]
  show thesis
    using ok D(1,2,3)
  proof (cases rule: async_new_nonblocking_ok [where h = h])
    case (refused e r' g k p)
    have "owned (poller r') = owned (poller r) - {os_as_fd S h}" using refused(4,6) D(1,7,10) by simp
    with refused show thesis by (intro failed [of e r']) (simp_all add: connecting_start_def)
  next
    case (opened a s e g k r1)
    have own1: "owned (poller r1) = owned (poller r)" using opened(10) D(1,7) by simp
    have "slab_ok (wslab E)" using ok by (auto simp: reactor_ok_def timers_ok_def)
    then have f: "future_ok E (async_writable a) WRITE s" by (simp add: async_writable_def source_writable_def)
    have start: "connecting_start S E check cx h r = connecting_poll S E check cx (Connecting_Wait a (async_writable a)) r1"
      using opened(1) by (simp add: connecting_start_def del: connecting_poll.simps)
    show thesis
      using U check opened(2,4,3) f
    proof (cases rule: connecting_poll_outcomes [where cx = cx and check = check])
      case wait: (pending f' r' s')
      with start opened(3,6,7) own1 show thesis
        by (intro pending [of a f' r' s']) (simp_all del: connecting_poll.simps)
    next
      case wait: (failed e r')
      with start opened(6,7) own1 show thesis
        by (intro failed [of e r']) (simp_all add: fun_upd_idem del: connecting_poll.simps)
    next
      case (connected r' s')
      then show thesis by (simp add: async_writable_def source_writable_def source_ready_def)
    qed
  qed
qed

section \<open>Pairs and accepted connections\<close>

text \<open>The second half of a pair, when the first handle is open.\<close>

lemma pair_second_outcomes:
  assumes U: "unix_net E P S N watched owned nb" and ok: "reactor_ok E items r"
    and x: "live E r (as_source a1) s1" and h: "as_io a1 = Some h1"
    and second: "second = rbind (async_new S E h2 r) (\<lambda>(res2, r2). case res2 of
          Inl e \<Rightarrow> rbind (async_drop S E a1 r2) (\<lambda>r3. Inr (Inl e, r3))
        | Inr a2 \<Rightarrow> Inr (Inr (a1, a2), r2))"
  obtains (opened) a2 s2 r2 where "second = Inr (Inr (a1, a2), r2)" "reactor_ok E items r2"
      "live E r2 (as_source a1) s1" "live E r2 (as_source a2) s2" "src_key s1 \<noteq> src_key s2"
      "as_io a2 = Some h2" "owned (poller r2) = owned (poller r)"
  | (refused) e r3 where "second = Inr (Inl e, r3)" "reactor_ok E items r3"
      "source_at E r3 = (source_at E r)(src_key s1 := None)"
      "owned (poller r3) = owned (poller r) - {os_as_fd S h1, os_as_fd S h2}"
proof -
  note D = unix_netD [OF U]
  show thesis
    using ok D(1,2,4,3) set_nonblocking_keeps [OF D(5)] D(7)
  proof (cases rule: async_new_cases [where h = h2])
    case new: (opened a2 s2 e2 r2)
    have "live E r2 (as_source a1) s1" by (rule async_new_keeps_live [OF ok x new(1)])
    moreover have "src_key s1 \<noteq> src_key s2" using live_source_ne [OF x] new(6) by auto
    ultimately show thesis using second new by (intro opened [of a2 r2 s2]) simp_all
  next
    case new: (refused e r2 p2)
    have x2: "live E r2 (as_source a1) s1" by (rule async_new_keeps_live [OF ok x new(1)])
    obtain r3 p3 where drop: "async_drop S E a1 r2 = Inr r3" "reactor_ok E items r3"
      "source_at E r3 = (source_at E r2)(src_key s1 := None)" "poller r3 = os_close S h1 p3"
      "p3 = snd (reg_delete (unix_registration P) (registration s1) (poller r2))"
      by (rule async_drop_cases [OF new(2) x2 h D(1,2)])
    have "owned (poller r3) = owned (poller r) - {os_as_fd S h1, os_as_fd S h2}"
      using drop(4,5) D(9,10) new(4,6) by auto
    with second new drop show thesis by (intro refused [of e r3]) simp_all
  qed
qed

text \<open>One poll of \<open>accept\<close>.\<close>

lemma accept_poll_outcomes:
  assumes U: "unix_net E P S N watched owned nb" and ok: "reactor_ok E items r"
    and x: "live E r (as_source a) s" and h: "as_io a = Some h" and st: "with_ok E READ st s"
  obtains (pending) st' s' r' where "accept_poll S E acc cx st a r = Some (Inr (Poll_Pending, st', a, r'))"
      "reactor_ok E items r'" "live E r' (as_source a) s'" "with_ok E READ st' s'" "task_waits E READ cx s'"
  | (failed) e s' r' where "accept_poll S E acc cx st a r = Some (Inr (Poll_Ready (Inl e), With_Done, a, r'))"
      "reactor_ok E items r'" "live E r' (as_source a) s'"
  | (accepted) b g addr sb s' r' where
      "accept_poll S E acc cx st a r = Some (Inr (Poll_Ready (Inr (b, addr)), With_Done, a, r'))"
      "reactor_ok E items r'" "live E r' (as_source a) s'" "as_io b = Some g" "live E r' (as_source b) sb"
      "src_key sb \<noteq> src_key s'" "nb (poller r') (os_as_fd S g)"
proof -
  note D = unix_netD [OF U]
  let ?op = "shared_op (\<lambda>h (_ :: unit) p. case acc h p of (res, p') \<Rightarrow> (res, (), p'))"
  obtain res p where out: "acc h (poller r) = (res, p)" by force
  have a: "a\<lparr>as_io := Some h\<rparr> = a" using h by (cases a) simp
  have "?op h () (poller r) = (res, h, (), p)" using out by (simp add: shared_op_def)
  from io_with_returns [where op = ?op and b = "()", OF ok x h st this, of cx]
  obtain o1 st1 r1 s1 where run: "io_with_poll E READ ?op cx st a () r = Some (Inr (o1, st1, a, (), r1))"
    and ok1: "reactor_ok E items r1" and x1: "live E r1 (as_source a) s1"
    and wait: "o1 = Poll_Pending \<Longrightarrow> with_ok E READ st1 s1 \<and> task_waits E READ cx s1"
    unfolding with_outcome_def a by (auto split: if_splits)
  show thesis
  proof (cases o1)
    case Poll_Pending
    with run ok1 x1 wait show thesis by (intro pending [of st1 r1 s1]) (simp_all add: accept_poll_def read_with_poll_def)
  next
    case (Poll_Ready y)
    show thesis
    proof (cases y)
      case (Inl e)
      with run Poll_Ready ok1 x1 show thesis
        by (intro failed [of e r1 s1]) (simp_all add: accept_poll_def read_with_poll_def)
    next
      case (Inr conn)
      obtain g addr where conn: "conn = (g, addr)" by force
      have new: "accept_poll S E acc cx st a r = Some (rbind (async_new S E g r1) (\<lambda>(res, r''). Inr (Poll_Ready (case res of
          Inl e \<Rightarrow> Inl e | Inr s \<Rightarrow> Inr (s, addr)), With_Done, a, r'')))"
        using run Poll_Ready Inr conn by (simp add: accept_poll_def read_with_poll_def)
      show thesis
        using ok1 D(1,2,4,3) set_nonblocking_keeps [OF D(5)] D(7)
      proof (cases rule: async_new_cases [where h = g])
        case (opened b sb e r2)
        have "live E r2 (as_source a) s1" by (rule async_new_keeps_live [OF ok1 x1 opened(1)])
        moreover have "src_key sb \<noteq> src_key s1" using live_source_ne [OF x1] opened(6) by auto
        ultimately show thesis using new opened by (intro accepted [of b addr r2 s1 g sb]) simp_all
      next
        case (refused e r2 p2)
        have "live E r2 (as_source a) s1" by (rule async_new_keeps_live [OF ok1 x1 refused(1)])
        with new refused show thesis by (intro failed [of e r2 s1]) simp_all
      qed
    qed
  qed
qed

section \<open>Sockets to evaluate on\<close>

definition sim_net :: "(raw_fd, nat, sim_poller) net_calls" where
  "sim_net = \<lparr>
     n_socket = (\<lambda>d t fl pr p. case List.find (\<lambda>fd. fd \<notin> set (sp_open p)) [7, 8, 9] of
         None \<Rightarrow> (Inl (Errno 24), p)
       | Some fd \<Rightarrow> (Inr fd, p\<lparr>sp_open := fd # sp_open p, sp_nonblock := (sp_nonblock p)(fd := NONBLOCK \<in> set fl)\<rparr>)),
     n_getfd = (\<lambda>fd p. (Inr 0, p)), n_setfd = (\<lambda>fd fl p. (Inr (), p)), n_fd_cloexec = 1,
     n_nosigpipe = (\<lambda>fd b p. (Inr (), p)), n_handle_info = (\<lambda>fd m fl p. (1, p)), n_last_error = (\<lambda>p. Os_Error 6),
     n_connect = (\<lambda>fd a p. (Inl INPROGRESS, p)), n_close = sim_close, n_startup = id\<rparr>"

definition sim_owned :: "sim_poller \<Rightarrow> raw_fd set" where
  "sim_owned p = set (sp_open p)"

lemma sim_net_ok [simp, intro]: "net_ok sim_net sp_watched sim_owned sp_nonblock"
proof -
  have "opens_socket sp_watched sim_owned sp_nonblock (NONBLOCK \<in> set fl) (n_socket sim_net d t fl pr)" for d t fl pr
    by (auto simp: opens_socket_def sim_net_def sim_owned_def split: option.splits dest!: find_Some_iff [THEN iffD1])
  moreover have "quiet sp_watched sim_owned sp_nonblock (n_getfd sim_net fd)"
    "quiet sp_watched sim_owned sp_nonblock (n_setfd sim_net fd fl)"
    "quiet sp_watched sim_owned sp_nonblock (n_nosigpipe sim_net fd b)"
    "quiet sp_watched sim_owned sp_nonblock (n_handle_info sim_net fd m fl)"
    "quiet sp_watched sim_owned sp_nonblock (n_connect sim_net fd a)"
    "quiet sp_watched sim_owned sp_nonblock (\<lambda>p. ((), n_startup sim_net p))" for fd fl b m a
    by (simp_all add: quiet_def sim_net_def)
  moreover have "sp_watched (n_close sim_net fd p) = sp_watched p \<and> sim_owned (n_close sim_net fd p) = sim_owned p - {fd}" for fd p
    by (simp add: sim_net_def sim_close_def sim_owned_def)
  ultimately show ?thesis unfolding net_ok_def by blast
qed

lemma sim_unix_net [simp, intro]: "unix_net sim sim_fd_calls sim_os sim_net sp_watched sim_owned sp_nonblock"
proof -
  have "sp_nonblock (snd (reg_add (unix_registration sim_fd_calls) g k p)) = sp_nonblock p" for g k p
    by (simp add: unix_registration_defs sim_fd_calls_def sim_set_def)
  then have "os_ok sim_os (unix_registration sim_fd_calls) sim_owned sp_nonblock"
    unfolding os_ok_def by (auto simp: sim_os_def sim_owned_def)
  moreover have "sim_owned (snd (po_add sim_fd_calls fd e p)) = sim_owned p"
    "sim_owned (snd (po_modify sim_fd_calls fd e p)) = sim_owned p"
    "sim_owned (snd (po_delete sim_fd_calls fd p)) = sim_owned p" for fd e p
    by (auto simp: sim_fd_calls_def sim_set_def sim_owned_def Let_def split: list.splits option.splits)
  moreover have "os_close sim_os h p = n_close sim_net (os_as_fd sim_os h) p" "os_registration sim_os = unix_new" for h p
    by (simp_all add: sim_os_def sim_net_def)
  ultimately show ?thesis unfolding unix_net_def by (simp add: sim_os_ok sim_fd_calls_ok sim_net_ok)
qed

section \<open>Properties\<close>

text \<open>
  C33. \<open>connect\<close> returns an open socket in non-blocking mode, on every target and by either way of
  creating it, or it returns an error and has closed the socket it had created; nothing else is
  opened, closed or registered.
\<close>

theorem connect_opens_nonblocking_or_closes:
  assumes "net_ok N watched owned nb" "os_ok S R watched nb" "os_ok S R owned nb"
    and "connect S N addr domain proto started p = (res, started', p')"
  shows "watched p' = watched p \<and> (case res of
      Inr fd \<Rightarrow> fd \<notin> owned p \<and> owned p' = insert fd (owned p) \<and> nb p' fd
    | Inl e \<Rightarrow> owned p' = owned p)"
  using connect_result [OF assms] by (cases res) (simp_all add: holds_def)

theorem connect_opens_nonblocking_or_closes_witness:
  "\<exists>p'. connect sim_os sim_net 3 INET (Some TCP) False (sim_poller_new [] []) = (Inr 7, False, p') \<and> sp_nonblock p' 7"
proof -
  obtain p' where c: "connect sim_os sim_net 3 INET (Some TCP) False (sim_poller_new [] []) = (Inr 7, False, p')"
    by (simp add: connect_def setup_networking_def create_socket_def sys_def sock_step_def set_nosigpipe_def
        set_handle_info_def begin_connect_def nothing_def sim_net_def sim_os_def sim_poller_new_def)
  from sim_unix_net have "os_ok sim_os (unix_registration sim_fd_calls) sim_owned sp_nonblock" by (simp add: unix_net_def)
  with connect_opens_nonblocking_or_closes [OF sim_net_ok sim_os_ok _ c] c show ?thesis by auto
qed

text \<open>
  C34. The first poll of a TCP or Unix \<open>connect\<close>, once the address is known, does not panic and leaves
  nothing behind when it fails: no source and no open socket. Otherwise it is pending, with one new
  source, one new open socket, and a waker of the task waiting for writability; it never completes
  with a stream.
\<close>

theorem connect_first_poll_all_or_nothing:
  assumes U: "unix_net E P S N watched owned nb" and check: "\<And>h. quiet watched owned nb (check h)"
    and ok: "reactor_ok E items r" and fd: "\<And>fd. os_as_fd S (from_fd fd) = fd"
  shows "\<exists>out st started' r'.
    connect_first_poll S N E from_fd check addr domain proto cx started r = Inr (out, st, started', r') \<and>
    reactor_ok E items r' \<and>
    ((\<exists>e. out = Poll_Ready (Inl e)) \<and> st = Connecting_Done \<and> source_at E r' = source_at E r \<and>
       owned (poller r') = owned (poller r) \<or>
     (\<exists>socket stream f s. out = Poll_Pending \<and> st = Connecting_Wait stream f \<and>
       as_io stream = Some (from_fd socket) \<and> live E r' (as_source stream) s \<and>
       future_ok E f WRITE s \<and> task_waits E WRITE cx s \<and> source_at E r (src_key s) = None \<and>
       source_at E r' = (source_at E r)(src_key s \<mapsto> s) \<and>
       socket \<notin> owned (poller r) \<and> owned (poller r') = insert socket (owned (poller r))))"
proof -
  note D = unix_netD [OF U]
  obtain res started' p where c: "connect S N addr domain proto started (poller r) = (res, started', p)"
    using prod_cases3 by blast
  note R = connect_result [OF D(6,4,5) c]
  let ?r = "r\<lparr>poller := p\<rparr>"
  show ?thesis
  proof (cases res)
    case (Inl e)
    with c R ok show ?thesis by (simp add: connect_first_poll_def)
  next
    case (Inr socket)
    with R have h: "owned p = insert socket (owned (poller r))" "socket \<notin> owned (poller r)" by (simp_all add: holds_def)
    from ok have ok1: "reactor_ok E items ?r" by simp
    have first: "connect_first_poll S N E from_fd check addr domain proto cx started r =
        rbind (connecting_start S E check cx (from_fd socket) ?r) (\<lambda>(out, st, r'). Inr (out, st, started', r'))"
      using c Inr by (simp add: connect_first_poll_def)
    show ?thesis
      using U check ok1
    proof (cases rule: connecting_start_outcomes [where cx = cx and check = check and h = "from_fd socket"])
      case (failed e r')
      with first h fd show ?thesis by simp
    next
      case (pending stream f s r')
      with first h show ?thesis by fastforce
    qed
  qed
qed

theorem connect_first_poll_all_or_nothing_witness:
  "\<exists>out st b r'. connect_first_poll sim_os sim_net sim id (\<lambda>h p. (Inr (), p)) 3 INET (Some TCP) 5 False
      (sim_reactor [] []) = Inr (out, st, b, r') \<and> reactor_ok sim id r'"
proof -
  have "quiet sp_watched sim_owned sp_nonblock (\<lambda>p. (Inr () :: unit io_result, p))" by (simp add: quiet_def)
  moreover have "os_as_fd sim_os (id fd) = fd" for fd by (simp add: sim_os_def)
  ultimately show ?thesis
    using connect_first_poll_all_or_nothing [OF sim_unix_net _ sim_reactor_ok, where from_fd = id and check = "\<lambda>h p. (Inr (), p)"]
    by blast
qed


text \<open>
  C35. A later poll of \<open>connect\<close> does not panic. It is pending as before; or it fails, and the
  stream's source is gone and its socket closed; or it returns the stream that was opened, still
  registered and open, and that only after an event for writability has arrived.
\<close>

theorem connect_later_poll_keeps_or_releases:
  assumes "unix_net E P S N watched owned nb" "\<And>h. quiet watched owned nb (check h)"
    and "reactor_ok E items r" "live E r (as_source stream) s" "as_io stream = Some h" "future_ok E f WRITE s"
  shows "\<exists>out st r'. connecting_poll S E check cx (Connecting_Wait stream f) r = Inr (out, st, r') \<and>
    reactor_ok E items r' \<and> (case out of
      Poll_Pending \<Rightarrow> \<exists>f' s'. st = Connecting_Wait stream f' \<and> live E r' (as_source stream) s' \<and>
        future_ok E f' WRITE s' \<and> task_waits E WRITE cx s' \<and> owned (poller r') = owned (poller r)
    | Poll_Ready (Inl e) \<Rightarrow> source_at E r' = (source_at E r)(src_key s := None) \<and>
        owned (poller r') = owned (poller r) - {os_as_fd S h}
    | Poll_Ready (Inr stream') \<Rightarrow> stream' = stream \<and> fresh_event (rf_ticks f) (tick (src_state s WRITE)) \<and>
        (\<exists>s'. live E r' (as_source stream) s') \<and> owned (poller r') = owned (poller r))"
  using assms
proof (cases rule: connecting_poll_outcomes [where cx = cx and check = check])
  case (pending f' r' s')
  then show ?thesis by simp blast
next
  case (failed e r')
  then show ?thesis by simp
next
  case (connected r' s')
  then show ?thesis by simp blast
qed

theorem connect_later_poll_keeps_or_releases_witness:
  "\<exists>out st r'. connecting_poll sim_os sim (\<lambda>h p. (Inr (), p)) 5 (Connecting_Wait sim_handle (source_ready WRITE)) (sim_open []) =
     Inr (out, st, r') \<and> reactor_ok sim id r'"
proof -
  have "quiet sp_watched sim_owned sp_nonblock (\<lambda>p. (Inr () :: unit io_result, p))" by (simp add: quiet_def)
  moreover have "future_ok sim (source_ready WRITE) WRITE sim_source" by (simp add: future_ok_new)
  ultimately show ?thesis
    using connect_later_poll_keeps_or_releases [OF sim_unix_net _ sim_open_ok sim_open_live sim_handle_io, where check = "\<lambda>h p. (Inr (), p)"]
    by blast
qed


text \<open>
  C36. \<open>UnixStream::pair\<close> and \<open>UnixDatagram::pair\<close> do not panic and give both handles, each open and
  registered under a key of its own, or none: on an error the sources and the open descriptors are
  as they were.
\<close>

theorem pair_all_or_nothing:
  assumes U: "unix_net E P S N watched owned nb" and ok: "reactor_ok E items r"
    and pair: "\<And>p. case pair p of
        (Inl e, p') \<Rightarrow> owned p' = owned p
      | (Inr (h1, h2), p') \<Rightarrow> os_as_fd S h1 \<notin> owned p \<and> os_as_fd S h2 \<notin> owned p \<and>
          owned p' = insert (os_as_fd S h1) (insert (os_as_fd S h2) (owned p))"
    and which: "open_pair = unix_stream_pair \<or> open_pair = unix_datagram_pair"
  shows "\<exists>res r'. open_pair S E pair r = Inr (res, r') \<and> reactor_ok E items r' \<and> (case res of
      Inl e \<Rightarrow> source_at E r' = source_at E r \<and> owned (poller r') = owned (poller r)
    | Inr (a1, a2) \<Rightarrow> \<exists>h1 h2 s1 s2. as_io a1 = Some h1 \<and> as_io a2 = Some h2 \<and> live E r' (as_source a1) s1 \<and>
        live E r' (as_source a2) s2 \<and> src_key s1 \<noteq> src_key s2 \<and>
        owned (poller r') = insert (os_as_fd S h1) (insert (os_as_fd S h2) (owned (poller r))))"
proof -
  note D = unix_netD [OF U]
  obtain res p where c: "pair (poller r) = (res, p)" by force
  let ?r = "r\<lparr>poller := p\<rparr>"
  from ok have ok1: "reactor_ok E items ?r" by simp
  have start: "open_pair S E pair r = async_pair S E pair r"
    using which by (auto simp: unix_stream_pair_def unix_datagram_pair_def)
  show ?thesis
  proof (cases res)
    case (Inl e)
    with c pair [of "poller r"] ok1 start show ?thesis by (simp add: async_pair_def)
  next
    case (Inr hs)
    obtain h1 h2 where hs: "hs = (h1, h2)" by force
    from pair [of "poller r"] c Inr hs have o: "os_as_fd S h1 \<notin> owned (poller r)" "os_as_fd S h2 \<notin> owned (poller r)"
      "owned p = insert (os_as_fd S h1) (insert (os_as_fd S h2) (owned (poller r)))" by simp_all
    show ?thesis
      using ok1 D(1,2,4,3) set_nonblocking_keeps [OF D(5)] D(7)
    proof (cases rule: async_new_cases [where h = h1])
      case (refused e r1 p1)
      have "owned (os_close S h2 (poller r1)) = owned (poller r)" using refused(4,6) D(10) o by auto
      with refused c Inr hs start show ?thesis by (simp add: async_pair_def drop_handle_def)
    next
      case (opened a1 s1 e1 r1)
      show ?thesis
        using U opened(2,4,3) refl
      proof (cases rule: pair_second_outcomes [where ?h2.0 = h2])
        case second: (opened a2 s2 r2)
        with opened(1,3,11) c Inr hs start o show ?thesis by (simp add: async_pair_def) blast
      next
        case second: (refused e r3)
        have "source_at E r3 = source_at E r" using second(3) opened(6,7) by (simp add: fun_upd_idem)
        moreover have "owned (poller r3) = owned (poller r)" using second(4) opened(11) o by auto
        ultimately show ?thesis using second(1,2) opened(1) c Inr hs start by (simp add: async_pair_def)
      qed
    qed
  qed
qed

text \<open>A pair of descriptors, while none is open.\<close>

definition sim_pair :: "sim_poller \<Rightarrow> (raw_fd \<times> raw_fd) io_result \<times> sim_poller" where
  "sim_pair p = (if sp_open p = [] then (Inr (7, 8), p\<lparr>sp_open := [7, 8]\<rparr>) else (Inl (Os_Error 24), p))"

theorem pair_all_or_nothing_witness:
  "\<exists>res r'. unix_stream_pair sim_os sim sim_pair (sim_reactor [] []) = Inr (res, r') \<and> reactor_ok sim id r'"
proof -
  have "case sim_pair p of
        (Inl e, p') \<Rightarrow> sim_owned p' = sim_owned p
      | (Inr (h1, h2), p') \<Rightarrow> os_as_fd sim_os h1 \<notin> sim_owned p \<and> os_as_fd sim_os h2 \<notin> sim_owned p \<and>
          sim_owned p' = insert (os_as_fd sim_os h1) (insert (os_as_fd sim_os h2) (sim_owned p))" for p
    by (simp add: sim_pair_def sim_owned_def sim_os_def)
  from pair_all_or_nothing [OF sim_unix_net sim_reactor_ok this] show ?thesis by blast
qed


text \<open>
  C37. \<open>TcpListener::incoming\<close> and \<open>UnixListener::incoming\<close>: a poll returns, does not panic, and leaves
  the listener open and ready for the next poll. The stream never ends. An item is an error or a
  new connection, which is registered and in non-blocking mode; a pending poll leaves a waker of the
  task on the listener.
\<close>

theorem incoming_yields_registered_streams:
  assumes "unix_net E P S N watched owned nb" "reactor_ok E items r"
    and "live E r (as_source a) s" "as_io a = Some h" "with_ok E READ st s"
    and which: "incoming = tcp_incoming_poll \<or> incoming = unix_incoming_poll"
  shows "\<exists>out st' r' s'. incoming S E acc cx st a r = Some (Inr (out, st', a, r')) \<and>
    reactor_ok E items r' \<and> live E r' (as_source a) s' \<and> with_ok E READ st' s' \<and> (case out of
      Poll_Pending \<Rightarrow> task_waits E READ cx s'
    | Poll_Ready None \<Rightarrow> False
    | Poll_Ready (Some (Inl e)) \<Rightarrow> True
    | Poll_Ready (Some (Inr b)) \<Rightarrow> \<exists>g sb. as_io b = Some g \<and> live E r' (as_source b) sb \<and>
        src_key sb \<noteq> src_key s' \<and> nb (poller r') (os_as_fd S g))"
proof -
  have start: "incoming S E acc cx st a r = incoming_poll S E acc cx st a r"
    using which by (auto simp: tcp_incoming_poll_def unix_incoming_poll_def)
  show ?thesis
    using assms(1-5)
  proof (cases rule: accept_poll_outcomes [where acc = acc and cx = cx])
    case (pending st' s' r')
    then show ?thesis unfolding start by (simp add: incoming_poll_def) blast
  next
    case (failed e s' r')
    then show ?thesis unfolding start by (simp add: incoming_poll_def) blast
  next
    case (accepted b g addr sb s' r')
    then show ?thesis unfolding start by (simp add: incoming_poll_def) blast
  qed
qed

theorem incoming_yields_registered_streams_witness:
  "\<exists>out st' r'. tcp_incoming_poll sim_os sim (\<lambda>h p. (Inr (8, 1 :: nat), p)) 3 With_Try sim_handle (sim_open []) =
     Some (Inr (out, st', sim_handle, r')) \<and> out \<noteq> Poll_Ready None"
  using incoming_yields_registered_streams [OF sim_unix_net sim_open_ok sim_open_live sim_handle_io,
      where st = With_Try and acc = "\<lambda>h p. (Inr (8, 1 :: nat), p)" and cx = 3]
  by fastforce

end
