(* ===== verification/Os.thy ===== *)
theory Os
  imports Net
begin

text \<open>
  The platform modules: \<open>src/src/os/unix.rs\<close>, \<open>src/src/os/kqueue.rs\<close> and \<open>src/src/os/windows.rs\<close>.
  A \<open>Filter\<close> (signals and process exits on kqueue) and a \<open>Waitable\<close> (waitable handles on Windows)
  wrap an \<open>Async\<close>.
\<close>

section \<open>Unix\<close>

text \<open>The descriptor of the poller, on the targets whose poller has one; \<open>poll_backend\<close> is a build flag.\<close>

definition reactor_fd :: "target \<Rightarrow> bool \<Rightarrow> ('p \<Rightarrow> 'fd) \<Rightarrow> ('p, 'sw, 'ss, 'q, 'reg) reactor \<Rightarrow> 'fd option" where
  "reactor_fd T poll_backend as_fd r =
     (if T \<in> {Linux, Android, Illumos, Solaris, Apple, Freebsd, Netbsd, Openbsd, Dragonfly} \<and> \<not> poll_backend
      then Some (as_fd (poller r)) else None)"

section \<open>Filters\<close>

type_synonym 'f filter = "'f async"

text \<open>The two kinds of queueable objects. A process identifier is a positive 32-bit number.\<close>

datatype exit = Exit i32

definition signal_queueable :: "signal \<Rightarrow> registration_kqueue" where
  "signal_queueable s = Reg_Signal s"

definition exit_new :: "32 word \<Rightarrow> panic + exit" where
  "exit_new child_id =
     (if unat child_id < 2 ^ 31
      then if child_id \<noteq> 0 then Inr (Exit child_id) else Inl (Expect_Failed ''cannot register pid with zero value'')
      else Inl (Expect_Failed ''unable to parse pid''))"

definition exit_from_pid :: "i32 \<Rightarrow> exit" where
  "exit_from_pid pid = Exit pid"

fun exit_queueable :: "exit \<Rightarrow> registration_kqueue" where
  "exit_queueable (Exit pid) = Reg_Process pid"

text \<open>\<open>queueable\<close> is the registration of the filter's type. On an error the filter is dropped.\<close>

definition filter_new :: "('f \<Rightarrow> registration_kqueue) \<Rightarrow> ('f, 'fd, registration_kqueue, 'p) os_calls \<Rightarrow>
    ('p, 'sw, 'ss, 'q, registration_kqueue) crates \<Rightarrow> 'f \<Rightarrow> ('p, 'sw, 'ss, 'q, registration_kqueue) reactor \<Rightarrow>
    panic + 'f filter io_result \<times> ('p, 'sw, 'ss, 'q, registration_kqueue) reactor" where
  "filter_new queueable S E f r =
     rbind (insert_io E (queueable f) r) (\<lambda>(res, r').
       Inr (case res of
           Inl e \<Rightarrow> (Inl e, drop_handle S f r')
         | Inr a \<Rightarrow> (Inr \<lparr>as_source = a, as_io = Some f\<rparr>, r')))"

definition filter_as_fd :: "('f, 'fd, 'reg, 'p) os_calls \<Rightarrow> 'f filter \<Rightarrow> panic + 'fd" where
  "filter_as_fd S f = async_as_fd S f"

definition filter_try_from where
  "filter_try_from S E into v r = async_try_from S E into v r"

definition owned_try_from_filter where
  "owned_try_from_filter S E into f r = owned_try_from S E into f r"

definition filter_get_ref :: "'f filter \<Rightarrow> panic + 'f" where
  "filter_get_ref f = async_get_ref f"

definition filter_get_mut :: "'f filter \<Rightarrow> panic + 'f \<times> ('f \<Rightarrow> 'f filter)" where
  "filter_get_mut f = async_get_mut f"

definition filter_as_ref :: "'f filter \<Rightarrow> panic + 'f" where
  "filter_as_ref f = async_as_ref f"

definition filter_as_mut :: "'f filter \<Rightarrow> panic + 'f \<times> ('f \<Rightarrow> 'f filter)" where
  "filter_as_mut f = filter_get_mut f"

definition filter_into_inner where
  "filter_into_inner S E f r = async_into_inner S E f r"

definition filter_ready :: "'f filter \<Rightarrow> ready_future" where
  "filter_ready f = async_readable f"

definition filter_poll_ready :: "('p, 'sw, 'ss, 'q, 'reg) crates \<Rightarrow> waker \<Rightarrow> 'f filter \<Rightarrow>
    ('p, 'sw, 'ss, 'q, 'reg) reactor \<Rightarrow> panic + unit io_result poll \<times> ('p, 'sw, 'ss, 'q, 'reg) reactor" where
  "filter_poll_ready E cx f r = async_poll_readable E cx f r"

text \<open>The future of \<open>ready\<close> is that of \<open>readable\<close>.\<close>

definition filter_ready_poll :: "('p, 'sw, 'ss, 'q, 'reg) crates \<Rightarrow> ready_future \<Rightarrow> waker \<Rightarrow>
    ('sw, 'reg) source \<Rightarrow> ('p, 'sw, 'ss, 'q, 'reg) reactor \<Rightarrow>
    panic + unit io_result poll \<times> ready_future \<times> ('sw, 'reg) source \<times> ('p, 'sw, 'ss, 'q, 'reg) reactor" where
  "filter_ready_poll E f cx s r = readable_poll E f cx s r"

section \<open>Waitable handles\<close>

type_synonym 'h waitable = "'h async"

text \<open>\<open>as_handle\<close> borrows the handle's descriptor.\<close>

definition waitable_new :: "('h \<Rightarrow> raw_handle) \<Rightarrow> ('h, 'fd, registration_windows, 'p) os_calls \<Rightarrow>
    ('p, 'sw, 'ss, 'q, registration_windows) crates \<Rightarrow> 'h \<Rightarrow> ('p, 'sw, 'ss, 'q, registration_windows) reactor \<Rightarrow>
    panic + 'h waitable io_result \<times> ('p, 'sw, 'ss, 'q, registration_windows) reactor" where
  "waitable_new as_handle S E h r =
     rbind (insert_io E (windows_new_waitable (as_handle h)) r) (\<lambda>(res, r').
       Inr (case res of
           Inl e \<Rightarrow> (Inl e, drop_handle S h r')
         | Inr a \<Rightarrow> (Inr \<lparr>as_source = a, as_io = Some h\<rparr>, r')))"

definition waitable_as_handle :: "('h \<Rightarrow> raw_handle) \<Rightarrow> 'h waitable \<Rightarrow> panic + raw_handle" where
  "waitable_as_handle as_handle w = rbind (async_get_ref w) (\<lambda>h. Inr (as_handle h))"

definition waitable_try_from where
  "waitable_try_from as_handle S E into v r = waitable_new as_handle S E (into v) r"

definition waitable_get_ref :: "'h waitable \<Rightarrow> panic + 'h" where
  "waitable_get_ref w = async_get_ref w"

definition waitable_get_mut :: "'h waitable \<Rightarrow> panic + 'h \<times> ('h \<Rightarrow> 'h waitable)" where
  "waitable_get_mut w = async_get_mut w"

definition waitable_as_ref :: "'h waitable \<Rightarrow> panic + 'h" where
  "waitable_as_ref w = async_as_ref w"

definition waitable_into_inner where
  "waitable_into_inner S E w r = async_into_inner S E w r"

definition owned_try_from_waitable where
  "owned_try_from_waitable S E into w r =
     rbind (waitable_into_inner S E w r) (\<lambda>(res, r'). Inr (map_sum id into res, r'))"

definition waitable_ready :: "'h waitable \<Rightarrow> ready_future" where
  "waitable_ready w = async_readable w"

definition waitable_poll_ready :: "('p, 'sw, 'ss, 'q, 'reg) crates \<Rightarrow> waker \<Rightarrow> 'h waitable \<Rightarrow>
    ('p, 'sw, 'ss, 'q, 'reg) reactor \<Rightarrow> panic + unit io_result poll \<times> ('p, 'sw, 'ss, 'q, 'reg) reactor" where
  "waitable_poll_ready E cx w r = async_poll_readable E cx w r"

definition waitable_ready_poll :: "('p, 'sw, 'ss, 'q, 'reg) crates \<Rightarrow> ready_future \<Rightarrow> waker \<Rightarrow>
    ('sw, 'reg) source \<Rightarrow> ('p, 'sw, 'ss, 'q, 'reg) reactor \<Rightarrow>
    panic + unit io_result poll \<times> ready_future \<times> ('sw, 'reg) source \<times> ('p, 'sw, 'ss, 'q, 'reg) reactor" where
  "waitable_ready_poll E f cx s r = readable_poll E f cx s r"

end
