(* ===== verification/Os_Properties.thy ===== *)
theory Os_Properties
  imports Os System
begin

text \<open>
  Waiting on the objects of the platform modules: a task that waits on a filter or on a waitable
  handle is waited for by the kernel queue, or by the completion port.
\<close>

section \<open>On every platform\<close>

lemma insert_io_registers:
  assumes "insert_io E g r = Inr (Inr x, r')" "reactor_ok E items r"
  obtains s where "live E r' x s" "registration s = g" "\<And>d. ticks (src_state s d) = None"
proof -
  from assms(2) have "sources_ok E r" "slab_ok (sslab E)" "slab_ok (wslab E)" using reactor_ok_parts by blast+
  then show thesis
  proof (cases rule: insert_io_cases [where g = g])
    case (added p ss r1)
    with assms(1) have "r1 = r'" "x = next_addr r" by auto
    with added(3,6) show thesis by (intro that [of "new_source E g r"]) (auto simp: live_def direction_default_def)
  next
    case (failed e p ss r1)
    with assms(1) show thesis by simp
  qed
qed

text \<open>
  A source made in a reachable state, and a poll of it in any state that is reached later: it does
  not panic, and when it is pending the poller watches the object the source was made for.
\<close>

context interest_backend begin

lemma new_source_poll_armed:
  assumes E: "crates_ok E items" "ok p" and io: "\<And>p p'. io p p' \<Longrightarrow> ok p \<Longrightarrow> ok p' \<and> table p' = table p"
    and run: "sys_steps E io (sys_init E p) st"
    and new: "\<forall>k s. source_at E (sys_reactor st) k = Some s \<longrightarrow> registration s \<noteq> g"
    and ins: "insert_io E g (sys_reactor st) = Inr (Inr x, r1)"
    and run2: "sys_steps E io (st\<lparr>sys_reactor := r1\<rparr>) st2" and x: "live E (sys_reactor st2) x s"
  shows "\<exists>out r2. poll_source E d cx x (sys_reactor st2) = Inr (out, r2) \<and> (out = Poll_Pending \<longrightarrow>
    (\<exists>s'. live E r2 x s' \<and> task_waits E d cx s' \<and> (src_key s \<notin> exempt_keys st2 \<longrightarrow>
       (\<exists>e. table (poller r2) g = Some e \<and> ev_key e = src_key s \<and> arms E duplex e s'))))"
proof -
  have run1: "sys_steps E io (sys_init E p) (st\<lparr>sys_reactor := r1\<rparr>)"
    by (rule steps_step [OF run step_open [OF ins new]])
  have ok1: "sys_ok E items (st\<lparr>sys_reactor := r1\<rparr>)" by (rule sys_ok_steps [OF run1 sys_ok_init [OF E(1)]])
  have reach: "sys_steps E io (sys_init E p) st2" by (rule steps_trans [OF run2 run1])
  have ok2: "sys_ok E items st2" by (rule sys_ok_steps [OF reach sys_ok_init [OF E(1)]])
  have "reactor_ok E items (sys_reactor st)"
    using sys_ok_steps [OF run sys_ok_init [OF E(1)]] by (simp add: sys_ok_def)
  with ins obtain s1 where "live E r1 x s1" "registration s1 = g" by (rule insert_io_registers)
  then have g: "registration s = g" using steps_keep_registration [OF run2 ok1, of x s1] x by (auto simp: live_def)
  obtain out r2 where poll: "poll_source E d cx x (sys_reactor st2) = Inr (out, r2)"
    using ok2 x by (auto simp: sys_ok_def elim: poll_source_outcomes [where d = d and cx = cx])
  obtain st3 s3 where P: "sys_step E io st2 st3" "sys_ok E items st3" "sys_reactor st3 = r2" "live E r2 x s3"
    "same_object s s3" "quiet_for st2 st3 (\<exists>e. out = Poll_Ready (Inl e))" "out = Poll_Pending \<Longrightarrow> task_waits E d cx s3"
    by (rule poll_source_run [OF ok2 x poll]) blast
  have "op_run E items io d cx x s st2 st3 True" if "out = Poll_Pending"
    using P that by (intro op_run_one [where s' = s3]) simp_all
  from pending_op_armed [OF E io reach this] poll P(3) g show ?thesis by blast
qed

end

lemma armed_readable: "arms E duplex e s \<Longrightarrow> task_waits E READ cx s \<Longrightarrow> ev_readable e"
  using task_waits_nonempty [of E READ cx s] by (auto simp: arms_def)

lemma wrapped_insert:
  assumes "rbind (insert_io E g r) (\<lambda>(res, r'). Inr (case res of
      Inl e \<Rightarrow> (Inl e, close r') | Inr a \<Rightarrow> (Inr \<lparr>as_source = a, as_io = Some f\<rparr>, r'))) = Inr (Inr a, r1)"
  shows "insert_io E g r = Inr (Inr (as_source a), r1)"
proof (cases "insert_io E g r")
  case (Inr out)
  with assms show ?thesis by (cases "fst out") (auto split: prod.splits)
qed (use assms in simp)

section \<open>A table of watched objects to evaluate on\<close>

text \<open>A poller that accepts everything and reports nothing; its state is its table.\<close>

definition sim_table_polling :: "('o \<Rightarrow> event option) poller_ops" where
  "sim_table_polling = \<lparr>po_notify = (\<lambda>p. (Inr (), p)), po_wait = (\<lambda>evs t p. (Inr 0, evs, p))\<rparr>"

definition sim_table_crates :: "('reg, 'o \<Rightarrow> event option) registration_ops \<Rightarrow>
    ('o \<Rightarrow> event option, sim_sw, sim_ss, timer_op list, 'reg) crates" where
  "sim_table_crates R = \<lparr>will_wake = (=), wslab = sim_slab, sslab = sim_slab, queue = sim_queue,
     poll_calls = sim_table_polling, reg_calls = R, on_espidf = False\<rparr>"

lemma sim_table_crates_ok [simp, intro]: "crates_ok (sim_table_crates R) id"
  by (simp add: crates_ok_def sim_table_crates_def poller_ok_def sim_table_polling_def sim_slab_ok sim_queue_ok)

lemma sim_table_platform_ok [simp, intro]: "platform_ok (sim_table_crates R) R id"
  by (simp add: platform_ok_def sim_table_crates_def wait_ok_def sim_table_polling_def sim_slab_ok)

definition sim_table_fds :: "('fd \<Rightarrow> 'o) \<Rightarrow> ('fd, 'o \<Rightarrow> event option) poller_fd_ops" where
  "sim_table_fds obj = \<lparr>po_add = (\<lambda>fd e p. (Inr (), p(obj fd \<mapsto> e))), po_modify = (\<lambda>fd e p. (Inr (), p(obj fd \<mapsto> e))),
     po_delete = (\<lambda>fd p. (Inr (), p(obj fd := None)))\<rparr>"

definition sim_filters :: "(kqueue_object \<Rightarrow> event option) poller_filter_ops" where
  "sim_filters = \<lparr>po_add_filter = (\<lambda>f k m p. (Inr (), p(Obj_Filter f \<mapsto> filter_event k))),
     po_modify_filter = (\<lambda>f k m p. (Inr (), p(Obj_Filter f \<mapsto> filter_event k))),
     po_delete_filter = (\<lambda>f p. (Inr (), p(Obj_Filter f := None)))\<rparr>"

definition sim_waitables :: "(registration_windows \<Rightarrow> event option) poller_waitable_ops" where
  "sim_waitables = \<lparr>po_add_waitable = (\<lambda>h e m p. (Inr (), p(Reg_Handle h \<mapsto> e))),
     po_modify_waitable = (\<lambda>h e m p. (Inr (), p(Reg_Handle h \<mapsto> e))),
     po_remove_waitable = (\<lambda>h p. (Inr (), p(Reg_Handle h := None)))\<rparr>"

lemma sim_kqueue_ok [simp, intro]: "kqueue_calls_ok (sim_table_fds Obj_Fd) sim_filters id"
  by (simp add: kqueue_calls_ok_def sim_table_fds_def sim_filters_def)

lemma sim_windows_ok [simp, intro]: "windows_calls_ok (sim_table_fds Reg_Socket) sim_waitables id"
  by (simp add: windows_calls_ok_def sim_table_fds_def sim_waitables_def)

section \<open>Properties\<close>

text \<open>
  C38. A filter for a signal or a process, made in a reachable state in which no source has that signal
  or process as its registration, and polled in any state reached later, whatever the tasks and the reactor
  did in between: the poll does not panic, and when it is pending the task waits on the filter. If the
  source's key was not exempt before the poll, the kernel queue watches the signal or process, under the
  key, and will report it as readable to the task. As in C1, the key is exempt while an event with that key
  has yet to be handled; and after the queue has refused to register the filter, or a round has ended
  with an error before it was done with its event, until it is registered anew, a later event of it is
  handled, or it is closed.
\<close>

theorem filter_waits_are_armed:
  assumes "crates_ok E items" "platform_ok E (kqueue_registration P F) watched" "kqueue_calls_ok P F watched"
    and "\<And>p p'. io p p' \<Longrightarrow> watched p' = watched p" and "sys_steps E io (sys_init E p) st"
    and "\<forall>k s. source_at E (sys_reactor st) k = Some s \<longrightarrow> registration s \<noteq> queueable f"
    and "filter_new queueable S E f (sys_reactor st) = Inr (Inr a, r1)"
    and "sys_steps E io (st\<lparr>sys_reactor := r1\<rparr>) st2" and "live E (sys_reactor st2) (as_source a) s"
  shows "\<exists>out r2. filter_poll_ready E cx a (sys_reactor st2) = Inr (out, r2) \<and> (out = Poll_Pending \<longrightarrow>
    (\<exists>s'. live E r2 (as_source a) s' \<and> task_waits E READ cx s' \<and> (src_key s \<notin> exempt_keys st2 \<longrightarrow>
       (\<exists>e. watched (poller r2) (watched_object (queueable f)) = Some e \<and> ev_key e = src_key s \<and> ev_readable e))))"
proof -
  have "kqueue_table watched p' = kqueue_table watched p" if "io p p'" for p p'
    using assms(4) [OF that] by (simp add: kqueue_table_def fun_eq_iff)
  with assms(2,3) have "\<exists>out r2. poll_source E READ cx (as_source a) (sys_reactor st2) = Inr (out, r2) \<and> (out = Poll_Pending \<longrightarrow>
    (\<exists>s'. live E r2 (as_source a) s' \<and> task_waits E READ cx s' \<and> (src_key s \<notin> exempt_keys st2 \<longrightarrow>
       (\<exists>e. kqueue_table watched (poller r2) (queueable f) = Some e \<and> ev_key e = src_key s \<and> arms E is_fd e s'))))"
    by (intro kqueue_interest.new_source_poll_armed [OF assms(1) _ _ assms(5,6)
          wrapped_insert [OF assms(7) [unfolded filter_new_def]] assms(8,9)]) auto
  then show ?thesis unfolding filter_poll_ready_def async_poll_readable_def kqueue_table_def by (metis armed_readable)
qed

definition sim_kqueue where
  "sim_kqueue = sim_table_crates (kqueue_registration (sim_table_fds Obj_Fd) sim_filters)"

definition sim_filter_os :: "(signal, raw_fd, registration_kqueue, kqueue_object \<Rightarrow> event option) os_calls" where
  "sim_filter_os = \<lparr>os_target = Freebsd, os_as_fd = (\<lambda>_. 0), os_registration = kqueue_new,
     os_fionbio = (\<lambda>fd b p. (Inr (), p)), os_getfl = (\<lambda>fd p. (Inr 0, p)), os_setfl = (\<lambda>fd fl p. (Inr (), p)),
     os_nonblock = 4, os_close = (\<lambda>h p. p)\<rparr>"

lemma sim_kqueue_crates_ok: "crates_ok sim_kqueue id"
  unfolding sim_kqueue_def by (rule sim_table_crates_ok)

lemma sim_kqueue_platform_ok: "platform_ok sim_kqueue (kqueue_registration (sim_table_fds Obj_Fd) sim_filters) id"
  unfolding sim_kqueue_def by (rule sim_table_platform_ok)

lemmas sim_kqueue_defs = sim_kqueue_def sim_table_crates_def kqueue_registration_def kqueue_add_def kqueue_modify_def
  signal_queueable_def sim_filters_def sim_table_polling_def

lemmas sim_table_run = sys_init_def reactor_new_def insert_io_def sim_insert_def sim_vacant_def sim_set_def sim_iter_def Let_def
  poll_source_def deref_def put_source_def poll_ready_def update_interest_def dir_is_empty_def interest_event_def
  direction_default_def enumerate_eq_zip set_dir_def reactor_ticker_def

theorem filter_waits_are_armed_witness:
  "\<exists>a r1 r2 e. filter_new signal_queueable sim_filter_os sim_kqueue (Signal 2) (reactor_new sim_kqueue Map.empty) = Inr (Inr a, r1) \<and>
     filter_poll_ready sim_kqueue 5 a r1 = Inr (Poll_Pending, r2) \<and> poller r2 (Obj_Filter (Poll_Signal 2)) = Some e \<and> ev_readable e"
proof -
  let ?st = "sys_init sim_kqueue Map.empty"
  obtain a r1 r2 where new: "filter_new signal_queueable sim_filter_os sim_kqueue (Signal 2) (sys_reactor ?st) = Inr (Inr a, r1)"
    and poll: "filter_poll_ready sim_kqueue 5 a r1 = Inr (Poll_Pending, r2)"
    by (simp add: filter_new_def filter_poll_ready_def async_poll_readable_def sim_table_run sim_kqueue_defs)
  moreover have none: "source_at sim_kqueue (sys_reactor ?st) k = None" for k
    by (simp add: source_at_def sys_init_def reactor_new_def sim_kqueue_defs sim_get_def)
  ultimately obtain s where x: "live sim_kqueue r1 (as_source a) s"
    using insert_io_registers [OF wrapped_insert [OF new [unfolded filter_new_def]]] reactor_ok_new(1) [OF sim_kqueue_crates_ok]
    unfolding sys_init_def by fastforce
  with new poll none show ?thesis
    using filter_waits_are_armed [where watched = id and io = "(=)" and st = ?st, OF sim_kqueue_crates_ok sim_kqueue_platform_ok sim_kqueue_ok _
        steps_refl _ new steps_refl, where cx = 5 and s = s]
    by (auto simp: sys_init_def signal_queueable_def)
qed

text \<open>
  The same on Windows, on the same conditions: after a pending poll of a waitable handle the completion
  port watches the handle, under the source's key, and will report it as readable, unless the key was
  exempt before the poll.
\<close>

theorem waitable_waits_are_armed:
  assumes "crates_ok E items" "platform_ok E (windows_registration P W) watched" "windows_calls_ok P W watched"
    and "\<And>p p'. io p p' \<Longrightarrow> watched p' = watched p" and "sys_steps E io (sys_init E p) st"
    and "\<forall>k s. source_at E (sys_reactor st) k = Some s \<longrightarrow> registration s \<noteq> windows_new_waitable (as_handle f)"
    and "waitable_new as_handle S E f (sys_reactor st) = Inr (Inr a, r1)"
    and "sys_steps E io (st\<lparr>sys_reactor := r1\<rparr>) st2" and "live E (sys_reactor st2) (as_source a) s"
  shows "\<exists>out r2. waitable_poll_ready E cx a (sys_reactor st2) = Inr (out, r2) \<and> (out = Poll_Pending \<longrightarrow>
    (\<exists>s'. live E r2 (as_source a) s' \<and> task_waits E READ cx s' \<and> (src_key s \<notin> exempt_keys st2 \<longrightarrow>
       (\<exists>e. watched (poller r2) (windows_new_waitable (as_handle f)) = Some e \<and> ev_key e = src_key s \<and> ev_readable e))))"
proof -
  from assms(2-4) have "\<exists>out r2. poll_source E READ cx (as_source a) (sys_reactor st2) = Inr (out, r2) \<and> (out = Poll_Pending \<longrightarrow>
    (\<exists>s'. live E r2 (as_source a) s' \<and> task_waits E READ cx s' \<and> (src_key s \<notin> exempt_keys st2 \<longrightarrow>
       (\<exists>e. watched (poller r2) (windows_new_waitable (as_handle f)) = Some e \<and> ev_key e = src_key s \<and>
          arms E (\<lambda>_. True) e s'))))"
    by (intro windows_interest.new_source_poll_armed [OF assms(1) _ _ assms(5,6)
          wrapped_insert [OF assms(7) [unfolded waitable_new_def]] assms(8,9)]) auto
  then show ?thesis unfolding waitable_poll_ready_def async_poll_readable_def by (metis armed_readable)
qed

definition sim_windows where
  "sim_windows = sim_table_crates (windows_registration (sim_table_fds Reg_Socket) sim_waitables)"

definition sim_waitable_os :: "(raw_handle, raw_socket, registration_windows, registration_windows \<Rightarrow> event option) os_calls" where
  "sim_waitable_os = \<lparr>os_target = Windows, os_as_fd = (\<lambda>_. 0), os_registration = windows_new,
     os_fionbio = (\<lambda>fd b p. (Inr (), p)), os_getfl = (\<lambda>fd p. (Inr 0, p)), os_setfl = (\<lambda>fd fl p. (Inr (), p)),
     os_nonblock = 4, os_close = (\<lambda>h p. p)\<rparr>"

lemma sim_windows_crates_ok: "crates_ok sim_windows id"
  unfolding sim_windows_def by (rule sim_table_crates_ok)

lemma sim_windows_platform_ok: "platform_ok sim_windows (windows_registration (sim_table_fds Reg_Socket) sim_waitables) id"
  unfolding sim_windows_def by (rule sim_table_platform_ok)

lemmas sim_windows_defs = sim_windows_def sim_table_crates_def windows_registration_def windows_add_def windows_modify_def
  windows_new_waitable_def sim_waitables_def sim_table_polling_def

theorem waitable_waits_are_armed_witness:
  "\<exists>a r1 r2 e. waitable_new id sim_waitable_os sim_windows 9 (reactor_new sim_windows Map.empty) = Inr (Inr a, r1) \<and>
     waitable_poll_ready sim_windows 5 a r1 = Inr (Poll_Pending, r2) \<and> poller r2 (Reg_Handle 9) = Some e \<and> ev_readable e"
proof -
  let ?st = "sys_init sim_windows Map.empty"
  obtain a r1 r2 where new: "waitable_new id sim_waitable_os sim_windows 9 (sys_reactor ?st) = Inr (Inr a, r1)"
    and poll: "waitable_poll_ready sim_windows 5 a r1 = Inr (Poll_Pending, r2)"
    by (simp add: waitable_new_def waitable_poll_ready_def async_poll_readable_def sim_table_run sim_windows_defs)
  moreover have none: "source_at sim_windows (sys_reactor ?st) k = None" for k
    by (simp add: source_at_def sys_init_def reactor_new_def sim_windows_defs sim_get_def)
  ultimately obtain s where x: "live sim_windows r1 (as_source a) s"
    using insert_io_registers [OF wrapped_insert [OF new [unfolded waitable_new_def]]] reactor_ok_new(1) [OF sim_windows_crates_ok]
    unfolding sys_init_def by fastforce
  with new poll none show ?thesis
    using waitable_waits_are_armed [where watched = id and io = "(=)" and st = ?st, OF sim_windows_crates_ok sim_windows_platform_ok sim_windows_ok _
        steps_refl _ new steps_refl, where cx = 5 and s = s]
    by (auto simp: sys_init_def windows_new_waitable_def)
qed

lemma sint_i32: "sint (w :: 32 word) = (if uint w < 2 ^ 31 then uint w else uint w - 2 ^ 32)"
proof -
  define x where x: "x = uint w"
  have x0: "0 \<le> x" "x < 4294967296" using uint_bounded [of w] by (simp_all add: x)
  have s: "sint w = (x + 2147483648) mod 4294967296 - 2147483648"
    using int_word_sint [of "uint w", where 'a = 32] by (simp add: x)
  show ?thesis
  proof (cases "x < 2147483648")
    case True
    with x0 s have "sint w = x" by (simp add: mod_pos_pos_trivial)
    with True show ?thesis by (simp add: x)
  next
    case False
    have "(x + 2147483648) mod 4294967296 = (x - 2147483648 + 4294967296) mod 4294967296" by (simp add: algebra_simps)
    also have "\<dots> = x - 2147483648" using False x0 by (simp only: mod_add_self2) (simp add: mod_pos_pos_trivial)
    finally show ?thesis using s False by (simp add: x)
  qed
qed

text \<open>
  \<open>Exit::new\<close> never makes a registration for a process group or for no process: it returns
  exactly for the identifiers that are positive as signed numbers, with the identifier itself, and
  panics for all others.
\<close>

theorem exit_new_accepts_positive:
  "exit_new child_id = Inr x \<longleftrightarrow> 0 < sint child_id \<and> x = Exit child_id"
proof -
  have "unat child_id < 2 ^ 31 \<longleftrightarrow> uint child_id < 2 ^ 31" by (simp add: nat_less_iff flip: nat_uint_eq)
  moreover have "child_id \<noteq> 0 \<longleftrightarrow> 0 < uint child_id" using uint_ge_0 [of child_id] by (simp add: less_le uint_0_iff)
  moreover have "uint child_id < 2 ^ 32" using uint_bounded [of child_id] by simp
  ultimately show ?thesis by (auto simp: exit_new_def sint_i32)
qed

end
