(* ===== verification/Async_Windows.thy ===== *)
theory Async_Windows
  imports Os_Properties Async_Properties
begin

text \<open>
  \<open>Async<T>\<close> on Windows (\<open>src/src/lib.rs\<close>), where the handle is a socket: the implementations that stand
  beside those for Unix in \<open>Async\<close>, with the conversions of \<open>AsSocket\<close> and \<open>OwnedSocket\<close>. A new handle
  either is registered with the completion port or is closed.
\<close>

type_synonym ('h, 'p) socket_calls = "('h, raw_socket, registration_windows, 'p) os_calls"

text \<open>On an error the socket is dropped with the frame that owns it; \<open>os_as_fd\<close> is \<open>as_socket\<close>.\<close>

definition socket_new_nonblocking :: "('h, 'p) socket_calls \<Rightarrow> ('p, 'sw, 'ss, 'q, registration_windows) crates \<Rightarrow>
    'h \<Rightarrow> ('p, 'sw, 'ss, 'q, registration_windows) reactor \<Rightarrow>
    panic + 'h async io_result \<times> ('p, 'sw, 'ss, 'q, registration_windows) reactor" where
  "socket_new_nonblocking S E h r =
     rbind (insert_io E (windows_new (os_as_fd S h)) r) (\<lambda>(res, r').
       Inr (case res of
           Inl e \<Rightarrow> (Inl e, drop_handle S h r')
         | Inr a \<Rightarrow> (Inr \<lparr>as_source = a, as_io = Some h\<rparr>, r')))"

definition socket_new :: "('h, 'p) socket_calls \<Rightarrow> ('p, 'sw, 'ss, 'q, registration_windows) crates \<Rightarrow>
    'h \<Rightarrow> ('p, 'sw, 'ss, 'q, registration_windows) reactor \<Rightarrow>
    panic + 'h async io_result \<times> ('p, 'sw, 'ss, 'q, registration_windows) reactor" where
  "socket_new S E h r = (case set_nonblocking S (os_as_fd S h) (poller r) of
       (Inl e, p) \<Rightarrow> Inr (Inl e, drop_handle S h (r\<lparr>poller := p\<rparr>))
     | (Inr _, p) \<Rightarrow> socket_new_nonblocking S E h (r\<lparr>poller := p\<rparr>))"

text \<open>The two ways of asking for the socket.\<close>

definition async_as_raw_socket :: "('h \<Rightarrow> raw_socket) \<Rightarrow> 'h async \<Rightarrow> panic + raw_socket" where
  "async_as_raw_socket as_raw_socket a = rbind (async_get_ref a) (\<lambda>h. Inr (as_raw_socket h))"

definition async_as_socket :: "('h, 'p) socket_calls \<Rightarrow> 'h async \<Rightarrow> panic + raw_socket" where
  "async_as_socket S a = rbind (async_get_ref a) (\<lambda>h. Inr (os_as_fd S h))"

definition socket_try_from :: "('h, 'p) socket_calls \<Rightarrow> ('p, 'sw, 'ss, 'q, registration_windows) crates \<Rightarrow>
    ('v \<Rightarrow> 'h) \<Rightarrow> 'v \<Rightarrow> ('p, 'sw, 'ss, 'q, registration_windows) reactor \<Rightarrow>
    panic + 'h async io_result \<times> ('p, 'sw, 'ss, 'q, registration_windows) reactor" where
  "socket_try_from S E into v r = socket_new S E (into v) r"

definition owned_socket_try_from :: "('h, 'p) socket_calls \<Rightarrow> ('p, 'sw, 'ss, 'q, registration_windows) crates \<Rightarrow>
    ('h \<Rightarrow> 'v) \<Rightarrow> 'h async \<Rightarrow> ('p, 'sw, 'ss, 'q, registration_windows) reactor \<Rightarrow>
    panic + 'v io_result \<times> ('p, 'sw, 'ss, 'q, registration_windows) reactor" where
  "owned_socket_try_from S E into a r =
     rbind (async_into_inner S E a r) (\<lambda>(res, r'). Inr (map_sum id into res, r'))"

text \<open>They are the operations of \<open>Async\<close> with the registrations of Windows.\<close>

lemma socket_new_is_async_new:
  assumes "os_registration S = windows_new"
  shows "socket_new_nonblocking S E h r = async_new_nonblocking S E h r" "socket_new S E h r = async_new S E h r"
proof -
  show "socket_new_nonblocking S E h r = async_new_nonblocking S E h r" for r
    using assms by (simp add: socket_new_nonblocking_def async_new_nonblocking_def)
  then show "socket_new S E h r = async_new S E h r"
    by (auto simp: socket_new_def async_new_def split: prod.splits sum.splits)
qed

text \<open>
  Creating a handle on Windows never panics. Either it succeeds: the socket is in non-blocking mode and
  has a new source of its own, which the completion port watches under its key, and the conversions to a
  socket give it; or it fails: the sources are as they were and the socket is closed while it is not watched.
\<close>

theorem socket_new_opens_or_closes:
  assumes "reactor_ok E items r" "reg_calls E = windows_registration P W" "windows_calls_ok P W watched"
    and "os_ok S (windows_registration P W) watched nb" "os_registration S = windows_new"
  shows "\<exists>res r'. socket_new S E h r = Inr (res, r') \<and> reactor_ok E items r' \<and> (case res of
      Inr a \<Rightarrow> async_as_socket S a = Inr (os_as_fd S h) \<and> nb (poller r') (os_as_fd S h) \<and>
        (\<exists>s e. live E r' (as_source a) s \<and> source_at E r (src_key s) = None \<and>
          source_at E r' = (source_at E r)(src_key s \<mapsto> s) \<and>
          watched (poller r') = (watched (poller r))(Reg_Socket (os_as_fd S h) \<mapsto> e) \<and> ev_key e = src_key s)
    | Inl e \<Rightarrow> source_at E r' = source_at E r \<and>
        (\<exists>p. poller r' = os_close S h p \<and> watched p = watched (poller r)))"
  by (rule windows_backend.new_cases [where own = "\<lambda>_. ()" and h = h, OF assms(1-4)])
    (auto simp: socket_new_is_async_new [OF assms(5)] assms(5) async_as_socket_def async_get_ref_def windows_new_def)

definition sim_socket_os :: "(raw_socket, (registration_windows \<Rightarrow> event option)) socket_calls" where
  "sim_socket_os = \<lparr>os_target = Windows, os_as_fd = id, os_registration = windows_new,
     os_fionbio = (\<lambda>fd b p. (Inr (), p)), os_getfl = (\<lambda>fd p. (Inr 4, p)), os_setfl = (\<lambda>fd fl p. (Inr (), p)),
     os_nonblock = 4, os_close = (\<lambda>h p. p)\<rparr>"

theorem socket_new_opens_or_closes_witness:
  "\<exists>a r'. socket_new sim_socket_os sim_windows 9 (reactor_new sim_windows Map.empty) = Inr (Inr a, r') \<and>
    async_as_socket sim_socket_os a = Inr 9"
proof -
  have "os_ok sim_socket_os (windows_registration (sim_table_fds Reg_Socket) sim_waitables) id (\<lambda>_ _. True)"
    by (simp add: os_ok_def sim_socket_os_def)
  moreover have "reg_calls sim_windows = windows_registration (sim_table_fds Reg_Socket) sim_waitables"
    by (simp add: sim_windows_def sim_table_crates_def)
  moreover have "os_registration sim_socket_os = windows_new" "os_as_fd sim_socket_os 9 = 9" by (simp_all add: sim_socket_os_def)
  moreover have "\<exists>a r'. socket_new sim_socket_os sim_windows 9 (reactor_new sim_windows Map.empty) = Inr (Inr a, r')"
    by (simp add: socket_new_def socket_new_nonblocking_def set_nonblocking_def sim_socket_os_def insert_io_def reactor_new_def
      sim_windows_defs sim_table_fds_def sim_insert_def sim_vacant_def windows_new_def Let_def)
  ultimately show ?thesis
    using socket_new_opens_or_closes [OF reactor_ok_new(1) [OF sim_windows_crates_ok] _ sim_windows_ok, of sim_socket_os "\<lambda>_ _. True" 9 Map.empty]
    by fastforce
qed

end
