(* ===== verification/Examples.thy ===== *)
theory Examples
  imports Os
begin

text \<open>
  The examples of \<open>src/examples/\<close> as clients: sleeping on a \<open>timerfd\<close>, watching a directory with
  \<open>inotify\<close>, and waiting for a process on kqueue and on Windows. Each is a future, with one function
  for a poll; the crates and calls beneath them are parameters.
\<close>

section \<open>\<open>linux-timerfd.rs\<close>\<close>

text \<open>
  \<open>TimerFd::new\<close>, \<open>set_state\<close> with a one-shot of the given duration, and the \<open>read\<close> of \<open>rustix\<close>
  into a buffer of the given length.
\<close>

record ('t, 'fd, 'p) timerfd_calls =
  tfd_new :: "'p \<Rightarrow> 't io_result \<times> 'p"
  tfd_oneshot :: "'t \<Rightarrow> duration \<Rightarrow> 'p \<Rightarrow> 't \<times> 'p"
  tfd_raw_fd :: "'t \<Rightarrow> 'fd"
  rio_read :: "'fd \<Rightarrow> nat \<Rightarrow> 'p \<Rightarrow> (errno + nat) \<times> 'p"

definition timer_read :: "('t, 'fd, 'p) timerfd_calls \<Rightarrow> 't \<Rightarrow> unit \<Rightarrow> 'p \<Rightarrow> nat io_result \<times> unit \<times> 'p" where
  "timer_read F t u p = (case rio_read F (tfd_raw_fd F t) 8 p of (res, p') \<Rightarrow> (map_sum io_error_of id res, u, p'))"

text \<open>
  The future of \<open>sleep\<close>. The handle is a temporary of the statement that awaits \<open>read_with\<close>: it is
  dropped when the await is over, whatever its result, or with the future.
\<close>

datatype 't sleep = Sleep_Start duration | Sleep_Read "'t async" io_with | Sleep_Done

definition sleep_read_poll :: "('t, 'fd, 'reg, 'p) os_calls \<Rightarrow> ('p, 'sw, 'ss, 'q, 'reg) crates \<Rightarrow>
    ('t, 'fd, 'p) timerfd_calls \<Rightarrow> waker \<Rightarrow> io_with \<Rightarrow> 't async \<Rightarrow> ('p, 'sw, 'ss, 'q, 'reg) reactor \<Rightarrow>
    (panic + unit io_result poll \<times> 't sleep \<times> ('p, 'sw, 'ss, 'q, 'reg) reactor) option" where
  "sleep_read_poll S E F cx w a r =
     obind (read_with_poll E (timer_read F) cx w a () r) (\<lambda>(out, w', a', _, r'). Some (case out of
         Poll_Pending \<Rightarrow> Inr (Poll_Pending, Sleep_Read a' w', r')
       | Poll_Ready res \<Rightarrow> rbind (async_drop S E a' r') (\<lambda>r''.
           Inr (Poll_Ready (map_sum id (\<lambda>_. ()) res), Sleep_Done, r''))))"

fun sleep_poll :: "('t, 'fd, 'reg, 'p) os_calls \<Rightarrow> ('p, 'sw, 'ss, 'q, 'reg) crates \<Rightarrow>
    ('t, 'fd, 'p) timerfd_calls \<Rightarrow> waker \<Rightarrow> 't sleep \<Rightarrow> ('p, 'sw, 'ss, 'q, 'reg) reactor \<Rightarrow>
    (panic + unit io_result poll \<times> 't sleep \<times> ('p, 'sw, 'ss, 'q, 'reg) reactor) option" where
  "sleep_poll S E F cx (Sleep_Start dur) r = (case tfd_new F (poller r) of
       (Inl e, p) \<Rightarrow> Some (Inr (Poll_Ready (Inl e), Sleep_Done, r\<lparr>poller := p\<rparr>))
     | (Inr t, p) \<Rightarrow> (case tfd_oneshot F t dur p of (t, p) \<Rightarrow>
         (case async_new S E t (r\<lparr>poller := p\<rparr>) of
             Inl panic \<Rightarrow> Some (Inl panic)
           | Inr (Inl e, r') \<Rightarrow> Some (Inr (Poll_Ready (Inl e), Sleep_Done, r'))
           | Inr (Inr a, r') \<Rightarrow> sleep_read_poll S E F cx With_Try a r')))"
| "sleep_poll S E F cx (Sleep_Read a w) r = sleep_read_poll S E F cx w a r"
| "sleep_poll S E F cx Sleep_Done r = Some (Inl (Expect_Failed ''async fn resumed after completion''))"

fun sleep_drop :: "('t, 'fd, 'reg, 'p) os_calls \<Rightarrow> ('p, 'sw, 'ss, 'q, 'reg) crates \<Rightarrow> 't sleep \<Rightarrow>
    ('p, 'sw, 'ss, 'q, 'reg) reactor \<Rightarrow> panic + ('p, 'sw, 'ss, 'q, 'reg) reactor" where
  "sleep_drop S E (Sleep_Read a w) r = rbind (io_with_drop E w a r) (async_drop S E a)"
| "sleep_drop S E st r = Inr r"

section \<open>\<open>linux-inotify.rs\<close>\<close>

text \<open>\<open>Inotify::init\<close>, \<open>watches().add\<close> with a path and a mask, and \<open>read_events\<close> with the length of its buffer.\<close>

type_synonym os_string = "8 word list"

record inotify_event =
  ev_name :: "os_string option"
  ev_mask :: "32 word"

record ('i, 'p) inotify_calls =
  in_init :: "'p \<Rightarrow> 'i io_result \<times> 'p"
  in_watch :: "'i \<Rightarrow> string \<Rightarrow> 32 word \<Rightarrow> 'p \<Rightarrow> unit io_result \<times> 'i \<times> 'p"
  in_read_events :: "'i \<Rightarrow> nat \<Rightarrow> 'p \<Rightarrow> inotify_event list io_result \<times> 'i \<times> 'p"
  in_all_events :: "32 word"

definition named_event :: "inotify_event \<Rightarrow> (os_string \<times> 32 word) option" where
  "named_event ev = map_option (\<lambda>name. (name, ev_mask ev)) (ev_name ev)"

definition read_op :: "('i, 'p) inotify_calls \<Rightarrow> ('i, unit, 'p, (os_string \<times> 32 word) list) io_op" where
  "read_op I i u p = (case in_read_events I i 1024 p of
       (Inl e, i', p') \<Rightarrow> (Inl e, i', u, p')
     | (Inr evs, i', p') \<Rightarrow>
         let named = List.map_filter named_event evs
         in (if named = [] then Inl WouldBlock else Inr named, i', u, p'))"

definition inotify_start :: "('i, 'fd, 'reg, 'p) os_calls \<Rightarrow> ('p, 'sw, 'ss, 'q, 'reg) crates \<Rightarrow>
    ('i, 'p) inotify_calls \<Rightarrow> ('p, 'sw, 'ss, 'q, 'reg) reactor \<Rightarrow>
    panic + 'i async io_result \<times> ('p, 'sw, 'ss, 'q, 'reg) reactor" where
  "inotify_start S E I r = (case in_init I (poller r) of
       (Inl e, p) \<Rightarrow> Inr (Inl e, r\<lparr>poller := p\<rparr>)
     | (Inr i, p) \<Rightarrow> rbind (async_new S E i (r\<lparr>poller := p\<rparr>)) (\<lambda>(res, r'). case res of
           Inl e \<Rightarrow> Inr (Inl e, r')
         | Inr a \<Rightarrow> rbind (async_get_mut a) (\<lambda>(i, put). case in_watch I i ''.'' (in_all_events I) (poller r') of
               (Inl e, i', p') \<Rightarrow> rbind (async_drop S E (put i') (r'\<lparr>poller := p'\<rparr>)) (\<lambda>r''. Inr (Inl e, r''))
             | (Inr _, i', p') \<Rightarrow> Inr (Inr (put i'), r'\<lparr>poller := p'\<rparr>))))"

text \<open>The loop: every batch of events is printed, until an error ends it.\<close>

partial_function (option) inotify_loop :: "('i, 'fd, 'reg, 'p) os_calls \<Rightarrow> ('p, 'sw, 'ss, 'q, 'reg) crates \<Rightarrow>
    ('i, 'p) inotify_calls \<Rightarrow> waker \<Rightarrow> io_with \<Rightarrow> 'i async \<Rightarrow> (os_string \<times> 32 word) list \<Rightarrow>
    ('p, 'sw, 'ss, 'q, 'reg) reactor \<Rightarrow>
    (panic + unit io_result poll \<times> io_with \<times> 'i async \<times> (os_string \<times> 32 word) list \<times> ('p, 'sw, 'ss, 'q, 'reg) reactor) option" where
  "inotify_loop S E I cx w a printed r = (case read_with_mut_poll E (read_op I) cx w a () r of
       None \<Rightarrow> None
     | Some (Inl panic) \<Rightarrow> Some (Inl panic)
     | Some (Inr (out, w', a', _, r')) \<Rightarrow> (case out of
           Poll_Pending \<Rightarrow> Some (Inr (Poll_Pending, w', a', printed, r'))
         | Poll_Ready (Inl e) \<Rightarrow> Some (rbind (async_drop S E a' r') (\<lambda>r''. Inr (Poll_Ready (Inl e), With_Done, a', printed, r'')))
         | Poll_Ready (Inr evs) \<Rightarrow> inotify_loop S E I cx With_Try a' (printed @ evs) r'))"

section \<open>\<open>kqueue-process.rs\<close> and \<open>windows-command.rs\<close>\<close>

text \<open>
  A process is spawned and wrapped; the future then awaits \<open>ready\<close>, and drops what it has made. The
  wrapper is the only thing that differs.
\<close>

datatype 'f waiting_exit = Exit_Wait "'f async" ready_future | Exit_Done

definition exit_start :: "('p \<Rightarrow> 'c io_result \<times> 'p) \<Rightarrow>
    ('c \<Rightarrow> ('p, 'sw, 'ss, 'q, 'reg) reactor \<Rightarrow> panic + 'f async io_result \<times> ('p, 'sw, 'ss, 'q, 'reg) reactor) \<Rightarrow>
    ('f async \<Rightarrow> ready_future) \<Rightarrow> ('p, 'sw, 'ss, 'q, 'reg) reactor \<Rightarrow>
    panic + 'f waiting_exit io_result \<times> ('p, 'sw, 'ss, 'q, 'reg) reactor" where
  "exit_start spawn wrap ready r = (case spawn (poller r) of
       (Inl e, p) \<Rightarrow> Inl (Expect_Failed ''failed to spawn process'')
     | (Inr c, p) \<Rightarrow> rbind (wrap c (r\<lparr>poller := p\<rparr>)) (\<lambda>(res, r').
         Inr (map_sum id (\<lambda>f. Exit_Wait f (ready f)) res, r')))"

definition kqueue_process_start where
  "kqueue_process_start S E spawn r = exit_start spawn
     (\<lambda>child r. rbind (exit_new child) (\<lambda>ex. filter_new exit_queueable S E ex r)) filter_ready r"

definition windows_command_start where
  "windows_command_start as_handle S E spawn r = exit_start spawn (waitable_new as_handle S E) waitable_ready r"

fun exit_wait_poll :: "('f, 'fd, 'reg, 'p) os_calls \<Rightarrow> ('p, 'sw, 'ss, 'q, 'reg) crates \<Rightarrow> waker \<Rightarrow>
    'f waiting_exit \<Rightarrow> ('p, 'sw, 'ss, 'q, 'reg) reactor \<Rightarrow>
    panic + unit io_result poll \<times> 'f waiting_exit \<times> ('p, 'sw, 'ss, 'q, 'reg) reactor" where
  "exit_wait_poll S E cx (Exit_Wait a f) r =
     rbind (poll_future E f cx (as_source a) r) (\<lambda>(out, f', r'). case out of
         Poll_Pending \<Rightarrow> Inr (Poll_Pending, Exit_Wait a f', r')
       | Poll_Ready res \<Rightarrow> rbind (drop_future E f' (as_source a) r') (\<lambda>r1.
           rbind (async_drop S E a r1) (\<lambda>r2. Inr (Poll_Ready res, Exit_Done, r2))))"
| "exit_wait_poll S E cx Exit_Done r = Inl (Expect_Failed ''async fn resumed after completion'')"

end
