(* ===== verification/Examples_Properties.thy ===== *)
theory Examples_Properties
  imports Examples Net_Properties Handles_System
begin

text \<open>
  The properties of the examples: what they hold while they wait, and that they leave nothing behind.
\<close>

section \<open>Waiting leaves the slab of sources alone\<close>

lemma poll_future_sources:
  assumes "reactor_ok E items r" "live E r x s" "future_ok E f d s" "poll_future E f cx x r = Inr (out, f', r')"
  shows "sources r' = sources r"
  by (rule poll_future_store [OF assms]) (simp add: put_source_def)

lemma drop_future_sources:
  assumes "reactor_ok E items r" "live E r x s" "drop_future E f x r = Inr r'"
  shows "sources r' = sources r"
  by (rule drop_future_store [OF assms]) (simp add: put_source_def)

text \<open>A poll of an operation changes no other part \<open>own\<close> of the state than the operation and the poller's modification do.\<close>

lemma io_with_try_keeps:
  assumes ok: "reactor_ok E items r" and x: "live E r (as_source a) s" and h: "as_io a = Some h"
    and mod: "\<And>g ev p. own (snd (reg_modify (reg_calls E) g ev p)) = own p"
    and op: "\<And>h b p res h' b' p'. op h b p = (res, h', b', p') \<Longrightarrow> own p' = own p"
    and poll: "io_with_poll E d op cx With_Try a b r = Some (Inr (out, st', a', b', r'))"
  shows "sources r' = sources r \<and> own (poller r') = own (poller r)"
proof -
  obtain res h' b1 p where op1: "op h b (poller r) = (res, h', b1, p)" using prod_cases4 by blast
  note tried = io_with_try [where E = E and d = d and cx = cx and op = op and b = b and r = r, OF h op1] and p = op [OF op1]
  let ?a = "a\<lparr>as_io := Some h'\<rparr>" and ?r = "r\<lparr>poller := p\<rparr>"
  from ok x have ok1: "reactor_ok E items ?r" and x1: "live E ?r (as_source a) s" by simp_all
  have f: "future_ok E (source_ready d) d s" using reactor_ok_parts(3) [OF ok] by simp
  note first = poll_future_sources [OF ok1 x1 f] poll_future_keeps [OF ok1 x1 f, of own, OF mod]
  show ?thesis
  proof (cases "res = Inl WouldBlock")
    case False
    with tried poll p show ?thesis by auto
  next
    case True
    note waits = io_with_first_wait [where op = op and E = E and d = d and cx = cx and a = ?a and b = b1 and r = ?r and f = "source_ready d"]
    from ok1 x1 show ?thesis
    proof (cases rule: first_poll_outcomes [where d = d and cx = cx])
      case (pending f' r2 s2)
      with waits [of Poll_Pending f' r2] tried poll True first [OF pending(1)] p show ?thesis by simp
    next
      case (failed e f' r2 s2)
      from failed(2-4) obtain r3 where D: "drop_future E f' (as_source a) r2 = Inr r3" "poller r3 = poller r2" by (rule drop_future_frees)
      with waits [of "Poll_Ready (Inl e)" f' r2] tried poll True failed(1) have "r' = r3" by simp
      with first [OF failed(1)] drop_future_sources [OF failed(2,3) D(1)] D(2) p show ?thesis by simp
    qed
  qed
qed

lemma io_with_keeps:
  assumes ok: "reactor_ok E items r" and x: "live E r (as_source a) s" and h: "as_io a = Some h" and st: "with_ok E d st s"
    and mod: "\<And>g ev p. own (snd (reg_modify (reg_calls E) g ev p)) = own p"
    and op: "\<And>h b p res h' b' p'. op h b p = (res, h', b', p') \<Longrightarrow> own p' = own p"
    and poll: "io_with_poll E d op cx st a b r = Some (Inr (out, st', a', b', r'))"
  shows "sources r' = sources r \<and> own (poller r') = own (poller r)"
proof (cases st)
  case With_Try
  with io_with_try_keeps [OF ok x h mod op] poll show ?thesis by simp
next
  case (With_Wait polled f)
  with st have f: "polled" "rf_dir f = d" by (auto simp: future_ok_def)
  from ok x f(2) obtain s1 r1 where D: "drop_future E f (as_source a) r = Inr r1" "reactor_ok E items r1"
    "live E r1 (as_source a) s1" "poller r1 = poller r" by (rule drop_future_frees)
  have "io_with_poll E d op cx With_Try a b r1 = Some (Inr (out, st', a', b', r'))"
    using poll With_Wait f(1) io_with_resume [OF D(1), of d op cx b] by simp
  with io_with_try_keeps [OF D(2,3) h mod op this] drop_future_sources [OF ok x D(1)] D(4) show ?thesis by simp
next
  case With_Done
  with st show ?thesis by simp
qed

section \<open>Open descriptors\<close>

text \<open>
  What the calls beneath \<open>sleep\<close> document of the open descriptors, \<open>own p\<close>: a new timer has a
  descriptor that was not open, setting or reading a timer opens and closes none, neither do setting the
  mode of a descriptor and the poller's calls, and dropping a timer closes its descriptor.
\<close>

definition timerfd_ok :: "('t, 'fd, 'reg, 'p) os_calls \<Rightarrow> ('p, 'sw, 'ss, 'q, 'reg) crates \<Rightarrow>
    ('t, 'fd, 'p) timerfd_calls \<Rightarrow> ('p \<Rightarrow> 'fd set) \<Rightarrow> bool" where
  "timerfd_ok S E F own \<longleftrightarrow>
     (\<forall>p. case tfd_new F p of
        (Inl e, p') \<Rightarrow> own p' = own p
      | (Inr t, p') \<Rightarrow> os_as_fd S t \<notin> own p \<and> own p' = insert (os_as_fd S t) (own p)) \<and>
     (\<forall>t d p. case tfd_oneshot F t d p of (t', p') \<Rightarrow> os_as_fd S t' = os_as_fd S t \<and> own p' = own p) \<and>
     (\<forall>fd n p. own (snd (rio_read F fd n p)) = own p) \<and>
     (\<forall>fd b p. own (snd (os_fionbio S fd b p)) = own p) \<and> (\<forall>fd p. own (snd (os_getfl S fd p)) = own p) \<and>
     (\<forall>fd fl p. own (snd (os_setfl S fd fl p)) = own p) \<and>
     (\<forall>g k p. own (snd (reg_add (reg_calls E) g k p)) = own p) \<and>
     (\<forall>g ev p. own (snd (reg_modify (reg_calls E) g ev p)) = own p) \<and>
     (\<forall>g p. own (snd (reg_delete (reg_calls E) g p)) = own p) \<and>
     (\<forall>t p. own (os_close S t p) = own p - {os_as_fd S t})"

lemma timerfd_okD:
  assumes "timerfd_ok S E F own"
  shows "tfd_new F p = (Inl e, p') \<Longrightarrow> own p' = own p"
    "tfd_new F p = (Inr t, p') \<Longrightarrow> os_as_fd S t \<notin> own p \<and> own p' = insert (os_as_fd S t) (own p)"
    "tfd_oneshot F t d p = (t', p') \<Longrightarrow> os_as_fd S t' = os_as_fd S t \<and> own p' = own p"
    "timer_read F t u p = (res, u', p') \<Longrightarrow> own p' = own p"
    "own (snd (set_nonblocking S fd p)) = own p"
    "own (snd (reg_add (reg_calls E) g k p)) = own p" "own (snd (reg_modify (reg_calls E) g ev p)) = own p"
    "own (snd (reg_delete (reg_calls E) g p)) = own p" "own (os_close S t p) = own p - {os_as_fd S t}"
proof -
  note A = assms [unfolded timerfd_ok_def]
  show "tfd_new F p = (Inl e, p') \<Longrightarrow> own p' = own p"
    "tfd_new F p = (Inr t, p') \<Longrightarrow> os_as_fd S t \<notin> own p \<and> own p' = insert (os_as_fd S t) (own p)"
    using A [THEN conjunct1, rule_format, of p] by auto
  show "tfd_oneshot F t d p = (t', p') \<Longrightarrow> os_as_fd S t' = os_as_fd S t \<and> own p' = own p"
    using A [THEN conjunct2, THEN conjunct1, rule_format, where t = t and d = d and p = p] by auto
  have rd: "own (snd (rio_read F fd n p)) = own p" for fd n p using A by simp
  show "timer_read F t u p = (res, u', p') \<Longrightarrow> own p' = own p"
    using rd [of "tfd_raw_fd F t" 8 p] by (auto simp: timer_read_def split: prod.splits)
  have mode: "own (snd (os_fionbio S fd b p)) = own p" "own (snd (os_getfl S fd p)) = own p" "own (snd (os_setfl S fd fl p)) = own p"
    for fd b fl p using A by simp_all
  obtain x p1 where x: "os_fionbio S fd True p = (x, p1)" by force
  obtain y p2 where y: "os_getfl S fd p = (y, p2)" by force
  have "own p1 = own p" "own p2 = own p" using mode(1) [of fd True p] mode(2) [of fd p] x y by simp_all
  moreover have "own p3 = own p2" if "os_setfl S fd fl p2 = (z, p3)" for fl z p3 using mode(3) [of fd fl p2] that by simp
  ultimately show "own (snd (set_nonblocking S fd p)) = own p"
    using x y by (auto simp: set_nonblocking_def Let_def split: sum.splits prod.splits)
qed (use assms in \<open>simp_all add: timerfd_ok_def\<close>)

lemma insert_io_calls_add:
  assumes "insert_io E g r = Inr (res, r')"
  shows "\<exists>k. poller r' = snd (reg_add (reg_calls E) g k (poller r))"
proof -
  obtain x p where "reg_add (reg_calls E) g (sl_vacant_key (sslab E) (sources r)) (poller r) = (x, p)" by force
  with assms show ?thesis
    by (intro exI [of _ "sl_vacant_key (sslab E) (sources r)"]) (auto simp: insert_io_def Let_def rbind_eq_Inr_iff split: sum.splits prod.splits)
qed

section \<open>Sleeping on a timer descriptor\<close>

text \<open>
  What a sleep holds, beyond the keys \<open>X\<close> and the open descriptors \<open>Y\<close> of others: nothing before its first
  poll and after its last, and one source and the descriptor of its timer while it waits.
\<close>

fun sleep_holds :: "('t, 'fd, 'reg, 'p) os_calls \<Rightarrow> ('p, 'sw, 'ss, 'q, 'reg) crates \<Rightarrow> ('p \<Rightarrow> 'fd set) \<Rightarrow>
    (slab_key \<Rightarrow> addr option) \<Rightarrow> 'fd set \<Rightarrow> 't sleep \<Rightarrow> ('p, 'sw, 'ss, 'q, 'reg) reactor \<Rightarrow> bool" where
  "sleep_holds S E own X Y (Sleep_Read a w) r \<longleftrightarrow> (\<exists>t s. as_io a = Some t \<and> live E r (as_source a) s \<and> with_ok E READ w s \<and>
     X (src_key s) = None \<and> addr_at E r = X(src_key s \<mapsto> as_source a) \<and>
     os_as_fd S t \<notin> Y \<and> own (poller r) = insert (os_as_fd S t) Y)"
| "sleep_holds S E own X Y _ r \<longleftrightarrow> addr_at E r = X \<and> own (poller r) = Y"

text \<open>The timer \<open>t\<close> that a poll reads, and the state in which it does: its own, set for the duration.\<close>

fun reads_timer :: "('t, 'fd, 'reg, 'p) os_calls \<Rightarrow> ('p, 'sw, 'ss, 'q, 'reg) crates \<Rightarrow> ('t, 'fd, 'p) timerfd_calls \<Rightarrow>
    't sleep \<Rightarrow> ('p, 'sw, 'ss, 'q, 'reg) reactor \<Rightarrow> 't \<Rightarrow> 'p \<Rightarrow> bool" where
  "reads_timer S E F (Sleep_Start dur) r t p \<longleftrightarrow> (\<exists>t0 p0 p1 a r1. tfd_new F (poller r) = (Inr t0, p0) \<and>
     tfd_oneshot F t0 dur p0 = (t, p1) \<and> async_new S E t (r\<lparr>poller := p1\<rparr>) = Inr (Inr a, r1) \<and> p = poller r1)"
| "reads_timer S E F (Sleep_Read a w) r t p \<longleftrightarrow> as_io a = Some t \<and> p = poller r"
| "reads_timer S E F Sleep_Done r t p \<longleftrightarrow> False"

definition sleep_outcome where
  "sleep_outcome S E own items F X Y cx reads out st' r' \<longleftrightarrow> reactor_ok E items r' \<and> sleep_holds S E own X Y st' r' \<and> (case out of
      Poll_Pending \<Rightarrow> \<exists>a w s. st' = Sleep_Read a w \<and> live E r' (as_source a) s \<and> task_waits E READ cx s
    | Poll_Ready res \<Rightarrow> st' = Sleep_Done \<and>
        (res = Inr () \<longrightarrow> (\<exists>t p n p'. reads t p \<and> timer_read F t () p = (Inr n, (), p'))))"

lemma sleep_outcome_mono:
  "sleep_outcome S E own items F X Y cx reads out st' r' \<Longrightarrow> (\<And>t p. reads t p \<Longrightarrow> reads' t p) \<Longrightarrow>
     sleep_outcome S E own items F X Y cx reads' out st' r'"
  unfolding sleep_outcome_def by (cases out) (simp, fastforce)

lemma handle_drop_frees:
  assumes ok: "reactor_ok E items r" and x: "live E r (as_source a) s" and h: "as_io a = Some t"
    and X: "X (src_key s) = None" "addr_at E r = X(src_key s \<mapsto> as_source a)"
  shows "\<exists>r'. async_drop S E a r = Inr r' \<and> reactor_ok E items r' \<and> addr_at E r' = X \<and>
    poller r' = os_close S t (snd (reg_delete (reg_calls E) (registration s) (poller r)))"
proof -
  note P = reactor_ok_parts [OF ok]
  have "source_at E r (src_key s) \<noteq> None" using live_source_at [OF x] by simp
  with P(2,4) obtain res r1 where rem: "remove_io E s r = Inr (res, r1)" by (rule remove_io_cases) blast
  have "async_drop S E a r = Inr (drop_handle S t r1)" using x h rem by (simp add: async_drop_def)
  moreover have "addr_at E r1 = X" using remove_tables(1) [OF ok x rem] X by auto
  ultimately show ?thesis using remove_io_reactor_ok(1) [OF ok x rem] remove_io_poller [OF rem] by (simp add: drop_handle_def)
qed

text \<open>Dropping the handle of a timer closes it.\<close>

lemma timer_drop_frees:
  assumes F: "timerfd_ok S E F own" and ok: "reactor_ok E items r" and x: "live E r (as_source a) s" and h: "as_io a = Some t"
    and X: "X (src_key s) = None" "addr_at E r = X(src_key s \<mapsto> as_source a)"
    and Y: "os_as_fd S t \<notin> Y" "own (poller r) = insert (os_as_fd S t) Y"
  shows "\<exists>r'. async_drop S E a r = Inr r' \<and> reactor_ok E items r' \<and> addr_at E r' = X \<and> own (poller r') = Y"
proof -
  from handle_drop_frees [OF ok x h X, of S] obtain r' where D: "async_drop S E a r = Inr r'" "reactor_ok E items r'" "addr_at E r' = X"
    "poller r' = os_close S t (snd (reg_delete (reg_calls E) (registration s) (poller r)))" by blast
  then have "own (poller r') = Y" using timerfd_okD(8) [OF F, of "registration s" "poller r"] Y by (simp add: timerfd_okD(9) [OF F])
  with D show ?thesis by blast
qed

lemma sleep_read_outcomes:
  assumes F: "timerfd_ok S E F own" and ok: "reactor_ok E items r" and x: "live E r (as_source a) s" and h: "as_io a = Some t"
    and w: "with_ok E READ w s" and X: "X (src_key s) = None" "addr_at E r = X(src_key s \<mapsto> as_source a)"
    and Y: "os_as_fd S t \<notin> Y" "own (poller r) = insert (os_as_fd S t) Y"
  shows "\<exists>out st' r'. sleep_read_poll S E F cx w a r = Some (Inr (out, st', r')) \<and>
    sleep_outcome S E own items F X Y cx (reads_timer S E F (Sleep_Read a w) r) out st' r'"
proof -
  let ?op = "shared_op (timer_read F)"
  obtain res p where tr: "timer_read F t () (poller r) = (res, (), p)" by (metis (full_types) old.unit.exhaust prod_cases3)
  then have op: "?op t () (poller r) = (res, t, (), p)" by (simp add: shared_op_def)
  have a: "a\<lparr>as_io := Some t\<rparr> = a" using h by (cases a) simp
  from io_with_returns [where op = ?op and b = "()", OF ok x h w op, of cx] obtain out w' r1 s1 where
    run: "io_with_poll E READ ?op cx w a () r = Some (Inr (out, w', a, (), r1))" and ok1: "reactor_ok E items r1"
    and x1: "live E r1 (as_source a) s1" and wait: "out = Poll_Pending \<Longrightarrow> with_ok E READ w' s1 \<and> task_waits E READ cx s1"
    and finished: "\<And>n. out = Poll_Ready (Inr n) \<Longrightarrow> res = Inr n"
    unfolding with_outcome_def a by (auto split: if_splits)
  have "own p' = own p" if "?op h b p = (y, h', b', p')" for h b p y h' b' p'
    using that timerfd_okD(4) [OF F] by (auto simp: shared_op_def split: prod.splits)
  from io_with_keeps [OF ok x h w timerfd_okD(7) [OF F] this run]
  have addr: "addr_at E r1 = addr_at E r" and own: "own (poller r1) = insert (os_as_fd S t) Y"
    using Y(2) by (simp_all add: addr_at_def fun_eq_iff)
  have key: "src_key s1 = src_key s"
  proof -
    have "sl_get (sslab E) (src_key s1) (sources r1) = Some (as_source a)" using x1 by (simp add: live_def)
    moreover have "addr_at E r1 (src_key s) = Some (as_source a)" using addr X(2) by simp
    ultimately show ?thesis using sources_ok_inj [OF reactor_ok_parts(2) [OF ok1]] by (simp add: addr_at_def)
  qed
  show ?thesis
  proof (cases out)
    case Poll_Pending
    with run wait x1 ok1 key addr X h Y(1) own show ?thesis by (auto simp: sleep_read_poll_def read_with_poll_def sleep_outcome_def)
  next
    case (Poll_Ready y)
    from timer_drop_frees [OF F ok1 x1 h, of X Y] key addr X Y(1) own obtain r2 where
      D: "async_drop S E a r1 = Inr r2" "reactor_ok E items r2" "addr_at E r2 = X" "own (poller r2) = Y" by auto
    have "\<exists>t p n p'. reads_timer S E F (Sleep_Read a w) r t p \<and> timer_read F t () p = (Inr n, (), p')"
      if "map_sum id (\<lambda>_. ()) y = Inr ()"
    proof -
      from that obtain n where "y = Inr n" by (cases y) simp_all
      with finished Poll_Ready tr h show ?thesis by simp
    qed
    with run Poll_Ready D show ?thesis by (simp add: sleep_read_poll_def read_with_poll_def sleep_outcome_def)
  qed
qed

lemma sleep_drop_releases:
  assumes F: "timerfd_ok S E F own" and ok: "reactor_ok E items r" and x: "live E r (as_source a) s" and h: "as_io a = Some t"
    and w: "with_ok E READ w s" and X: "X (src_key s) = None" "addr_at E r = X(src_key s \<mapsto> as_source a)"
    and Y: "os_as_fd S t \<notin> Y" "own (poller r) = insert (os_as_fd S t) Y"
  shows "\<exists>r'. sleep_drop S E (Sleep_Read a w) r = Inr r' \<and> reactor_ok E items r' \<and> addr_at E r' = X \<and> own (poller r') = Y"
proof (cases w)
  case (With_Wait polled f)
  with w have "rf_dir f = READ" by (auto simp: future_ok_def)
  with ok x obtain s1 r1 where D: "drop_future E f (as_source a) r = Inr r1" "reactor_ok E items r1"
    "live E r1 (as_source a) s1" "frees E READ (rf_index f) s s1" "poller r1 = poller r" by (rule drop_future_frees)
  have "addr_at E r1 = addr_at E r" using drop_future_sources [OF ok x D(1)] by (simp add: addr_at_def fun_eq_iff)
  with X D(4) have "X (src_key s1) = None" "addr_at E r1 = X(src_key s1 \<mapsto> as_source a)" by (simp_all add: frees_def)
  from timer_drop_frees [OF F D(2,3) h this Y(1)] Y(2) D(1,5) With_Wait show ?thesis by (simp add: io_with_drop_def)
qed (use timer_drop_frees [OF F ok x h X Y] in \<open>simp_all add: io_with_drop_def\<close>)

lemma handle_drops:
  assumes ok: "reactor_ok E items r" and x: "live E r (as_source a) s"
  shows "\<exists>r'. async_drop S E a r = Inr r'"
proof (cases "as_io a")
  case (Some h)
  note P = reactor_ok_parts [OF ok]
  have "source_at E r (src_key s) \<noteq> None" using live_source_at [OF x] by simp
  with P(2,4) obtain res r1 where "remove_io E s r = Inr (res, r1)" by (rule remove_io_cases) blast
  with Some x show ?thesis by (simp add: async_drop_def)
qed (simp add: async_drop_def)

text \<open>Creating a handle, in terms of the keys and the descriptors.\<close>

lemma async_new_opens:
  assumes F: "timerfd_ok S E F own" and ok: "reactor_ok E items r"
  obtains (opened) a s r' where "async_new S E h r = Inr (Inr a, r')" "reactor_ok E items r'" "as_io a = Some h"
      "live E r' (as_source a) s" "addr_at E r (src_key s) = None" "addr_at E r' = (addr_at E r)(src_key s \<mapsto> as_source a)"
      "own (poller r') = own (poller r)"
  | (refused) e r' where "async_new S E h r = Inr (Inl e, r')" "reactor_ok E items r'" "addr_at E r' = addr_at E r"
      "own (poller r') = own (poller r) - {os_as_fd S h}"
proof -
  note P = reactor_ok_parts [OF ok]
  obtain sres p where set: "set_nonblocking S (os_as_fd S h) (poller r) = (sres, p)" by force
  let ?r = "r\<lparr>poller := p\<rparr>"
  have okp: "reactor_ok E items ?r" using ok by simp
  note Q = reactor_ok_parts [OF okp]
  obtain ires r1 where ins: "insert_io E (handle_registration S h) ?r = Inr (ires, r1)"
    using Q(2,4,3) by (rule insert_io_cases [where g = "handle_registration S h"]) blast+
  have ok1: "reactor_ok E items r1" by (rule insert_io_reactor_ok [OF okp ins])
  have "own p = own (poller r)" using timerfd_okD(5) [OF F, of "os_as_fd S h" "poller r"] set by simp
  moreover from insert_io_calls_add [OF ins] obtain k where
    "poller r1 = snd (reg_add (reg_calls E) (handle_registration S h) k p)" by auto
  ultimately have "own p = own (poller r)" "own (poller r1) = own (poller r)" by (simp_all add: timerfd_okD(6) [OF F])
  then have "\<exists>res r'. async_new S E h r = Inr (res, r') \<and> reactor_ok E items r' \<and>
      own (poller r') = own (poller r) - (case res of Inl _ \<Rightarrow> {os_as_fd S h} | Inr _ \<Rightarrow> {})"
    using set ins ok ok1 by (cases sres; cases ires)
      (simp_all add: async_new_def async_new_nonblocking_def drop_handle_def timerfd_okD(9) [OF F])
  then obtain res r' where new: "async_new S E h r = Inr (res, r')" "reactor_ok E items r'"
    "own (poller r') = own (poller r) - (case res of Inl _ \<Rightarrow> {os_as_fd S h} | Inr _ \<Rightarrow> {})" by blast
  note T = new_tables [OF ok new(1)]
  show thesis
  proof (cases res)
    case (Inl e)
    with T new show thesis by (intro refused [of e r']) simp_all
  next
    case (Inr a)
    with T obtain k where K: "as_io a = Some h" "addr_at E r k = None" "addr_at E r' = (addr_at E r)(k \<mapsto> as_source a)" by auto
    then have at: "sl_get (sslab E) k (sources r') = Some (as_source a)" by (simp add: addr_at_def fun_eq_iff)
    with reactor_ok_parts(2) [OF new(2)] obtain s where "heap r' (as_source a) = Some s" "src_key s = k" by (rule sources_okD)
    with Inr K new at show thesis by (intro opened [of a r' s]) (simp_all add: live_def)
  qed
qed

lemma sleep_start_outcomes:
  assumes F: "timerfd_ok S E F own" and ok: "reactor_ok E items r" and X: "addr_at E r = X" and Y: "own (poller r) = Y"
  shows "\<exists>out st' r'. sleep_poll S E F cx (Sleep_Start dur) r = Some (Inr (out, st', r')) \<and>
    sleep_outcome S E own items F X Y cx (reads_timer S E F (Sleep_Start dur) r) out st' r'"
proof -
  obtain tres p where T: "tfd_new F (poller r) = (tres, p)" by force
  show ?thesis
  proof (cases tres)
    case (Inl e)
    with T X Y ok timerfd_okD(1) [OF F] show ?thesis by (simp add: sleep_outcome_def addr_at_def fun_eq_iff)
  next
    case (Inr t)
    obtain t' p' where O: "tfd_oneshot F t dur p = (t', p')" by force
    let ?r = "r\<lparr>poller := p'\<rparr>"
    have fd: "os_as_fd S t' \<notin> Y" "own p' = insert (os_as_fd S t') Y"
      using timerfd_okD(2) [OF F] timerfd_okD(3) [OF F O] T Inr Y by auto
    have "addr_at E ?r = X" using X by (simp add: addr_at_def fun_eq_iff)
    have "reactor_ok E items ?r" using ok by simp
    with F show ?thesis
    proof (cases rule: async_new_opens [where h = t'])
      case (opened a s r1)
      have "with_ok E READ With_Try s" by simp
      from sleep_read_outcomes [OF F opened(2,4,3) this, of X Y cx] opened(5-7) fd \<open>addr_at E ?r = X\<close> obtain out st' r' where
        P: "sleep_read_poll S E F cx With_Try a r1 = Some (Inr (out, st', r'))"
        "sleep_outcome S E own items F X Y cx (reads_timer S E F (Sleep_Read a With_Try) r1) out st' r'" by auto
      have start: "reads_timer S E F (Sleep_Start dur) r t2 p2" if "reads_timer S E F (Sleep_Read a With_Try) r1 t2 p2" for t2 p2
        using that opened(1,3) T Inr O by auto
      have "sleep_outcome S E own items F X Y cx (reads_timer S E F (Sleep_Start dur) r) out st' r'"
        by (rule sleep_outcome_mono [OF P(2) start])
      with P(1) T Inr O opened(1) show ?thesis by simp
    next
      case (refused e r1)
      with T Inr O fd \<open>addr_at E ?r = X\<close> show ?thesis by (simp add: sleep_outcome_def)
    qed
  qed
qed

text \<open>
  C39. The sleep of \<open>linux-timerfd.rs\<close>, where \<open>X\<close> are the sources and \<open>Y\<close> the open descriptors of others. A
  poll, the first or a later one, returns and does not panic. While it is pending it holds one source, with a
  waker of the task on it, and one open descriptor, its timer's, and nothing else; when it is done, with
  or without an error, no source and no descriptor is left beyond \<open>X\<close> and \<open>Y\<close>, and it is done without an
  error only when a read of its own timer, set for the duration, has succeeded. Dropped between polls it
  leaves no source and no open descriptor behind either.
\<close>

theorem sleep_leaves_nothing:
  assumes F: "timerfd_ok S E F own" and "reactor_ok E items r" "sleep_holds S E own X Y st r" "st \<noteq> Sleep_Done"
  shows "(\<exists>out st' r'. sleep_poll S E F cx st r = Some (Inr (out, st', r')) \<and> reactor_ok E items r' \<and>
      sleep_holds S E own X Y st' r' \<and> (case out of
        Poll_Pending \<Rightarrow> \<exists>a w s. st' = Sleep_Read a w \<and> live E r' (as_source a) s \<and> task_waits E READ cx s
      | Poll_Ready res \<Rightarrow> st' = Sleep_Done \<and> addr_at E r' = X \<and> own (poller r') = Y \<and>
          (res = Inr () \<longrightarrow> (\<exists>t p n p'. reads_timer S E F st r t p \<and> timer_read F t () p = (Inr n, (), p'))))) \<and>
    (\<exists>r'. sleep_drop S E st r = Inr r' \<and> reactor_ok E items r' \<and> addr_at E r' = X \<and> own (poller r') = Y)"
proof -
  have out: ?thesis if "\<exists>out st' r'. sleep_poll S E F cx st r = Some (Inr (out, st', r')) \<and>
      sleep_outcome S E own items F X Y cx (reads_timer S E F st r) out st' r'"
    and "\<exists>r'. sleep_drop S E st r = Inr r' \<and> reactor_ok E items r' \<and> addr_at E r' = X \<and> own (poller r') = Y"
  proof -
    from that(1) obtain out st' r' where P: "sleep_poll S E F cx st r = Some (Inr (out, st', r'))"
      "sleep_outcome S E own items F X Y cx (reads_timer S E F st r) out st' r'" by blast
    show ?thesis
    proof (rule conjI [OF _ that(2)])
      show "\<exists>out st' r'. sleep_poll S E F cx st r = Some (Inr (out, st', r')) \<and> reactor_ok E items r' \<and>
          sleep_holds S E own X Y st' r' \<and> (case out of
            Poll_Pending \<Rightarrow> \<exists>a w s. st' = Sleep_Read a w \<and> live E r' (as_source a) s \<and> task_waits E READ cx s
          | Poll_Ready res \<Rightarrow> st' = Sleep_Done \<and> addr_at E r' = X \<and> own (poller r') = Y \<and>
              (res = Inr () \<longrightarrow> (\<exists>t p n p'. reads_timer S E F st r t p \<and> timer_read F t () p = (Inr n, (), p'))))"
        using P [unfolded sleep_outcome_def] by (intro exI [of _ out] exI [of _ st'] exI [of _ r']) (auto split: poll.splits)
    qed
  qed
  show ?thesis
  proof (cases st)
    case (Sleep_Read a w)
    with assms(3) obtain t s where H: "as_io a = Some t" "live E r (as_source a) s" "with_ok E READ w s" "X (src_key s) = None"
      "addr_at E r = X(src_key s \<mapsto> as_source a)" "os_as_fd S t \<notin> Y" "own (poller r) = insert (os_as_fd S t) Y" by auto
    from sleep_read_outcomes [OF F assms(2) H(2,1,3-7), of cx] sleep_drop_releases [OF F assms(2) H(2,1,3-7)]
    show ?thesis unfolding Sleep_Read by (intro out [unfolded Sleep_Read]) simp_all
  next
    case (Sleep_Start dur)
    with assms(3) have XY: "addr_at E r = X" "own (poller r) = Y" by simp_all
    from sleep_start_outcomes [OF F assms(2) XY, of cx dur] XY assms(2) show ?thesis
      unfolding Sleep_Start by (intro out [unfolded Sleep_Start]) simp_all
  next
    case Sleep_Done
    with assms(4) show ?thesis by simp
  qed
qed

text \<open>Timers, fired or not, for which there are three descriptors.\<close>

definition sim_timerfd :: "bool \<Rightarrow> (raw_fd, raw_fd, sim_poller) timerfd_calls" where
  "sim_timerfd fired = \<lparr>tfd_new = (\<lambda>p. case List.find (\<lambda>fd. fd \<notin> set (sp_open p)) [7, 8, 9] of
         None \<Rightarrow> (Inl (Os_Error 24), p)
       | Some fd \<Rightarrow> (Inr fd, p\<lparr>sp_open := fd # sp_open p\<rparr>)),
     tfd_oneshot = (\<lambda>t d p. (t, p)), tfd_raw_fd = id,
     rio_read = (\<lambda>fd n p. (if fired then Inr n else Inl AGAIN, p))\<rparr>"

lemma sim_timerfd_ok: "timerfd_ok sim_os sim (sim_timerfd fired) sim_owned"
  unfolding timerfd_ok_def
proof (intro conjI allI)
  show "case tfd_new (sim_timerfd fired) p of (Inl e, p') \<Rightarrow> sim_owned p' = sim_owned p
      | (Inr t, p') \<Rightarrow> os_as_fd sim_os t \<notin> sim_owned p \<and> sim_owned p' = insert (os_as_fd sim_os t) (sim_owned p)" for p
    by (auto simp: sim_timerfd_def sim_owned_def sim_os_def split: option.splits dest!: find_Some_iff [THEN iffD1])
  note D = unix_netD [OF sim_unix_net]
  show "sim_owned (snd (reg_add (reg_calls sim) g k p)) = sim_owned p"
    "sim_owned (snd (reg_modify (reg_calls sim) g ev p)) = sim_owned p"
    "sim_owned (snd (reg_delete (reg_calls sim) g p)) = sim_owned p" for g k ev p
    using D(7-9) by (simp_all add: D(1))
  show "sim_owned (os_close sim_os t p) = sim_owned p - {os_as_fd sim_os t}" for t p by (rule D(10))
qed (simp_all add: sim_timerfd_def sim_os_def sim_owned_def)

text \<open>The timer has not fired at the first poll, and the sleep is dropped.\<close>

theorem sleep_leaves_nothing_witness:
  "\<exists>out st' r1. sleep_poll sim_os sim (sim_timerfd False) 3 (Sleep_Start 5) (sim_reactor [] []) = Some (Inr (out, st', r1)) \<and>
     (case out of
       Poll_Pending \<Rightarrow> \<exists>fd r2. sim_owned (poller r1) = {fd} \<and> sleep_drop sim_os sim st' r1 = Inr r2 \<and>
         sim_owned (poller r2) = {} \<and> addr_at sim r2 = Map.empty
     | Poll_Ready res \<Rightarrow> res \<noteq> Inr () \<and> sim_owned (poller r1) = {})"
proof -
  let ?F = "sim_timerfd False"
  have none: "timer_read ?F t () p \<noteq> (Inr n, (), p')" for t p n p' by (simp add: timer_read_def sim_timerfd_def)
  have "sleep_holds sim_os sim sim_owned Map.empty {} (Sleep_Start 5) (sim_reactor [] [])"
    by (simp add: addr_at_def sim_reactor_def reactor_new_def sim_get_def sim_owned_def sim_poller_new_def fun_eq_iff)
  note first = sleep_leaves_nothing [OF sim_timerfd_ok sim_reactor_ok this, of False 3]
  then obtain out st' r1 where P: "sleep_poll sim_os sim ?F 3 (Sleep_Start 5) (sim_reactor [] []) = Some (Inr (out, st', r1))"
    "reactor_ok sim id r1" "sleep_holds sim_os sim sim_owned Map.empty {} st' r1"
    and out: "case out of
        Poll_Pending \<Rightarrow> \<exists>a w s. st' = Sleep_Read a w \<and> live sim r1 (as_source a) s \<and> task_waits sim READ 3 s
      | Poll_Ready res \<Rightarrow> st' = Sleep_Done \<and> addr_at sim r1 = Map.empty \<and> sim_owned (poller r1) = {} \<and> res \<noteq> Inr ()"
    using none by (fastforce split: poll.splits)
  show ?thesis
  proof (cases out)
    case Poll_Pending
    with out obtain a w where st': "st' = Sleep_Read a w" by auto
    with P(3) obtain fd where "sim_owned (poller r1) = {fd}" by auto
    moreover obtain r2 where "sleep_drop sim_os sim st' r1 = Inr r2" "addr_at sim r2 = Map.empty" "sim_owned (poller r2) = {}"
      using sleep_leaves_nothing [OF sim_timerfd_ok P(2,3), of False 3] st' by auto
    ultimately show ?thesis using P(1) Poll_Pending by auto
  qed (use P out in auto)
qed

section \<open>Watching a directory\<close>

text \<open>
  What the reads give, until one would block: the named events, in order. Reads without a named event
  count as blocked.
\<close>

inductive inotify_batches :: "('i, 'p) inotify_calls \<Rightarrow> 'i \<Rightarrow> 'p \<Rightarrow> (os_string \<times> 32 word) list \<Rightarrow> 'i \<Rightarrow> 'p \<Rightarrow> bool"
  for I :: "('i, 'p) inotify_calls" where
  no_batch: "read_op I i () p = (Inl WouldBlock, i', (), p') \<Longrightarrow> inotify_batches I i p [] i' p'"
| a_batch: "read_op I i () p = (Inr evs, i1, (), p1) \<Longrightarrow> inotify_batches I i1 p1 rest i' p' \<Longrightarrow>
     inotify_batches I i p (evs @ rest) i' p'"

lemma drop_future_same:
  assumes ok: "reactor_ok E items r" and x: "live E r x s"
  obtains s' r' where "drop_future E f x r = Inr r'" "reactor_ok E items r'" "live E r' x s'"
    "poller r' = poller r" "same_object s s'"
  using ok x
proof (cases rule: drop_future_cases [where f = f])
  case (1 s' r')
  from ready_drop_spec [OF reactor_ok_parts(3) [OF ok], of f s] 1(1) have "src_key s' = src_key s" by (metis sum.inject(2))
  with 1 show thesis by (intro that [of r' s']) (simp_all add: put_source_def same_object_def)
qed

text \<open>The poller refuses, with the error \<open>e\<close>, to watch the source for readability.\<close>

definition refuses_reading :: "('p, 'sw, 'ss, 'q, 'reg) crates \<Rightarrow> ('sw, 'reg) source \<Rightarrow> 'p \<Rightarrow> io_error \<Rightarrow> bool" where
  "refuses_reading E s p e \<longleftrightarrow> (\<exists>ev q. reg_modify (reg_calls E) (registration s) ev p = (Inl e, q) \<and>
     ev_key ev = src_key s \<and> ev_readable ev)"

lemma refuses_same: "same_object s s' \<Longrightarrow> refuses_reading E s' = refuses_reading E s"
  by (simp add: refuses_reading_def same_object_def fun_eq_iff)

lemma first_poll_refused:
  assumes ok: "reactor_ok E items r" and x: "live E r x s"
    and poll: "poll_future E (source_ready READ) cx x r = Inr (Poll_Ready (Inl e), f', r')"
  shows "refuses_reading E s (poller r) e"
proof -
  let ?f = "source_ready READ"
  note slab = reactor_ok_parts(3) [OF ok]
  have f: "future_ok E ?f READ s" using slab by simp
  from ok x f show ?thesis
  proof (cases rule: poll_future_cases [where cx = cx])
    case (1 res f1 s1 p r1)
    show ?thesis
      using f
    proof (cases rule: ready_poll_cases [where cx = cx and r = r])
      case fresh
      then show ?thesis by (simp add: source_ready_def)
    next
      case (stored res2 r2 s2 f2 i sl)
      with 1(1,2) poll have eqs: "res2 = Poll_Ready (Inl e)" "s2 = s1" by auto
      note frame = ready_poll_frame(2,3) [OF f 1(1)]
      have "sl_get (wslab E) i (wakers (src_state s1 READ)) = Some (Some cx)" using stored(2) stored(3) [of i] eqs by simp
      then have "\<not> dir_is_empty E (src_state s1 READ)" using slab by (auto simp: waiting_def)
      moreover from stored(10) eqs obtain q where
        "reg_modify (reg_calls E) (registration s1) (interest_event E s1) (poller r) = (Inl e, q)"
        by (auto simp: update_interest_def split: if_splits sum.splits prod.splits)
      ultimately show ?thesis using frame
        by (auto simp: refuses_reading_def intro!: exI [of _ "interest_event E s1"])
    qed
  qed
qed

lemma io_with_try_refused:
  assumes ok: "reactor_ok E items r" and x: "live E r (as_source a) s" and h: "as_io a = Some h"
    and op: "op h b (poller r) = (Inl WouldBlock, h', b', p)"
    and poll: "io_with_poll E READ op cx With_Try a b r = Some (Inr (Poll_Ready (Inl e), w', a', b'', r'))"
  shows "refuses_reading E s p e"
proof -
  let ?a = "a\<lparr>as_io := Some h'\<rparr>" and ?r = "r\<lparr>poller := p\<rparr>"
  have wait: "io_with_poll E READ op cx (With_Wait False (source_ready READ)) ?a b' ?r =
      Some (Inr (Poll_Ready (Inl e), w', a', b'', r'))"
    using io_with_try [where E = E and d = READ and cx = cx and op = op and b = b and r = r, OF h op] poll by simp
  from ok x have ok1: "reactor_ok E items ?r" and x1: "live E ?r (as_source a) s" by simp_all
  from ok1 x1 show ?thesis
  proof (cases rule: first_poll_outcomes [where d = READ and cx = cx])
    case (pending f1 r1 s1)
    with wait io_with_first_wait [of E "source_ready READ" cx ?a ?r Poll_Pending f1 r1 READ op b'] show ?thesis by simp
  next
    case (failed e1 f1 r1 s1)
    from failed(2-4) obtain r2 where "drop_future E f1 (as_source a) r1 = Inr r2" by (rule drop_future_frees)
    with wait failed(1) io_with_first_wait [of E "source_ready READ" cx ?a ?r "Poll_Ready (Inl e1)" f1 r1 READ op b']
    have "e1 = e" by simp
    with first_poll_refused [OF ok1 x1] failed(1) show ?thesis by simp
  qed
qed

lemma io_with_refused:
  assumes ok: "reactor_ok E items r" and x: "live E r (as_source a) s" and h: "as_io a = Some h"
    and st: "with_ok E READ st s" and op: "op h b (poller r) = (Inl WouldBlock, h', b', p)"
    and poll: "io_with_poll E READ op cx st a b r = Some (Inr (Poll_Ready (Inl e), w', a', b'', r'))"
  shows "refuses_reading E s p e"
proof (cases st)
  case With_Try
  with io_with_try_refused [where op = op and b = b, OF ok x h op] poll show ?thesis by simp
next
  case (With_Wait polled f)
  from ok x obtain s1 r1 where D: "drop_future E f (as_source a) r = Inr r1" "reactor_ok E items r1"
    "live E r1 (as_source a) s1" "poller r1 = poller r" "same_object s s1" by (rule drop_future_same)
  have "op h b (poller r1) = (Inl WouldBlock, h', b', p)" using op D(4) by simp
  from io_with_try_refused [where op = op and b = b, OF D(2,3) h this] poll io_with_resume [OF D(1), of READ op cx b] With_Wait st refuses_same [OF D(5), of E]
  show ?thesis by simp
next
  case With_Done
  with st show ?thesis by simp
qed

lemma io_with_settled:
  assumes ok: "reactor_ok E items r" and x: "live E r (as_source a) s" and h: "as_io a = Some h"
    and st: "with_ok E d st s" and op: "op h b (poller r) = (res, h', b', p)" and res: "res \<noteq> Inl WouldBlock"
  obtains r' s' where "io_with_poll E d op cx st a b r = Some (Inr (Poll_Ready res, With_Done, a\<lparr>as_io := Some h'\<rparr>, b', r'))"
    "reactor_ok E items r'" "live E r' (as_source a) s'" "poller r' = p" "same_object s s'"
proof (cases st)
  case With_Try
  with io_with_try [where E = E and d = d and cx = cx and op = op and b = b and r = r, OF h op] res ok x show thesis
    by (intro that [of "r\<lparr>poller := p\<rparr>" s]) (simp_all add: same_object_def)
next
  case (With_Wait polled f)
  with st have f: "polled" by simp
  from ok x obtain s1 r1 where D: "drop_future E f (as_source a) r = Inr r1" "reactor_ok E items r1"
    "live E r1 (as_source a) s1" "poller r1 = poller r" "same_object s s1" by (rule drop_future_same)
  have op1: "op h b (poller r1) = (res, h', b', p)" using op D(4) by simp
  from io_with_try [where E = E and d = d and cx = cx and op = op and b = b and r = r1, OF h op1] res
    io_with_resume [OF D(1), of d op cx b] With_Wait f D(2,3,5)
  show thesis by (intro that [of "r1\<lparr>poller := p\<rparr>" s1]) simp_all
next
  case With_Done
  with st show thesis by simp
qed

lemma inotify_loop_returns:
  assumes "inotify_batches I i (poller r) evs i' p'" "reactor_ok E items r" "live E r (as_source a) s"
    "as_io a = Some i" "with_ok E READ w s"
  shows "\<exists>out w' r'. inotify_loop S E I cx w a printed r = Some (Inr (out, w', a\<lparr>as_io := Some i'\<rparr>, printed @ evs, r')) \<and>
    (out = Poll_Pending \<and> (\<exists>s'. live E r' (as_source a) s' \<and> with_ok E READ w' s' \<and> task_waits E READ cx s') \<or>
     (\<exists>e. out = Poll_Ready (Inl e) \<and> refuses_reading E s p' e))"
  using assms
proof (induction i "poller r" evs i' p' arbitrary: r a s w printed rule: inotify_batches.induct)
  case (no_batch i i' p')
  from io_with_returns [where op = "read_op I" and b = "()", OF no_batch(2-5,1), of cx] obtain out w' r1 s1 where
    run: "io_with_poll E READ (read_op I) cx w a () r = Some (Inr (out, w', a\<lparr>as_io := Some i'\<rparr>, (), r1))"
    and ok1: "reactor_ok E items r1" and x1: "live E r1 (as_source a) s1"
    and cases: "out = Poll_Pending \<and> with_ok E READ w' s1 \<and> task_waits E READ cx s1 \<or> (\<exists>e. out = Poll_Ready (Inl e))"
    unfolding with_outcome_def by auto
  show ?case
  proof (cases "out = Poll_Pending")
    case True
    with run x1 cases show ?thesis by (subst inotify_loop.simps) (auto simp: read_with_mut_poll_def)
  next
    case False
    with cases obtain e where e: "out = Poll_Ready (Inl e)" by blast
    have x1': "live E r1 (as_source (a\<lparr>as_io := Some i'\<rparr>)) s1" using x1 by simp
    from handle_drops [OF ok1 x1'] obtain r2 where "async_drop S E (a\<lparr>as_io := Some i'\<rparr>) r1 = Inr r2" by blast
    moreover have "refuses_reading E s p' e" using io_with_refused [where op = "read_op I" and b = "()", OF no_batch(2-5,1)] run e by blast
    ultimately show ?thesis using run e by (subst inotify_loop.simps) (simp add: read_with_mut_poll_def)
  qed
next
  case (a_batch i evs i1 p1 rest i' p')
  from io_with_settled [where op = "read_op I" and b = "()", OF a_batch(4-7,1), of cx] obtain r1 s1 where
    run: "io_with_poll E READ (read_op I) cx w a () r = Some (Inr (Poll_Ready (Inr evs), With_Done, a\<lparr>as_io := Some i1\<rparr>, (), r1))"
    and D: "reactor_ok E items r1" "live E r1 (as_source a) s1" "poller r1 = p1" "same_object s s1" by auto
  have "live E r1 (as_source (a\<lparr>as_io := Some i1\<rparr>)) s1" "as_io (a\<lparr>as_io := Some i1\<rparr>) = Some i1" "with_ok E READ With_Try s1"
    using D by simp_all
  from a_batch(3) [OF D(3) [symmetric] D(1) this, of "printed @ evs"] run refuses_same [OF D(4), of E] show ?case
    by (subst inotify_loop.simps) (simp add: read_with_mut_poll_def)
qed

text \<open>
  C40. The loop of \<open>linux-inotify.rs\<close>. If the directory has a number of batches of events ready before a
  read would block, one poll returns, and has printed exactly the events with a name of all of these
  batches, in their order, after what was printed before. Then it is pending, with a waker of the task
  on the handle; or it has ended with an error of the poller, which has refused, after that read, to
  watch the directory for readability under the source's key. A read that brings no named event does not
  make it spin, and that it would block never reaches the loop.
\<close>

theorem directory_events_are_printed:
  assumes "reactor_ok E items r" "live E r (as_source a) s" "as_io a = Some i" "with_ok E READ w s"
    and "inotify_batches I i (poller r) evs i' p'"
  shows "\<exists>out w' r'. inotify_loop S E I cx w a printed r = Some (Inr (out, w', a\<lparr>as_io := Some i'\<rparr>, printed @ evs, r')) \<and>
    (out = Poll_Pending \<and> (\<exists>s'. live E r' (as_source a) s' \<and> with_ok E READ w' s' \<and> task_waits E READ cx s') \<or>
     (\<exists>e. out = Poll_Ready (Inl e) \<and> refuses_reading E s p' e))"
  by (rule inotify_loop_returns [OF assms(5,1-4)])

text \<open>A directory in which two things happen for every byte that is pending, one of them to the directory itself.\<close>

definition sim_inotify :: "(raw_fd, sim_poller) inotify_calls" where
  "sim_inotify = \<lparr>in_init = (\<lambda>p. (Inr 7, p)), in_watch = (\<lambda>i path m p. (Inr (), i, p)),
     in_read_events = (\<lambda>i n p. case sp_data p i of
         [] \<Rightarrow> (Inl WouldBlock, i, p)
       | b # bs \<Rightarrow> (Inr [\<lparr>ev_name = None, ev_mask = 2\<rparr>, \<lparr>ev_name = Some [b], ev_mask = 1\<rparr>], i, p\<lparr>sp_data := (sp_data p)(i := bs)\<rparr>)),
     in_all_events = 4095\<rparr>"

theorem directory_events_are_printed_witness:
  "\<exists>out w' a' r'. inotify_loop sim_os sim sim_inotify 3 With_Try sim_handle [] (sim_open [5, 6]) =
     Some (Inr (out, w', a', [([5], 1), ([6], 1)], r'))"
proof -
  define next_poller where "next_poller = (\<lambda>p :: sim_poller. p\<lparr>sp_data := (sp_data p)(7 := tl (sp_data p 7))\<rparr>)"
  have batch: "read_op sim_inotify 7 () p = (Inr [([b], 1)], 7, (), next_poller p)" if "sp_data p 7 = b # bs" for p b bs
    using that by (simp add: read_op_def sim_inotify_def named_event_def List.map_filter_def next_poller_def)
  have empty: "read_op sim_inotify 7 () p = (Inl WouldBlock, 7, (), p)" if "sp_data p 7 = []" for p
    using that by (simp add: read_op_def sim_inotify_def)
  let ?p = "poller (sim_open [5, 6])"
  have p: "sp_data ?p 7 = [5, 6]" "sp_data (next_poller ?p) 7 = [6]" "sp_data (next_poller (next_poller ?p)) 7 = []"
    by (simp_all add: sim_open_def Let_def next_poller_def)
  have "inotify_batches sim_inotify 7 ?p ([([5], 1)] @ ([([6], 1)] @ [])) 7 (next_poller (next_poller ?p))"
    by (intro a_batch [OF batch [OF p(1)]] a_batch [OF batch [OF p(2)]] no_batch [OF empty [OF p(3)]])
  from directory_events_are_printed [OF sim_open_ok sim_open_live sim_handle_io _ this, of With_Try sim_os 3 "[]"]
  show ?thesis by fastforce
qed

section \<open>Waiting for a process\<close>

fun exit_holds :: "('p, 'sw, 'ss, 'q, 'reg) crates \<Rightarrow> (slab_key \<Rightarrow> addr option) \<Rightarrow> 'f waiting_exit \<Rightarrow>
    ('p, 'sw, 'ss, 'q, 'reg) reactor \<Rightarrow> bool" where
  "exit_holds E X (Exit_Wait a f) r \<longleftrightarrow> (\<exists>h s. as_io a = Some h \<and> live E r (as_source a) s \<and> future_ok E f READ s \<and>
     X (src_key s) = None \<and> addr_at E r = X(src_key s \<mapsto> as_source a))"
| "exit_holds E X Exit_Done r \<longleftrightarrow> addr_at E r = X"

text \<open>
  The future of \<open>kqueue-process.rs\<close> and \<open>windows-command.rs\<close>: a poll does not panic. While it is pending,
  the task waits on the one source it holds; it is done without an error only after an event that is
  newer than the wait, and it then holds nothing.
\<close>

theorem process_wait_leaves_nothing:
  assumes ok: "reactor_ok E items r" and H: "exit_holds E X (Exit_Wait a f) r"
  shows "\<exists>out st' r'. exit_wait_poll S E cx (Exit_Wait a f) r = Inr (out, st', r') \<and> reactor_ok E items r' \<and>
    exit_holds E X st' r' \<and> (case out of
      Poll_Pending \<Rightarrow> \<exists>f' s. st' = Exit_Wait a f' \<and> live E r' (as_source a) s \<and> task_waits E READ cx s
    | Poll_Ready res \<Rightarrow> st' = Exit_Done \<and> (res = Inr () \<longrightarrow> (\<exists>s. live E r (as_source a) s \<and>
        fresh_event (rf_ticks f) (tick (src_state s READ)))))"
proof -
  from H obtain h s where W: "as_io a = Some h" "live E r (as_source a) s" "future_ok E f READ s" "X (src_key s) = None"
    "addr_at E r = X(src_key s \<mapsto> as_source a)" by auto
  obtain out f' s1 p r1 where P: "ready_poll E f cx s r = Inr (out, f', s1, r\<lparr>poller := p\<rparr>)"
    "poll_future E f cx (as_source a) r = Inr (out, f', r1)" "reactor_ok E items r1" "live E r1 (as_source a) s1"
    using ok W(2,3) by (rule poll_future_cases [where cx = cx])
  have addr: "addr_at E r1 = addr_at E r" using poll_future_sources [OF ok W(2,3) P(2)] by (simp add: addr_at_def fun_eq_iff)
  have frame: "src_key s1 = src_key s" "rf_dir f' = READ" using ready_poll_frame(2,4) [OF W(3) P(1)] W(3) by (simp_all add: future_ok_def)
  show ?thesis
  proof (cases out)
    case Poll_Pending
    then have "ready_poll_as E f READ cx s r = Inr (Poll_Pending, f', s1, r\<lparr>poller := p\<rparr>)" using P(1) by (simp add: ready_poll_as_def)
    from rp.pending [OF W(3) this] have "future_ok E f' READ s1" "task_waits E READ cx s1" by (simp_all add: task_waits_def)
    with Poll_Pending P W frame addr show ?thesis by auto
  next
    case (Poll_Ready res)
    from P(3,4) frame(2) obtain s2 r2 where D: "drop_future E f' (as_source a) r1 = Inr r2" "reactor_ok E items r2"
      "live E r2 (as_source a) s2" "frees E READ (rf_index f') s1 s2" by (rule drop_future_frees)
    have "addr_at E r2 = addr_at E r1" using drop_future_sources [OF P(3,4) D(1)] by (simp add: addr_at_def fun_eq_iff)
    with addr frame W D(4) have "X (src_key s2) = None" "addr_at E r2 = X(src_key s2 \<mapsto> as_source a)" by (simp_all add: frees_def)
    from handle_drop_frees [OF D(2,3) W(1) this, of S] obtain r3 where
      C: "async_drop S E a r2 = Inr r3" "reactor_ok E items r3" "addr_at E r3 = X" by blast
    have "fresh_event (rf_ticks f) (tick (src_state s READ))" if "res = Inr ()"
      using rp.only_fresh [OF W(3), of cx r f' s1 "r\<lparr>poller := p\<rparr>"] P(1) Poll_Ready that by (simp add: ready_poll_as_def)
    with P(2) Poll_Ready D(1) C W(2) show ?thesis by auto
  qed
qed

theorem process_wait_leaves_nothing_witness:
  "\<exists>out st' r'. exit_wait_poll sim_os sim 3 (Exit_Wait sim_handle (source_ready READ)) (sim_open []) = Inr (out, st', r') \<and>
     exit_holds sim Map.empty st' r'"
proof -
  have "addr_at sim (sim_open []) = [0 \<mapsto> 0]"
    by (rule ext) (simp add: addr_at_def sim_open_def Let_def sim_get_singleton)
  moreover have "src_key sim_source = 0" "as_source sim_handle = 0" by (simp_all add: sim_open_defs sim_vacant_def sim_eval)
  ultimately have "exit_holds sim Map.empty (Exit_Wait sim_handle (source_ready READ)) (sim_open [])"
    using sim_open_live [of "[]"] sim_handle_io by (auto simp: future_ok_new)
  from process_wait_leaves_nothing [OF sim_open_ok this, of sim_os 3] show ?thesis by blast
qed

end
