(* ===== verification/Spec2Isabelle.thy ===== *)
theory Spec2Isabelle
  imports Timers_System Handles_Watched Driver Block_On_IO Block_On_Steps Globals Net_Properties Async_Windows Examples_Properties
begin

text \<open>
  A verification library for async-io: asynchronous I/O and timers on top of a reactor.

  The program. A global reactor (\<open>src/src/reactor.rs\<close>) keeps the sources that are registered with
  the operating system's poller and the timers that are set. \<open>Timer\<close> and \<open>Async\<close>
  (\<open>src/src/lib.rs\<close>) are the handles that tasks use: a poll leaves a waker with the reactor, in a
  source's direction or in the timer map. Whoever holds the reactor's lock runs \<open>react\<close>: it collects
  the due timers, waits in the poller, takes the wakers of the sources whose events arrived,
  re-registers these sources where somebody still waits, and wakes. The threads that do so are
  those in \<open>block_on\<close> and the "async-io" thread (\<open>src/src/driver.rs\<close>). What a source is for the
  operating system is platform code (\<open>src/src/reactor/unix.rs\<close>, \<open>kqueue.rs\<close>, \<open>windows.rs\<close>), with
  its public types in \<open>src/src/os/\<close>.

  The theories, from the bottom.

  \<^item> \<open>Prelude\<close>: machine integers (\<open>usize\<close> is a 64-bit word and wraps), results, polls, panics
    as a sum type, the binds that thread them, and shared lemmas. \<open>Std_Time\<close> and \<open>Std_BTreeMap\<close>
    model what the code uses of \<open>std::time\<close> (bounds included) and of \<open>BTreeMap\<close>.
  \<^item> \<open>Crates\<close>: the third-party crates \<open>slab\<close>, \<open>concurrent-queue\<close> and \<open>polling\<close> as records of
    operations over a state type, with contracts (\<open>crates_ok\<close> and others) as named hypotheses.
    \<open>Sim_Crates\<close> is a concrete instance that satisfies them; the witnesses compute on it.
  \<^item> \<open>Registration\<close>, \<open>Registration_Kqueue\<close>, \<open>Registration_Windows\<close>: \<open>Registration\<close> of each
    platform. The locale \<open>registration_backend\<close> is what the reactor relies on; each platform
    interprets it.
  \<^item> \<open>Reactor_State\<close>: the data of the reactor, \<open>Direction\<close>, \<open>Source\<close>, \<open>TimerOp\<close>. Sources are
    shared through \<open>Arc\<close>, so they live in an explicit store. The calls of \<open>Waker::wake\<close> are
    recorded in \<open>woken\<close>.
  \<^item> \<open>Reactor_Timers\<close>: \<open>insert_timer\<close>, \<open>remove_timer\<close>, \<open>process_timer_ops\<close>, \<open>process_timers\<close>.
    The lemmas show that they refine updates of one map, the \<open>timer_view\<close> (locales
    \<open>ordered_map\<close>, \<open>timer_service\<close>).
  \<^item> \<open>Source\<close>: \<open>poll_ready\<close>, the \<open>Ready\<close> future with its \<open>drop\<close>, and the four futures built on it.
    The locale \<open>readiness_poll\<close> is the contract of both ways of waiting.
  \<^item> \<open>Reactor_IO\<close>: \<open>insert_io\<close>, \<open>remove_io\<close>, and \<open>react\<close>, cut at the blocking wait into
    \<open>react_prepare\<close>, \<open>react_wait\<close> and \<open>react_finish\<close>. \<open>Reactor_Round\<close>: what they do to the
    sources by key and to the timers.
  \<^item> \<open>Interest\<close>: whenever a task waits on a direction, the poller watches the source for it (locale
    \<open>interest_backend\<close>, interpreted on the three platforms). \<open>Handles\<close>: polls through an
    \<open>Arc<Source>\<close>. \<open>Rounds\<close>: the reactor under concurrency, as a step relation in which any
    operation may fall between two steps of a round, and the tasks may do I/O on their handles,
    with its invariant. Its ghost field \<open>sys_lost\<close> says which sources have lost their registration,
    by a refusal of the poller or a round that ended with an error, until they are registered anew.
  \<^item> \<open>Timer\<close>: every operation of \<open>Timer\<close>, and the lemmas on the one map entry that it owns.
  \<^item> \<open>Driver\<close>: \<open>main_loop\<close>, one turn as a function of what it observes, and \<open>block_on\<close> as a step
    relation over program points, with the wakers, the other threads and the "async-io" thread.
  \<^item> \<open>Block_On\<close>: \<open>block_on\<close> as a function over the modelled reactor, for any future and any schedule of
    clock readings, lock and rounds of other threads. \<open>Block_On_Waits\<close>: why it returns, as a contract between
    the thread and what its future waits for (locale \<open>awaited\<close>), which \<open>Block_On_Properties\<close> interprets on
    timers and \<open>Block_On_IO\<close> on sources. \<open>Block_On_Wakes\<close>: it polls no more often than it is woken. \<open>Block_On_Steps\<close>: its runs are runs
    of the step relation of \<open>Driver\<close>.
  \<^item> \<open>Globals\<close>: \<open>Reactor::get\<close> with \<open>unparker\<close> and \<open>init\<close>, as a step relation of any number of threads
    over the two \<open>OnceLock\<close>s (locale \<open>once_cell\<close>), and the lock of the reactor, which these threads
    take, give back, and poison when they panic with it.
  \<^item> \<open>Async\<close> and \<open>Async_Ops\<close>: creating, converting and giving up an \<open>Async<T>\<close>, \<open>set_nonblocking\<close>
    on every target, \<open>readable\<close> and \<open>writable\<close>, the futures of \<open>read_with\<close> and \<open>write_with\<close>, and
    the poll functions of \<open>AsyncRead\<close> and \<open>AsyncWrite\<close>. Their properties, with the contract of the
    system calls (\<open>os_ok\<close>), are in \<open>Async_Properties\<close>; those of a new handle are proved once, in the
    locale \<open>registration_backend\<close>. \<open>Async_Windows\<close>: the implementations for Windows, where a handle is a socket.
  \<^item> \<open>Net\<close>: the TCP, UDP and Unix socket types, \<open>connect\<close> with its variants per target, and the
    futures of \<open>accept\<close>, \<open>incoming\<close> and \<open>connect\<close>. Properties and contracts (\<open>net_ok\<close>,
    \<open>unix_net\<close>) are in \<open>Net_Properties\<close>.
  \<^item> \<open>Os\<close>: \<open>reactor_fd\<close>, the filters of kqueue (signals and process exits) and the waitable handles
    of Windows. Their properties, in any reachable state, are in \<open>Os_Properties\<close>.
  \<^item> \<open>Examples\<close>: four programs of \<open>src/examples/\<close> as clients, poll by poll: sleeping on a \<open>timerfd\<close>,
    printing the events of a directory, and waiting for a process on kqueue and Windows.
    \<open>Examples_Properties\<close>: they leave no source and no open descriptor behind (contract \<open>timerfd_ok\<close>), and
    their loops return.
  \<^item> \<open>Reactor_Properties\<close>: the properties of the reactor, its sources and the futures.
  \<^item> \<open>System\<close>: the parts together. A whole \<open>react\<close> and every poll of an operation on a handle are
    runs of the steps of \<open>Rounds\<close>, so the invariants of reachable states hold after them and
    between their steps; a pending operation is watched for by the poller, unless its source has lost
    its registration. \<open>Timers_System\<close>: the same for timers; a waiting timer's waker is registered,
    collected by a round, or woken, at any point of any interleaving, unless a round that has collected
    it ends with an error. \<open>Handles_System\<close>: programs that open, write to and give up handles among
    these steps; every such operation is a run too, and handles, sources and descriptors correspond
    one to one. \<open>Handles_Watched\<close>: the poller watches nothing but the handles of the program.

  What the properties show. Of the reactor: a waiting task is watched for, except while an event of its
  source is being handled and while the source has lost its registration; a wait ends with a newer event
  and only then, a round wakes whom it should and returns, its timeout is exact, and
  its error paths lose what the findings say. Of timers: they fire when due, once, or in an
  exact progression, and touch no entry but their own. Of \<open>block_on\<close>: no wake-up is lost, a
  woken thread polls again after at most six steps of its own and not before it is woken, waiting for a timer
  or for an event that comes ends, and the "async-io" thread knows when to take over. Of the handles: every way of opening one either yields a registered, non-blocking handle
  or leaves nothing behind; a handle is deregistered before it is closed; operations return, are
  tried at the right moments, and wait with a waker registered.

  Conventions. A panic is a value (\<open>Inl\<close> of type \<open>panic\<close>), and the properties say that there is
  none. The reading of a clock is an argument. An \<open>async fn\<close> is a state machine with one function for a
  poll and one for dropping it between polls; the poller's state stands for the whole
  operating system, so that a call takes it and returns it. A method that is generic in the handle's
  type takes that type's operations as arguments.

  Bounds. The loops that may not end are partial functions with \<open>option\<close> results: the retries of
  a full timer queue, \<open>io_poll\<close> and \<open>io_with_poll\<close>, and the loops of \<open>block_on\<close>. The properties and lemmas
  prove that the first three return, \<open>io_poll\<close> after at most two attempts and \<open>io_with_poll\<close> after exactly
  one, and that \<open>block_on\<close> does when the clock reaches the instant, or the poller brings the event, that it waits
  for (hypotheses \<open>clock_ok\<close> and \<open>event_comes\<close>). The rank of \<open>block_on\<close> is at
  most six; the back-off of the main loop adds up to 20225 microseconds over at most eleven turns. The
  queue of timer operations is bounded by 1000, on ESP-IDF by 100 (field \<open>on_espidf\<close>). The ticker wraps, so a property that compares rounds assumes fewer than \<open>2 ^ 64\<close> of them; the counter of
  sleeps is a 64-bit word, with its bound as a hypothesis.

  Interleaving. A step of \<open>Rounds\<close> is one critical section (a lock held once) of one thread; a step
  of \<open>block_on\<close> is one atomic operation. In \<open>Block_On\<close> other threads run rounds while the thread is parked,
  and wakers are called from rounds and from the future itself. The polls of \<open>Async_Properties\<close> and \<open>Net_Properties\<close> are
  stated for a poll that no other thread interrupts; \<open>System\<close> cuts the operations on a handle into
  steps, and \<open>Os_Properties\<close> is stated for the states that such steps reach. Memory is sequentially
  consistent, which is what the orderings used in the code (\<open>SeqCst\<close>, and locks) give for the
  fields modelled.

  Not modelled. Dropping the reactor, which never happens, and the thread-local \<open>IO_POLLING\<close> of a
  \<open>block_on\<close> nested inside the future of another (its other effects are steps of other threads). Marker
  traits (\<open>IoSafe\<close>, \<open>Unpin\<close>, \<open>Send\<close>), \<open>Debug\<close> output and tracing have no behaviour to state. The crates
  \<open>polling\<close>, \<open>rustix\<close>, \<open>parking\<close>, \<open>slab\<close> and \<open>concurrent-queue\<close> and the methods of the standard
  library's sockets are parameters. The examples \<open>windows-uds.rs\<close> and \<open>unix-signal.rs\<close> are made of
  combinators of other crates; benches and tests are clients, and the build script sets a flag.
\<close>

end
